(* ===== verification/Prelude.thy ===== *)
theory Prelude
  imports Main "HOL-Library.Word"
begin

text \<open>
  Shared vocabulary of the development: the machine types of the 64-bit targets, the
  kernel's error type (\<open>libkernel/src/error.rs\<close>), the outcome type that carries every
  early return, panic and non-terminating loop of the source, and the facts on machine
  words and separated lists that the component theories use.
\<close>

unbundle bit_operations_syntax

section \<open>Machine integers\<close>

text \<open>Unsigned integers are words of their width; \<open>+\<close>, \<open>-\<close> and \<open>*\<close> wrap, as the release
  profile of the crate does.\<close>

type_synonym u8 = "8 word"
type_synonym u16 = "16 word"
type_synonym u32 = "32 word"
type_synonym u64 = "64 word"
type_synonym usize = "64 word"

definition saturating_sub :: "'a::len word \<Rightarrow> 'a word \<Rightarrow> 'a word" where
  "saturating_sub a b = (if b \<le> a then a - b else 0)"

definition is_power_of_two :: "'a::len word \<Rightarrow> bool" where
  "is_power_of_two a \<longleftrightarrow> list_ex (\<lambda>n. a = 2 ^ n) [0..<LENGTH('a)]"

section \<open>Errors and outcomes\<close>

datatype probe_error = NoReg | NoRegSize | NoInterrupts | NoParentIntterupt
  | NotInterruptController | Deferred

datatype map_error = PhysNotAligned | VirtNotAligned | SizeMismatch | WalkFailed
  | InvalidDescriptor | TooSmall | AlreadyMapped | NotL3Mapped

datatype io_error = IoOutOfBounds | MetadataCorruption

datatype fs_error = NotFound | NotADirectory | IsADirectory | AlreadyExists | InvalidInput
  | InvalidFs | FsOutOfBounds | PermissionDenied | DriverNotFound | TooManyFiles | NoDevice

datatype exec_error = InvalidElfFormat | InvalidPHdrFormat

datatype kernel_error =
    NoMemory | NoMemRegion | InvalidValue | InUse | MappingError map_error | TooLarge
  | NotSupported | Probe probe_error | Io io_error | Fs fs_error | Exec exec_error | NotATty
  | Fault | BadFd | SeekPipe | BrokenPipe | NotPermitted | BufferFull | NoProcess
  | NotImplemented | NameTooLong | Other string

text \<open>
  \<open>Ok\<close> and \<open>Err\<close> are the two values of the source's \<open>Result\<close>. \<open>Panic\<close> is a failed
  assertion, an \<open>unwrap\<close> of nothing, an out-of-range index or an explicit \<open>panic!\<close>;
  \<open>Diverge\<close> is a loop that does not return.
\<close>

datatype 'a outcome = Ok 'a | Err kernel_error | Panic | Diverge

primrec and_then :: "'a outcome \<Rightarrow> ('a \<Rightarrow> 'b outcome) \<Rightarrow> 'b outcome" where
  "and_then (Ok x) f = f x"
| "and_then (Err e) f = Err e"
| "and_then Panic f = Panic"
| "and_then Diverge f = Diverge"

definition ok_or :: "'a option \<Rightarrow> kernel_error \<Rightarrow> 'a outcome" where
  "ok_or x e = (case x of None \<Rightarrow> Err e | Some v \<Rightarrow> Ok v)"

text \<open>The same for code that changes a state: the state reached is kept on every outcome.\<close>

definition st_then ::
  "'a outcome \<times> 's \<Rightarrow> ('a \<Rightarrow> 's \<Rightarrow> 'b outcome \<times> 's) \<Rightarrow> 'b outcome \<times> 's" where
  "st_then r f = (case r of (Ok x, s) \<Rightarrow> f x s | (Err e, s) \<Rightarrow> (Err e, s)
     | (Panic, s) \<Rightarrow> (Panic, s) | (Diverge, s) \<Rightarrow> (Diverge, s))"

text \<open>A \<open>for\<close> loop whose body may return early.\<close>

primrec st_iter ::
  "('x \<Rightarrow> 's \<Rightarrow> unit outcome \<times> 's) \<Rightarrow> 'x list \<Rightarrow> 's \<Rightarrow> unit outcome \<times> 's" where
  "st_iter f [] s = (Ok (), s)"
| "st_iter f (x # xs) s = st_then (f x s) (\<lambda>_ s'. st_iter f xs s')"

lemma ok_or_simps [simp]:
  "ok_or None e = Err e" "ok_or (Some v) e = Ok v"
  by (simp_all add: ok_or_def)

lemma st_then_simps [simp]:
  "st_then (Ok x, s) f = f x s" "st_then (Err e, s) f = (Err e, s)"
  "st_then (Panic, s) f = (Panic, s)" "st_then (Diverge, s) f = (Diverge, s)"
  by (simp_all add: st_then_def)

lemma st_then_eq_Ok:
  "st_then r f = (Ok y, s) \<longleftrightarrow> (\<exists>x s'. r = (Ok x, s') \<and> f x s' = (Ok y, s))"
  by (auto simp: st_then_def split: prod.splits outcome.splits)

lemma st_then_cong [fundef_cong]:
  "r = r' \<Longrightarrow> (\<And>x s. r' = (Ok x, s) \<Longrightarrow> f x s = g x s) \<Longrightarrow> st_then r f = st_then r' g"
  by (auto simp: st_then_def split: prod.splits outcome.splits)

lemma st_then_assoc: "st_then (st_then r f) g = st_then r (\<lambda>x s. st_then (f x s) g)"
  by (auto simp: st_then_def split: prod.splits outcome.splits)

lemma st_iter_append:
  "st_iter f (xs @ ys) s = st_then (st_iter f xs s) (\<lambda>_ s'. st_iter f ys s')"
  by (induction xs arbitrary: s) (simp_all add: st_then_assoc)

lemma and_then_assoc: "and_then (and_then m f) g = and_then m (\<lambda>x. and_then (f x) g)"
  by (cases m) simp_all

lemma and_then_eq_Ok [simp]:
  "and_then m f = Ok y \<longleftrightarrow> (\<exists>x. m = Ok x \<and> f x = Ok y)"
  by (cases m) auto

section \<open>Facts on words\<close>

named_theorems word_nat \<open>moves comparisons and guarded arithmetic on words to \<^typ>\<open>nat\<close>\<close>

declare word_le_nat_alt [word_nat] word_less_nat_alt [word_nat]

lemma usize_bound [simp]: "unat (x :: usize) < 18446744073709551616"
  using unsigned_less [of x] by simp

lemma unat_add_usize [word_nat]:
  "unat (a :: usize) + unat b < 2 ^ 64 \<Longrightarrow> unat (a + b) = unat a + unat b"
  by (simp add: unat_word_ariths)

lemma unat_sub_usize [word_nat]:
  "unat (b :: usize) \<le> unat a \<Longrightarrow> unat (a - b) = unat a - unat b"
  by (simp add: unat_sub word_le_nat_alt)

lemma unat_max_word: "unat (max (a :: 'a::len word) b) = max (unat a) (unat b)"
  by (simp add: max_def word_le_nat_alt)

lemma unat_min_word: "unat (min (a :: 'a::len word) b) = min (unat a) (unat b)"
  by (simp add: min_def word_le_nat_alt)

lemma unat_saturating_sub:
  "unat (saturating_sub a b) = unat a - unat b"
  by (auto simp: saturating_sub_def word_le_nat_alt unat_sub)

lemma unat_exp: "n < LENGTH('a) \<Longrightarrow> unat (2 ^ n :: 'a::len word) = 2 ^ n"
  using unat_of_nat [of "2 ^ n", where 'a = 'a] by simp

lemma is_power_of_two_iff:
  "is_power_of_two (a :: 'a::len word) \<longleftrightarrow> (\<exists>n<LENGTH('a). a = 2 ^ n)"
  by (auto simp: is_power_of_two_def list_ex_iff)

lemma is_power_of_two_exp: "n < LENGTH('a) \<Longrightarrow> is_power_of_two (2 ^ n :: 'a::len word)"
  by (auto simp: is_power_of_two_iff)

lemma exp_minus_1: "(2 ^ n - 1 :: 'a::len word) = mask n"
  by (simp add: mask_eq_exp_minus_1)

lemma unat_and_mask: "unat (a AND mask n :: 'a::len word) = unat a mod 2 ^ n"
  by (metis take_bit_eq_mask take_bit_eq_mod unsigned_take_bit_eq)

lemma and_not_mask_add: "(a AND NOT (mask n)) + (a AND mask n) = (a :: 'a::len word)"
  by (subst disjunctive_add) (auto simp: bit_simps intro: bit_word_eqI)

lemma unat_and_not_mask:
  "unat (a AND NOT (mask n) :: 'a::len word) = unat a div 2 ^ n * 2 ^ n"
proof -
  have "a AND NOT (mask n) = a - (a AND mask n)"
    using and_not_mask_add [of a n] by (metis add_diff_cancel_right')
  moreover have "a AND mask n \<le> a"
    by (simp add: word_le_nat_alt unat_and_mask)
  ultimately show ?thesis
    by (simp add: unat_sub unat_and_mask minus_mod_eq_div_mult)
qed

section \<open>Rounding to a multiple\<close>

text \<open>The specification of the source's alignment arithmetic on addresses.\<close>

definition round_down :: "nat \<Rightarrow> nat \<Rightarrow> nat" where
  "round_down d x = x div d * d"

definition round_up :: "nat \<Rightarrow> nat \<Rightarrow> nat" where
  "round_up d x = (x + (d - 1)) div d * d"

lemma round_down_dvd [simp]: "d dvd round_down d x"
  by (simp add: round_down_def)

lemma round_down_le [simp]: "round_down d x \<le> x"
  by (simp add: round_down_def)

lemma round_down_gt: "0 < d \<Longrightarrow> x < round_down d x + d"
  by (metis round_down_def add.commute dividend_less_div_times)

lemma round_down_id: "d dvd x \<Longrightarrow> round_down d x = x"
  by (simp add: round_down_def)

lemma round_down_greatest: "d dvd y \<Longrightarrow> y \<le> x \<Longrightarrow> y \<le> round_down d x"
  by (metis round_down_def div_le_mono dvd_div_mult_self mult_le_mono1)

lemma round_up_dvd [simp]: "d dvd round_up d x"
  by (simp add: round_up_def)

lemma round_up_alt: "round_up d x = round_down d (x + (d - 1))"
  by (simp add: round_up_def round_down_def)

lemma round_up_ge: "0 < d \<Longrightarrow> x \<le> round_up d x"
  using round_down_gt [of d "x + (d - 1)"] by (simp add: round_up_alt)

lemma round_up_less: "0 < d \<Longrightarrow> round_up d x < x + d"
  using round_down_le [of d "x + (d - 1)"] unfolding round_up_alt by linarith

lemma round_up_le: "round_up d x \<le> x + (d - 1)"
  by (simp add: round_up_alt)

lemma round_up_id: "d dvd x \<Longrightarrow> round_up d x = x"
proof (cases "d = 0")
  case False
  assume "d dvd x"
  then obtain q where "x = q * d" by (metis dvd_div_mult_self)
  moreover have "(q * d + (d - 1)) div d = q"
    using False by (metis add_cancel_right_right diff_less div_less div_mult_self3 less_one
        mult.commute neq0_conv)
  ultimately show ?thesis by (simp only: round_up_def)
qed (simp add: round_up_def)

lemma round_up_least:
  assumes "d dvd y" "x \<le> y"
  shows "round_up d x \<le> y"
proof (cases "d = 0")
  case False
  have "round_up d x \<le> round_up d y"
    using assms(2) by (simp add: round_up_def div_le_mono)
  then show ?thesis using assms(1) by (simp add: round_up_id)
qed (simp add: round_up_def)

lemma round_up_mono: "x \<le> y \<Longrightarrow> round_up d x \<le> round_up d y"
  by (simp add: round_up_def div_le_mono)

section \<open>Lists\<close>

text \<open>\<open>Iterator::position\<close>: the index of the first element that satisfies the predicate.\<close>

fun position :: "('a \<Rightarrow> bool) \<Rightarrow> 'a list \<Rightarrow> nat option" where
  "position P [] = None"
| "position P (x # xs) = (if P x then Some 0 else map_option Suc (position P xs))"

lemma position_Some:
  "position P xs = Some i \<Longrightarrow> i < length xs \<and> P (xs ! i) \<and> (\<forall>j<i. \<not> P (xs ! j))"
  by (induction xs arbitrary: i) (auto split: if_splits simp: less_Suc_eq_0_disj)

lemma position_None: "position P xs = None \<longleftrightarrow> (\<forall>x\<in>set xs. \<not> P x)"
  by (induction xs) auto

definition delete_nth :: "nat \<Rightarrow> 'a list \<Rightarrow> 'a list" where
  "delete_nth i xs = take i xs @ drop (Suc i) xs"

definition insert_nth :: "nat \<Rightarrow> 'a \<Rightarrow> 'a list \<Rightarrow> 'a list" where
  "insert_nth i x xs = take i xs @ x # drop i xs"

lemma length_delete_nth [simp]: "i < length xs \<Longrightarrow> length (delete_nth i xs) = length xs - 1"
  by (simp add: delete_nth_def)

lemma set_delete_nth:
  "i < length xs \<Longrightarrow> set xs = insert (xs ! i) (set (delete_nth i xs))"
  by (subst id_take_nth_drop [of i xs]) (auto simp: delete_nth_def)

lemma set_delete_nth_subset: "set (delete_nth i xs) \<subseteq> set xs"
  by (auto simp: delete_nth_def dest: in_set_takeD in_set_dropD)

lemma sorted_wrt_delete_nth:
  assumes "sorted_wrt P xs"
  shows "sorted_wrt P (delete_nth i xs)"
proof -
  have "drop (Suc i) xs = tl (drop i xs)" by (simp add: drop_Suc tl_drop)
  moreover have "sorted_wrt P (take i xs @ drop i xs)" using assms by simp
  ultimately show ?thesis
    unfolding delete_nth_def by (cases "drop i xs") (auto simp: sorted_wrt_append)
qed

lemma set_insert_nth [simp]: "set (insert_nth i x xs) = insert x (set xs)"
proof -
  have "set xs = set (take i xs) \<union> set (drop i xs)"
    by (metis append_take_drop_id set_append)
  then show ?thesis by (simp add: insert_nth_def)
qed

lemma length_insert_nth [simp]: "length (insert_nth i x xs) = Suc (length xs)"
  by (simp add: insert_nth_def)

lemma sorted_wrt_insert_nth:
  assumes "sorted_wrt P xs" "\<forall>y\<in>set (take i xs). P y x" "\<forall>y\<in>set (drop i xs). P x y"
  shows "sorted_wrt P (insert_nth i x xs)"
proof -
  have "sorted_wrt P (take i xs @ drop i xs)" using assms(1) by simp
  then show ?thesis
    using assms(2,3) unfolding insert_nth_def sorted_wrt_append by simp
qed

end
