(* ===== verification/Address.thy ===== *)
theory Address
  imports Prelude
begin

text \<open>
  Addresses and page frames: \<open>libkernel/src/memory/mod.rs\<close>, \<open>address.rs\<close>, \<open>page.rs\<close> and
  \<open>pg_offset.rs\<close>. The phantom kinds (\<open>Virtual\<close>, \<open>Physical\<close>, \<open>User\<close>) carry no run-time data,
  so an address is its \<open>usize\<close>; a page frame is its frame number. The lemmas give every
  operation its meaning on natural numbers.
\<close>

section \<open>Operations\<close>

definition PAGE_SIZE :: usize where "PAGE_SIZE = 4096"

definition PAGE_SHIFT :: nat where "PAGE_SHIFT = 12"

definition PAGE_MASK :: usize where "PAGE_MASK = PAGE_SIZE - 1"

definition is_page_aligned :: "usize \<Rightarrow> bool" where
  "is_page_aligned a \<longleftrightarrow> a AND PAGE_MASK = 0"

definition add_pages :: "usize \<Rightarrow> usize \<Rightarrow> usize" where
  "add_pages a count = a + PAGE_SIZE * count"

definition align :: "usize \<Rightarrow> usize \<Rightarrow> usize outcome" where
  "align a al = (if is_power_of_two al then Ok (a AND NOT (al - 1)) else Panic)"

definition page_aligned :: "usize \<Rightarrow> usize" where
  "page_aligned a = a AND NOT PAGE_MASK"

definition align_up :: "usize \<Rightarrow> usize \<Rightarrow> usize outcome" where
  "align_up a al =
     (if is_power_of_two al then Ok ((a + (al - 1)) AND NOT (al - 1)) else Panic)"

definition page_offset :: "usize \<Rightarrow> usize" where
  "page_offset a = a AND PAGE_MASK"

definition null :: usize where "null = 0"

definition add_bytes :: "usize \<Rightarrow> usize \<Rightarrow> usize" where
  "add_bytes a n = a + n"

definition sub_bytes :: "usize \<Rightarrow> usize \<Rightarrow> usize" where
  "sub_bytes a n = a - n"

definition is_null :: "usize \<Rightarrow> bool" where
  "is_null a \<longleftrightarrow> a = 0"

definition to_pfn :: "usize \<Rightarrow> usize" where
  "to_pfn a = drop_bit PAGE_SHIFT a"

text \<open>\<open>add_objs\<close> and \<open>sub_objs\<close> scale by the size of the pointee, an argument here.\<close>

definition add_objs :: "usize \<Rightarrow> usize \<Rightarrow> usize \<Rightarrow> usize" where
  "add_objs size_of_T a n = a + size_of_T * n"

definition sub_objs :: "usize \<Rightarrow> usize \<Rightarrow> usize \<Rightarrow> usize" where
  "sub_objs size_of_T a n = a - size_of_T * n"

text \<open>Page frames.\<close>

definition pa :: "usize \<Rightarrow> usize" where
  "pa pfn = push_bit PAGE_SHIFT pfn"

definition buddy :: "usize \<Rightarrow> nat \<Rightarrow> usize" where
  "buddy pfn order = pfn XOR push_bit order 1"

text \<open>Translators between physical and virtual addresses.\<close>

record translator =
  virt_to_phys :: "usize \<Rightarrow> usize"
  phys_to_virt :: "usize \<Rightarrow> usize"

definition IdentityTranslator :: translator where
  "IdentityTranslator = \<lparr>virt_to_phys = (\<lambda>va. va), phys_to_virt = (\<lambda>pa. pa)\<rparr>"

definition PageOffsetTranslator :: "usize \<Rightarrow> translator" where
  "PageOffsetTranslator PAGE_OFFSET =
     \<lparr>virt_to_phys = (\<lambda>va. va - PAGE_OFFSET), phys_to_virt = (\<lambda>pa. pa + PAGE_OFFSET)\<rparr>"

section \<open>Their meaning on natural numbers\<close>

lemma PAGE_SIZE_exp: "PAGE_SIZE = 2 ^ 12"
  by (simp add: PAGE_SIZE_def)

lemma PAGE_MASK_mask: "PAGE_MASK = mask 12"
  by (simp add: PAGE_MASK_def PAGE_SIZE_exp exp_minus_1 del: power_numeral)

lemma unat_PAGE_SIZE [simp]: "unat PAGE_SIZE = 4096"
  by (simp add: PAGE_SIZE_def)

lemma PAGE_SIZE_pow2 [simp]: "is_power_of_two PAGE_SIZE"
  unfolding PAGE_SIZE_exp by (rule is_power_of_two_exp) simp

lemma is_page_aligned_iff: "is_page_aligned a \<longleftrightarrow> 4096 dvd unat a"
  using and_mask_dvd_nat [of 12 a] by (simp add: is_page_aligned_def PAGE_MASK_mask)

lemma unat_page_aligned: "unat (page_aligned a) = round_down 4096 (unat a)"
  using unat_and_not_mask [of a 12] by (simp add: page_aligned_def PAGE_MASK_mask round_down_def)

lemma unat_page_offset: "unat (page_offset a) = unat a mod 4096"
  using unat_and_mask [of a 12] by (simp add: page_offset_def PAGE_MASK_mask)

lemma unat_to_pfn: "unat (to_pfn a) = unat a div 4096"
  by (simp add: to_pfn_def PAGE_SHIFT_def drop_bit_eq_div unat_div_distrib)

lemma align_Ok:
  assumes "is_power_of_two al"
  shows "\<exists>r. align a al = Ok r \<and> unat r = round_down (unat al) (unat a)"
proof -
  from assms obtain n where n: "n < 64" "al = 2 ^ n"
    by (auto simp: is_power_of_two_iff)
  then have "unat al = 2 ^ n" by (simp add: unat_exp)
  moreover have "al - 1 = mask n" by (simp add: n exp_minus_1)
  ultimately show ?thesis
    using assms by (simp add: align_def unat_and_not_mask round_down_def)
qed

lemma align_PAGE_SIZE [simp]: "align a PAGE_SIZE = Ok (page_aligned a)"
  by (simp add: align_def page_aligned_def PAGE_MASK_def)

lemma is_power_of_two_pos: "is_power_of_two al \<Longrightarrow> 0 < unat (al :: usize)"
  by (auto simp: is_power_of_two_iff unat_exp)

lemma align_up_Ok:
  assumes "is_power_of_two al" "unat a + (unat al - 1) < 2 ^ 64"
  shows "\<exists>r. align_up a al = Ok r \<and> unat r = round_up (unat al) (unat a)"
proof -
  from assms(1) obtain n where n: "n < 64" "al = 2 ^ n"
    by (auto simp: is_power_of_two_iff)
  then have al: "unat al = 2 ^ n" by (simp add: unat_exp)
  have m: "al - 1 = mask n" by (simp add: n exp_minus_1)
  have "unat (al - 1) = unat al - 1"
    using is_power_of_two_pos [OF assms(1)] by (simp add: unat_sub_usize)
  with assms(2) have "unat (a + (al - 1)) = unat a + (unat al - 1)"
    by (simp add: unat_add_usize)
  then show ?thesis
    using assms(1) al by (simp add: align_up_def m unat_and_not_mask round_up_def)
qed

lemma align_up_not_pow2: "\<not> is_power_of_two al \<Longrightarrow> align_up a al = Panic"
  by (simp add: align_up_def)

lemma align_up_PAGE_SIZE:
  "unat a + 4095 < 2 ^ 64 \<Longrightarrow>
   \<exists>r. align_up a PAGE_SIZE = Ok r \<and> unat r = round_up 4096 (unat a)"
  using align_up_Ok [of PAGE_SIZE a] by simp

lemma unat_pa: "unat pfn < 2 ^ 52 \<Longrightarrow> unat (pa pfn) = 4096 * unat pfn"
  by (simp add: pa_def PAGE_SHIFT_def push_bit_eq_mult unat_word_ariths)

lemma to_pfn_pa: "unat pfn < 2 ^ 52 \<Longrightarrow> to_pfn (pa pfn) = pfn"
  by (rule word_unat_eq_iff [THEN iffD2]) (simp add: unat_to_pfn unat_pa)

lemma page_offset_round_trip:
  "virt_to_phys (PageOffsetTranslator off) (phys_to_virt (PageOffsetTranslator off) p) = p"
  by (simp add: PageOffsetTranslator_def)

section \<open>Buddies\<close>

lemma buddy_buddy [simp]: "buddy (buddy p k) k = p"
  by (simp add: buddy_def ac_simps)

end
