(* ===== verification/Region.thy ===== *)
theory Region
  imports Address
begin

text \<open>
  Contiguous memory regions: \<open>libkernel/src/memory/region.rs\<close>. A region is a start address
  and a size; its abstract meaning is the half-open interval \<open>{lo r..<hi r}\<close> of natural
  numbers (\<open>bytes_of\<close>), and \<open>wf_region\<close> says that its end does not wrap. Each operation is
  shown to compute the interval operation it stands for.
\<close>

section \<open>Operations\<close>

record region =
  address :: usize
  rg_size :: usize

definition new_region :: "usize \<Rightarrow> usize \<Rightarrow> region" where
  "new_region a n = \<lparr>address = a, rg_size = n\<rparr>"

definition empty_region :: region where
  "empty_region = \<lparr>address = 0, rg_size = 0\<rparr>"

definition from_start_end_address :: "usize \<Rightarrow> usize \<Rightarrow> region outcome" where
  "from_start_end_address s e =
     (if e \<ge> s then Ok \<lparr>address = s, rg_size = e - s\<rparr> else Panic)"

definition with_start_address :: "region \<Rightarrow> usize \<Rightarrow> region" where
  "with_start_address r s = r\<lparr>address := s\<rparr>"

definition start_address :: "region \<Rightarrow> usize" where
  "start_address r = address r"

definition end_address :: "region \<Rightarrow> usize" where
  "end_address r = address r + rg_size r"

definition end_address_inclusive :: "region \<Rightarrow> usize" where
  "end_address_inclusive r = address r + saturating_sub (rg_size r) 1"

definition region_is_page_aligned :: "region \<Rightarrow> bool" where
  "region_is_page_aligned r \<longleftrightarrow> is_page_aligned (address r)"

definition with_size :: "region \<Rightarrow> usize \<Rightarrow> region" where
  "with_size r n = \<lparr>address = address r, rg_size = n\<rparr>"

definition overlaps :: "region \<Rightarrow> region \<Rightarrow> bool" where
  "overlaps r other \<longleftrightarrow>
     \<not> (end_address r \<le> start_address other \<or> end_address other \<le> start_address r)"

definition is_before :: "region \<Rightarrow> region \<Rightarrow> bool" where
  "is_before r other \<longleftrightarrow> end_address r \<le> start_address other"

definition is_after :: "region \<Rightarrow> region \<Rightarrow> bool" where
  "is_after r other \<longleftrightarrow> start_address r \<ge> end_address other"

definition merge :: "region \<Rightarrow> region \<Rightarrow> region option" where
  "merge r other =
     (let start1 = address r; end1 = end_address r;
          start2 = address other; end2 = end_address other
      in if end1 \<ge> start2 \<and> start1 \<le> end2
         then let merged_start = min start1 start2; merged_end = max end1 end2
              in Some \<lparr>address = merged_start, rg_size = merged_end - merged_start\<rparr>
         else None)"

definition punch_hole :: "region \<Rightarrow> region \<Rightarrow> (region option \<times> region option) outcome" where
  "punch_hole r other =
     (let s_start = start_address r; s_end = end_address r;
          o_start = start_address other; o_end = end_address other
      in and_then
           (if s_start < o_start
            then let e = min s_end o_start
                 in if e > s_start
                    then and_then (from_start_end_address s_start e) (\<lambda>l. Ok (Some l))
                    else Ok None
            else Ok None) (\<lambda>left.
         and_then
           (if s_end > o_end
            then let s = max s_start o_end
                 in if s < s_end
                    then and_then (from_start_end_address s s_end) (\<lambda>r. Ok (Some r))
                    else Ok None
            else Ok None) (\<lambda>right.
         Ok (left, right))))"

definition contains :: "region \<Rightarrow> region \<Rightarrow> bool" where
  "contains r other \<longleftrightarrow>
     start_address r \<le> start_address other \<and> end_address r \<ge> end_address other"

definition contains_address :: "region \<Rightarrow> usize \<Rightarrow> bool" where
  "contains_address r a \<longleftrightarrow> a \<ge> start_address r \<and> a < end_address r"

definition region_add_pages :: "region \<Rightarrow> usize \<Rightarrow> region" where
  "region_add_pages r n =
     (let offset = push_bit PAGE_SHIFT n
      in \<lparr>address = address r + offset, rg_size = saturating_sub (rg_size r) offset\<rparr>)"

record mappable_region =
  mr_region :: region
  offset_from_page_start :: usize

definition to_mappable_region :: "region \<Rightarrow> mappable_region outcome" where
  "to_mappable_region r =
     and_then (align (start_address r) PAGE_SIZE) (\<lambda>aligned_start_addr.
     and_then (align_up (end_address r) PAGE_SIZE) (\<lambda>aligned_end_addr.
     and_then (from_start_end_address aligned_start_addr aligned_end_addr) (\<lambda>aligned_region.
     Ok \<lparr>mr_region = aligned_region,
         offset_from_page_start = page_offset (start_address r)\<rparr>)))"

definition expand_by :: "region \<Rightarrow> usize \<Rightarrow> region outcome" where
  "expand_by r n = (if n AND PAGE_MASK = 0 then Ok (r\<lparr>rg_size := rg_size r + n\<rparr>) else Panic)"

definition intersection :: "region \<Rightarrow> region \<Rightarrow> region option outcome" where
  "intersection r other =
     (let i_start = max (start_address r) (start_address other);
          i_end = min (end_address r) (end_address other)
      in if i_start < i_end
         then and_then (from_start_end_address i_start i_end) (\<lambda>i. Ok (Some i))
         else Ok None)"

definition align_to_page_boundary :: "region \<Rightarrow> region outcome" where
  "align_to_page_boundary r =
     and_then (align (start_address r) PAGE_SIZE) (\<lambda>aligned_start.
     and_then (align_up (end_address r) PAGE_SIZE) (\<lambda>aligned_end.
     from_start_end_address aligned_start aligned_end))"

text \<open>The iterators, as the list of what they yield.\<close>

definition iter_pages :: "region \<Rightarrow> usize list" where
  "iter_pages r =
     (let pages_count = unat (drop_bit PAGE_SHIFT (rg_size r))
      in map (\<lambda>count. add_pages (start_address r) (of_nat count)) [0..<pages_count])"

definition iter_pfns :: "region \<Rightarrow> usize list" where
  "iter_pfns r =
     (let pages_count = unat (drop_bit PAGE_SHIFT (rg_size r)); start = to_pfn (start_address r)
      in map (\<lambda>count. start + of_nat count) [0..<pages_count])"

definition phys_map_via :: "translator \<Rightarrow> region \<Rightarrow> region" where
  "phys_map_via T r = new_region (phys_to_virt T (address r)) (rg_size r)"

definition virt_map_via :: "translator \<Rightarrow> region \<Rightarrow> region" where
  "virt_map_via T r = new_region (virt_to_phys T (address r)) (rg_size r)"

definition page_region :: "usize \<Rightarrow> region" where
  "page_region va = new_region (page_aligned va) PAGE_SIZE"

definition as_phys_range :: "usize \<Rightarrow> region" where
  "as_phys_range pfn = new_region (pa pfn) PAGE_SIZE"

section \<open>The interval a region stands for\<close>

definition lo :: "region \<Rightarrow> nat" where "lo r = unat (address r)"

definition hi :: "region \<Rightarrow> nat" where "hi r = unat (address r) + unat (rg_size r)"

definition wf_region :: "region \<Rightarrow> bool" where "wf_region r \<longleftrightarrow> hi r < 2 ^ 64"

definition bytes_of :: "region \<Rightarrow> nat set" where "bytes_of r = {lo r..<hi r}"

lemma lo_le_hi [simp]: "lo r \<le> hi r"
  by (simp add: lo_def hi_def)

lemma unat_start_address [word_nat]: "unat (start_address r) = lo r"
  by (simp add: start_address_def lo_def)

lemma unat_address [word_nat]: "unat (address r) = lo r"
  by (simp add: lo_def)

lemma unat_end_address [word_nat]: "wf_region r \<Longrightarrow> unat (end_address r) = hi r"
  by (simp add: wf_region_def hi_def end_address_def unat_add_usize)

lemma unat_rg_size [word_nat]: "unat (rg_size r) = hi r - lo r"
  by (simp add: lo_def hi_def)

lemma region_eqI: "lo r = lo s \<Longrightarrow> hi r = hi s \<Longrightarrow> r = s" for r s :: region
  by (simp add: lo_def hi_def word_unat_eq_iff)

lemma overlaps_iff:
  "wf_region r \<Longrightarrow> wf_region s \<Longrightarrow> overlaps r s \<longleftrightarrow> lo s < hi r \<and> lo r < hi s"
  by (auto simp: overlaps_def word_nat)

lemma contains_iff:
  "wf_region r \<Longrightarrow> wf_region s \<Longrightarrow> contains r s \<longleftrightarrow> lo r \<le> lo s \<and> hi s \<le> hi r"
  by (auto simp: contains_def word_nat)

lemma contains_address_iff:
  "wf_region r \<Longrightarrow> contains_address r a \<longleftrightarrow> unat a \<in> bytes_of r"
  by (auto simp: contains_address_def bytes_of_def word_nat)

lemma is_before_iff: "wf_region r \<Longrightarrow> is_before r s \<longleftrightarrow> hi r \<le> lo s"
  by (auto simp: is_before_def word_nat)

lemma is_after_iff: "wf_region s \<Longrightarrow> is_after r s \<longleftrightarrow> hi s \<le> lo r"
  by (auto simp: is_after_def word_nat)

lemma lo_Region [simp]: "lo \<lparr>address = a, rg_size = n\<rparr> = unat a"
  by (simp add: lo_def)

lemma hi_Region [simp]: "hi \<lparr>address = a, rg_size = n\<rparr> = unat a + unat n"
  by (simp add: hi_def)

lemma from_start_end_address_Ok:
  assumes "unat s \<le> unat e"
  shows "\<exists>r. from_start_end_address s e = Ok r \<and> lo r = unat s \<and> hi r = unat e \<and> wf_region r"
  using assms usize_bound [of e]
  by (simp add: from_start_end_address_def word_le_nat_alt wf_region_def unat_sub_usize
      del: usize_bound)

lemma merge_Some:
  assumes "wf_region r" "wf_region s"
  shows "merge r s = (if lo s \<le> hi r \<and> lo r \<le> hi s
     then Some \<lparr>address = min (address r) (address s),
                rg_size = max (end_address r) (end_address s) - min (address r) (address s)\<rparr>
     else None)"
  using assms by (auto simp: merge_def Let_def word_nat)

lemma merge_bounds:
  assumes "wf_region r" "wf_region s" "merge r s = Some m"
  shows "lo m = min (lo r) (lo s)" "hi m = max (hi r) (hi s)" "wf_region m"
proof -
  let ?a = "min (address r) (address s)" and ?e = "max (end_address r) (end_address s)"
  have a: "unat ?a = min (lo r) (lo s)" by (simp add: unat_min_word unat_address)
  have e: "unat ?e = max (hi r) (hi s)"
    using assms by (simp add: unat_max_word unat_end_address)
  have "unat ?a \<le> unat ?e"
    unfolding a e using lo_le_hi [of r] by linarith
  then have "unat ?a + unat (?e - ?a) = unat ?e" by (simp add: unat_sub_usize)
  moreover have m: "m = \<lparr>address = ?a, rg_size = ?e - ?a\<rparr>"
    using assms by (auto simp: merge_Some split: if_splits)
  ultimately show "lo m = min (lo r) (lo s)" "hi m = max (hi r) (hi s)"
    by (simp_all add: a e)
  then show "wf_region m" using assms by (simp add: wf_region_def)
qed

lemma hi_less [simp]: "wf_region r \<Longrightarrow> hi r < 18446744073709551616"
  by (simp add: wf_region_def)

lemma finite_bytes_of [simp]: "finite (bytes_of r)"
  by (simp add: bytes_of_def)

section \<open>The region algebra computes with intervals\<close>

definition opt_bytes :: "region option \<Rightarrow> nat set" where
  "opt_bytes x = (case x of None \<Rightarrow> {} | Some r \<Rightarrow> bytes_of r)"

lemma opt_bytes_simps [simp]: "opt_bytes None = {}" "opt_bytes (Some r) = bytes_of r"
  by (simp_all add: opt_bytes_def)

lemma intersection_Ok:
  assumes "wf_region r" "wf_region s"
  shows "\<exists>x. intersection r s = Ok x \<and> opt_bytes x = bytes_of r \<inter> bytes_of s \<and>
             (\<forall>i. x = Some i \<longrightarrow> lo i = max (lo r) (lo s) \<and> hi i = min (hi r) (hi s) \<and> lo i < hi i \<and>
                wf_region i)"
proof -
  let ?s = "max (start_address r) (start_address s)"
  let ?e = "min (end_address r) (end_address s)"
  have s: "unat ?s = max (lo r) (lo s)" by (simp add: unat_max_word unat_start_address)
  have e: "unat ?e = min (hi r) (hi s)" using assms by (simp add: unat_min_word unat_end_address)
  show ?thesis
  proof (cases "?s < ?e")
    case True
    then have lt: "unat ?s < unat ?e" by (simp only: word_less_nat_alt)
    then obtain i where "from_start_end_address ?s ?e = Ok i"
      "lo i = unat ?s" "hi i = unat ?e" "wf_region i"
      using from_start_end_address_Ok [of ?s ?e] by auto
    moreover from this True have "intersection r s = Ok (Some i)"
      by (simp add: intersection_def Let_def)
    ultimately show ?thesis
      using lt unfolding s e by (auto simp: bytes_of_def)
  next
    case False
    then have "intersection r s = Ok None" by (simp add: intersection_def Let_def)
    moreover have "unat ?e \<le> unat ?s" using False by (simp only: word_less_nat_alt not_less)
    ultimately show ?thesis unfolding s e by (auto simp: bytes_of_def)
  qed
qed

lemma align_to_page_boundary_Ok:
  assumes "hi r + 4095 < 2 ^ 64"
  shows "\<exists>q. align_to_page_boundary r = Ok q \<and>
             lo q = round_down 4096 (lo r) \<and> hi q = round_up 4096 (hi r) \<and> wf_region q"
proof -
  have wf: "wf_region r" using assms by (simp add: wf_region_def)
  obtain e where e: "align_up (end_address r) PAGE_SIZE = Ok e" "unat e = round_up 4096 (hi r)"
    using align_up_PAGE_SIZE [of "end_address r"] assms unat_end_address [OF wf] by auto
  have "round_down 4096 (lo r) \<le> round_up 4096 (hi r)"
    using round_down_le [of 4096 "lo r"] lo_le_hi [of r] round_up_ge [of 4096 "hi r"] by linarith
  then have "unat (page_aligned (start_address r)) \<le> unat e"
    by (simp add: unat_page_aligned unat_start_address e)
  from from_start_end_address_Ok [OF this] show ?thesis
    by (auto simp: align_to_page_boundary_def e unat_page_aligned unat_start_address)
qed

lemma align_to_page_boundary_id:
  assumes "wf_region r" "4096 dvd lo r" "4096 dvd hi r" "hi r + 4095 < 2 ^ 64"
  shows "align_to_page_boundary r = Ok r"
  using align_to_page_boundary_Ok [of r] assms
  by (auto simp: round_down_id round_up_id intro: region_eqI)

lemma punch_hole_Ok:
  assumes "wf_region r" "wf_region h"
  shows "\<exists>l t. punch_hole r h = Ok (l, t) \<and>
     (l = None \<longleftrightarrow> \<not> (lo r < lo h \<and> lo r < hi r)) \<and>
     (\<forall>x. l = Some x \<longrightarrow> wf_region x \<and> lo x = lo r \<and> hi x = min (hi r) (lo h)) \<and>
     (t = None \<longleftrightarrow> \<not> (hi h < hi r \<and> lo r < hi r)) \<and>
     (\<forall>x. t = Some x \<longrightarrow> wf_region x \<and> lo x = max (lo r) (hi h) \<and> hi x = hi r)"
proof -
  let ?e = "min (end_address r) (start_address h)"
  let ?s = "max (start_address r) (end_address h)"
  have e: "unat ?e = min (hi r) (lo h)"
    using assms by (simp add: unat_min_word word_nat)
  have s: "unat ?s = max (lo r) (hi h)"
    using assms by (simp add: unat_max_word word_nat)
  have "lo r \<le> unat ?e \<Longrightarrow> \<exists>x. from_start_end_address (start_address r) ?e = Ok x \<and>
      lo x = lo r \<and> hi x = min (hi r) (lo h) \<and> wf_region x"
    using from_start_end_address_Ok [of "start_address r" ?e] unfolding e
    by (simp add: unat_start_address)
  moreover have "unat ?s \<le> hi r \<Longrightarrow> \<exists>x. from_start_end_address ?s (end_address r) = Ok x \<and>
      lo x = max (lo r) (hi h) \<and> hi x = hi r \<and> wf_region x"
    using from_start_end_address_Ok [of ?s "end_address r"] assms unfolding s
    by (simp add: unat_end_address)
  moreover have "?e > start_address r \<longleftrightarrow> lo r < min (hi r) (lo h)"
    by (simp only: word_less_nat_alt e unat_start_address)
  moreover have "?s < end_address r \<longleftrightarrow> max (lo r) (hi h) < hi r"
    using assms by (simp only: word_less_nat_alt s unat_end_address)
  moreover have "start_address r < start_address h \<longleftrightarrow> lo r < lo h"
    by (simp add: word_less_nat_alt unat_start_address)
  moreover have "end_address r > end_address h \<longleftrightarrow> hi h < hi r"
    using assms by (simp add: word_less_nat_alt unat_end_address)
  ultimately show ?thesis
    unfolding e s by (auto simp: punch_hole_def Let_def)
qed

text \<open>C31. Merging two regions that overlap or touch yields the region of exactly their bytes,
  and merging is refused precisely when a gap lies between them.\<close>

theorem merge_is_union:
  assumes "wf_region r" "wf_region s"
  shows "(case merge r s of
            Some m \<Rightarrow> bytes_of m = bytes_of r \<union> bytes_of s \<and> wf_region m
          | None \<Rightarrow> hi r < lo s \<or> hi s < lo r)"
proof (cases "merge r s")
  case None
  then show ?thesis using assms by (auto simp: merge_Some split: if_splits)
next
  case (Some m)
  note b = merge_bounds [OF assms Some]
  have "lo s \<le> hi r" "lo r \<le> hi s"
    using Some assms by (auto simp: merge_Some split: if_splits)
  then have "bytes_of m = bytes_of r \<union> bytes_of s"
    using lo_le_hi [of r] lo_le_hi [of s] by (auto simp: bytes_of_def b)
  then show ?thesis using Some b(3) by simp
qed

theorem merge_is_union_witness:
  "let r = new_region 0x1000 0x200; s = new_region 0x1100 0x200
   in wf_region r \<and> wf_region s \<and> merge r s = Some (new_region 0x1000 0x300) \<and>
      bytes_of (new_region 0x1000 0x300) = bytes_of r \<union> bytes_of s"
proof -
  let ?r = "new_region 0x1000 0x200" and ?s = "new_region 0x1100 0x200"
  have wf: "wf_region ?r" "wf_region ?s" by (simp_all add: wf_region_def new_region_def)
  have "merge ?r ?s = Some (new_region 0x1000 0x300)"
    by (simp add: merge_def new_region_def end_address_def)
  then show ?thesis using merge_is_union [OF wf] wf by simp
qed

text \<open>C32. Punching a hole never panics. The left remainder is the part of the region below the hole and the
  right remainder the part at or above its end; they are disjoint, and together exactly the bytes of the
  region outside the hole. A remainder that is returned is not empty.\<close>

theorem punch_hole_is_difference:
  assumes "wf_region r" "wf_region h"
  shows "\<exists>l t. punch_hole r h = Ok (l, t) \<and>
     opt_bytes l = {a \<in> bytes_of r. a < lo h} \<and> opt_bytes t = {a \<in> bytes_of r. hi h \<le> a} \<and>
     opt_bytes l \<union> opt_bytes t = bytes_of r - bytes_of h \<and> opt_bytes l \<inter> opt_bytes t = {} \<and>
     (\<forall>x. l = Some x \<or> t = Some x \<longrightarrow> wf_region x \<and> bytes_of x \<noteq> {})"
proof -
  obtain l t where lt: "punch_hole r h = Ok (l, t)"
    and l: "l = None \<longleftrightarrow> \<not> (lo r < lo h \<and> lo r < hi r)"
      "\<And>x. l = Some x \<Longrightarrow> wf_region x \<and> lo x = lo r \<and> hi x = min (hi r) (lo h)"
    and t: "t = None \<longleftrightarrow> \<not> (hi h < hi r \<and> lo r < hi r)"
      "\<And>x. t = Some x \<Longrightarrow> wf_region x \<and> lo x = max (lo r) (hi h) \<and> hi x = hi r"
    using punch_hole_Ok [OF assms] by blast
  have bl: "opt_bytes l = {lo r..<min (hi r) (lo h)}"
  proof (cases l)
    case None
    then show ?thesis using l(1) by auto
  next
    case (Some x)
    then show ?thesis using l(2) [OF Some] by (simp add: bytes_of_def)
  qed
  have bt: "opt_bytes t = {max (lo r) (hi h)..<hi r}"
  proof (cases t)
    case None
    then show ?thesis using t(1) by auto
  next
    case (Some x)
    then show ?thesis using t(2) [OF Some] by (simp add: bytes_of_def)
  qed
  have "wf_region x \<and> bytes_of x \<noteq> {}" if "l = Some x" for x
    using that l(1) l(2) [OF that] by (simp add: bytes_of_def)
  moreover have "wf_region x \<and> bytes_of x \<noteq> {}" if "t = Some x" for x
    using that t(1) t(2) [OF that] by (simp add: bytes_of_def)
  moreover have "opt_bytes l \<union> opt_bytes t = bytes_of r - bytes_of h"
    unfolding bl bt bytes_of_def using lo_le_hi [of h] by (auto simp del: lo_le_hi)
  moreover have "opt_bytes l \<inter> opt_bytes t = {}"
    unfolding bl bt using lo_le_hi [of h] by (auto simp del: lo_le_hi)
  moreover have "opt_bytes l = {a \<in> bytes_of r. a < lo h}" "opt_bytes t = {a \<in> bytes_of r. hi h \<le> a}"
    unfolding bl bt by (auto simp: bytes_of_def)
  ultimately show ?thesis using lt by blast
qed

theorem punch_hole_is_difference_witness:
  "let r = new_region 0x1000 0x4000; h = new_region 0x2000 0x1000
   in wf_region r \<and> wf_region h \<and>
      (\<exists>l t. punch_hole r h = Ok (l, t) \<and> opt_bytes l = {0x1000..<0x2000} \<and> opt_bytes t = {0x3000..<0x5000})"
proof -
  let ?r = "new_region 0x1000 0x4000" and ?h = "new_region 0x2000 0x1000"
  have wf: "wf_region ?r" "wf_region ?h" by (simp_all add: wf_region_def new_region_def)
  have "{a \<in> bytes_of ?r. a < lo ?h} = {0x1000..<0x2000}" "{a \<in> bytes_of ?r. hi ?h \<le> a} = {0x3000..<0x5000}"
    by (auto simp: bytes_of_def new_region_def lo_def hi_def)
  then show ?thesis using punch_hole_is_difference [OF wf] wf by (auto simp: Let_def)
qed

text \<open>C33. The mappable region of a region is the smallest page-aligned region that covers it,
  and the recorded offset leads from its start back to the original start.\<close>

theorem to_mappable_region_smallest_cover:
  assumes "hi r + 4095 < 2 ^ 64"
  shows "\<exists>m. to_mappable_region r = Ok m \<and>
     4096 dvd lo (mr_region m) \<and> 4096 dvd hi (mr_region m) \<and>
     lo (mr_region m) \<le> lo r \<and> hi r \<le> hi (mr_region m) \<and>
     lo (mr_region m) + unat (offset_from_page_start m) = lo r \<and>
     (\<forall>a b. 4096 dvd a \<and> 4096 dvd b \<and> a \<le> lo r \<and> hi r \<le> b \<longrightarrow>
        a \<le> lo (mr_region m) \<and> hi (mr_region m) \<le> b)"
proof -
  obtain q where q: "align_to_page_boundary r = Ok q" "lo q = round_down 4096 (lo r)"
    "hi q = round_up 4096 (hi r)"
    using align_to_page_boundary_Ok [OF assms] by auto
  then have m: "to_mappable_region r =
      Ok \<lparr>mr_region = q, offset_from_page_start = page_offset (start_address r)\<rparr>"
    by (auto simp: align_to_page_boundary_def to_mappable_region_def)
  have "lo q + unat (page_offset (start_address r)) = lo r"
    by (simp add: q unat_page_offset unat_start_address round_down_def)
  moreover have "4096 dvd lo q" "4096 dvd hi q" "lo q \<le> lo r" "hi r \<le> hi q"
    unfolding q by (simp_all add: round_up_ge)
  moreover have "a \<le> lo q \<and> hi q \<le> b"
    if "4096 dvd a \<and> 4096 dvd b \<and> a \<le> lo r \<and> hi r \<le> b" for a b
    using that unfolding q by (blast intro: round_down_greatest round_up_least)
  ultimately show ?thesis
    unfolding m by (intro exI [where x = "\<lparr>mr_region = q, offset_from_page_start = _\<rparr>"]) (simp, blast)
qed

theorem to_mappable_region_smallest_cover_witness:
  "hi (new_region 0x1050 0x1F00) + 4095 < 2 ^ 64 \<and>
   (\<exists>m. to_mappable_region (new_region 0x1050 0x1F00) = Ok m \<and>
      lo (mr_region m) + unat (offset_from_page_start m) = 0x1050)"
proof -
  have h: "hi (new_region 0x1050 0x1F00) + 4095 < 2 ^ 64" by (simp add: new_region_def)
  show ?thesis
    using to_mappable_region_smallest_cover [OF h] h by (auto simp: new_region_def)
qed

end
