(* ===== verification/Smalloc.thy ===== *)
theory Smalloc
  imports Region
begin

text \<open>
  The boot-time allocator \<open>libkernel/src/memory/smalloc.rs\<close>: lists of memory and of
  reservations, first-fit allocation, freeing with splitting, growth of the lists, and the
  iterator over free memory.

  A \<open>RegionList\<close> is a buffer with a count: the model keeps the first \<open>count\<close> entries as a
  list, with the buffer's capacity and address. An operation that returns a \<open>Result\<close> and
  mutates the allocator returns the outcome together with the state it leaves, also on an
  error. \<open>free\<close> and \<open>grow_region_list\<close> call each other; their fuel counts nested growths.
\<close>

section \<open>Region lists\<close>

record region_list =
  regions :: "region list"
  rl_max :: usize
  regions_ptr :: usize

definition rl_count :: "region_list \<Rightarrow> usize" where
  "rl_count rl = of_nat (length (regions rl))"

definition rl_is_empty :: "region_list \<Rightarrow> bool" where
  "rl_is_empty rl \<longleftrightarrow> rl_count rl = 0"

definition new_region_list :: "usize \<Rightarrow> usize \<Rightarrow> region_list" where
  "new_region_list mx ptr = \<lparr>regions = [], rl_max = mx, regions_ptr = ptr\<rparr>"

definition remove_at :: "region_list \<Rightarrow> nat \<Rightarrow> region_list" where
  "remove_at rl i =
     (if i \<ge> length (regions rl) then rl else rl\<lparr>regions := delete_nth i (regions rl)\<rparr>)"

text \<open>Step 1 of \<open>insert_region\<close>: absorb every region that touches the new one, restarting the
  scan after each merge.\<close>

function merge_scan :: "region_list \<Rightarrow> nat \<Rightarrow> region \<Rightarrow> region_list \<times> region" where
  "merge_scan rl i new_rg =
     (if i < length (regions rl)
      then case merge (regions rl ! i) new_rg of
             Some merged \<Rightarrow> merge_scan (remove_at rl i) 0 merged
           | None \<Rightarrow> merge_scan rl (Suc i) new_rg
      else (rl, new_rg))"
  by pat_completeness auto
termination
  by (relation "measures [\<lambda>(rl, i, r). length (regions rl), \<lambda>(rl, i, r). length (regions rl) - i]")
     (auto simp: remove_at_def)

declare merge_scan.simps [simp del]

definition insert_region :: "region_list \<Rightarrow> region \<Rightarrow> region_list outcome" where
  "insert_region rl new_rg =
     (if rl_count rl = rl_max rl then Panic
      else let (rl', new') = merge_scan rl 0 new_rg;
               insert_idx =
                 (case position (\<lambda>x. start_address x > start_address new') (regions rl') of
                    None \<Rightarrow> length (regions rl') | Some k \<Rightarrow> k)
           in Ok (rl'\<lparr>regions := insert_nth insert_idx new' (regions rl')\<rparr>))"

definition requires_reallocation :: "region_list \<Rightarrow> bool" where
  "requires_reallocation rl \<longleftrightarrow> rl_count rl \<ge> rl_max rl - 1"

section \<open>The allocator\<close>

record smalloc =
  memory :: region_list
  res :: region_list
  permit_region_realloc :: bool

datatype region_list_type = Mem | Res

definition new_smalloc :: "region_list \<Rightarrow> region_list \<Rightarrow> smalloc" where
  "new_smalloc mem reserved =
     \<lparr>memory = mem, res = reserved, permit_region_realloc = False\<rparr>"

definition permit_region_list_reallocs :: "smalloc \<Rightarrow> smalloc" where
  "permit_region_list_reallocs s = s\<lparr>permit_region_realloc := True\<rparr>"

text \<open>The inner loop of \<open>find_allocation_location\<close> that skips reservations ending at or before
  the candidate.\<close>

function skip_reservations :: "region list \<Rightarrow> region \<Rightarrow> nat \<Rightarrow> nat" where
  "skip_reservations rs candidate res_idx =
     (if res_idx < length rs \<and> end_address (rs ! res_idx) \<le> start_address candidate
      then skip_reservations rs candidate (Suc res_idx) else res_idx)"
  by pat_completeness auto
termination
  by (relation "measure (\<lambda>(rs, c, i). length rs - i)") auto

declare skip_reservations.simps [simp del]

text \<open>The \<open>while mem_region.contains(candidate)\<close> loop. Aligning past a reservation may wrap, and
  then the loop need not end, so it is a partial function. \<open>Some (Ok (Some a, i))\<close> is the
  \<open>return\<close>, \<open>Some (Ok (None, i))\<close> the end of the loop with the advanced index.\<close>

partial_function (option) alloc_scan ::
  "region \<Rightarrow> usize \<Rightarrow> region list \<Rightarrow> region \<Rightarrow> nat \<Rightarrow> (usize option \<times> nat) outcome option" where
  "alloc_scan mem_region al rs candidate res_idx =
     (if contains mem_region candidate
      then let i = skip_reservations rs candidate res_idx
           in if i < length rs \<and> overlaps candidate (rs ! i)
              then case align_up (end_address (rs ! i)) al of
                     Ok a \<Rightarrow> alloc_scan mem_region al rs (with_start_address candidate a) i
                   | Err e \<Rightarrow> Some (Err e) | Panic \<Rightarrow> Some Panic | Diverge \<Rightarrow> Some Diverge
              else Some (Ok (Some (start_address candidate), i))
      else Some (Ok (None, res_idx)))"

fun scan_memory ::
  "region list \<Rightarrow> usize \<Rightarrow> usize \<Rightarrow> region list \<Rightarrow> nat \<Rightarrow> usize option outcome" where
  "scan_memory [] n al rs res_idx = Ok None"
| "scan_memory (mem_region # ms) n al rs res_idx =
     and_then (align_up (start_address mem_region) al) (\<lambda>a.
       case alloc_scan mem_region al rs (new_region a n) res_idx of
         None \<Rightarrow> Diverge
       | Some r \<Rightarrow> and_then r (\<lambda>(found, i).
           case found of Some x \<Rightarrow> Ok (Some x) | None \<Rightarrow> scan_memory ms n al rs i))"

definition find_allocation_location :: "smalloc \<Rightarrow> usize \<Rightarrow> usize \<Rightarrow> usize option outcome" where
  "find_allocation_location s n al =
     scan_memory (regions (memory s)) n al (regions (res s)) 0"

text \<open>\<open>size_of::<PhysMemoryRegion>()\<close> and \<open>align_of::<PhysMemoryRegion>()\<close>: two 64-bit words.\<close>

definition SIZE_OF_REGION :: usize where "SIZE_OF_REGION = 16"

definition ALIGN_OF_REGION :: usize where "ALIGN_OF_REGION = 8"

text \<open>Insertion into the reservation list of an allocator.\<close>

definition res_insert :: "smalloc \<Rightarrow> region \<Rightarrow> unit outcome \<times> smalloc" where
  "res_insert s r =
     (case insert_region (res s) r of
        Ok rl \<Rightarrow> (Ok (), s\<lparr>res := rl\<rparr>) | Err e \<Rightarrow> (Err e, s)
      | Panic \<Rightarrow> (Panic, s) | Diverge \<Rightarrow> (Diverge, s))"

text \<open>The part of \<open>free\<close> after the possible growth: take entry \<open>index\<close> out of the list and put
  the fragments of \<open>old\<close> around the freed block back. The raw copy from an index outside the
  list is a \<open>Panic\<close>.\<close>

definition free_at :: "smalloc \<Rightarrow> nat \<Rightarrow> region \<Rightarrow> region \<Rightarrow> unit outcome \<times> smalloc" where
  "free_at s index old region_to_remove =
     (if index \<ge> length (regions (res s)) then (Panic, s)
      else
        let s1 = s\<lparr>res := (res s)\<lparr>regions := delete_nth index (regions (res s))\<rparr>\<rparr>;
            start_val = start_address old; end_val = end_address old;
            remove_start = start_address region_to_remove;
            remove_end = end_address region_to_remove
        in st_then
             (if remove_start > start_val
              then res_insert s1 (new_region start_val (remove_start - start_val))
              else (Ok (), s1)) (\<lambda>_ s2.
           if remove_end < end_val
           then res_insert s2 (new_region remove_end (end_val - remove_end))
           else (Ok (), s2)))"

function (sequential) free_fuel ::
    "nat \<Rightarrow> translator \<Rightarrow> smalloc \<Rightarrow> usize \<Rightarrow> usize \<Rightarrow> unit outcome \<times> smalloc"
  and grow_fuel ::
    "nat \<Rightarrow> translator \<Rightarrow> smalloc \<Rightarrow> region_list_type \<Rightarrow> unit outcome \<times> smalloc" where
  "free_fuel fuel T s addr n =
     (let region_to_remove = new_region addr n in
      case position (\<lambda>r. contains r region_to_remove) (regions (res s)) of
        None \<Rightarrow> (Err NoMemRegion, s)
      | Some index \<Rightarrow>
          let old = regions (res s) ! index in
          st_then
            (if requires_reallocation (res s) then grow_fuel fuel T s Res else (Ok (), s))
            (\<lambda>_ s1. free_at s1 index old region_to_remove))"
| "grow_fuel 0 T s list_type = (Diverge, s)"
| "grow_fuel (Suc fuel) T s list_type =
     (if \<not> permit_region_realloc s then (Err NoMemory, s)
      else
        let rl = (case list_type of Mem \<Rightarrow> memory s | Res \<Rightarrow> res s);
            old_max = rl_max rl; new_max = old_max * 2;
            new_size = new_max * SIZE_OF_REGION
        in case find_allocation_location s new_size ALIGN_OF_REGION of
             Ok (Some addr) \<Rightarrow>
               let new_ptr = phys_to_virt T addr;
                   old_size = old_max * SIZE_OF_REGION;
                   old_ptr = regions_ptr rl;
                   rl' = rl\<lparr>regions_ptr := new_ptr, rl_max := new_max\<rparr>;
                   s1 = (case list_type of Mem \<Rightarrow> s\<lparr>memory := rl'\<rparr> | Res \<Rightarrow> s\<lparr>res := rl'\<rparr>)
               in (case free_fuel fuel T s1 old_ptr old_size of
                     (Panic, s2) \<Rightarrow> (Panic, s2)
                   | (Diverge, s2) \<Rightarrow> (Diverge, s2)
                   | (_, s2) \<Rightarrow> res_insert s2 (new_region new_ptr new_size))
           | Ok None \<Rightarrow> (Err NoMemory, s)
           | Err e \<Rightarrow> (Err e, s) | Panic \<Rightarrow> (Panic, s) | Diverge \<Rightarrow> (Diverge, s))"
  by pat_completeness auto
termination
  by (relation "measure (\<lambda>x. case x of Inl (f, _) \<Rightarrow> 2 * f + 1 | Inr (f, _) \<Rightarrow> 2 * f)") auto

declare free_fuel.simps [simp del] grow_fuel.simps [simp del]

text \<open>Each nested growth doubles a capacity; a capacity of at least 2 is not exceeded twice in a
  row, and 66 doublings exhaust any 64-bit capacity.\<close>

definition MAX_GROWTHS :: nat where "MAX_GROWTHS = 66"

definition free :: "translator \<Rightarrow> smalloc \<Rightarrow> usize \<Rightarrow> usize \<Rightarrow> unit outcome \<times> smalloc" where
  "free T s addr n = free_fuel MAX_GROWTHS T s addr n"

definition grow_region_list ::
  "translator \<Rightarrow> smalloc \<Rightarrow> region_list_type \<Rightarrow> unit outcome \<times> smalloc" where
  "grow_region_list T s list_type = grow_fuel MAX_GROWTHS T s list_type"

definition alloc :: "translator \<Rightarrow> smalloc \<Rightarrow> usize \<Rightarrow> usize \<Rightarrow> usize outcome \<times> smalloc" where
  "alloc T s n al =
     st_then (if requires_reallocation (res s) then grow_region_list T s Res else (Ok (), s))
       (\<lambda>_ s1. case find_allocation_location s1 n al of
          Ok None \<Rightarrow> (Err NoMemory, s1)
        | Ok (Some addr) \<Rightarrow> st_then (res_insert s1 (new_region addr n)) (\<lambda>_ s2. (Ok addr, s2))
        | Err e \<Rightarrow> (Err e, s1) | Panic \<Rightarrow> (Panic, s1) | Diverge \<Rightarrow> (Diverge, s1))"

definition add_reservation :: "translator \<Rightarrow> smalloc \<Rightarrow> region \<Rightarrow> unit outcome \<times> smalloc" where
  "add_reservation T s r =
     st_then (if requires_reallocation (res s) then grow_region_list T s Res else (Ok (), s))
       (\<lambda>_ s1. res_insert s1 r)"

definition base_ram_base_address :: "smalloc \<Rightarrow> usize option" where
  "base_ram_base_address s =
     (if rl_is_empty (memory s) then None else Some (start_address (hd (regions (memory s)))))"

definition add_memory :: "translator \<Rightarrow> smalloc \<Rightarrow> region \<Rightarrow> unit outcome \<times> smalloc" where
  "add_memory T s r =
     st_then (if requires_reallocation (memory s) then grow_region_list T s Mem else (Ok (), s))
       (\<lambda>_ s1. case insert_region (memory s1) r of
          Ok rl \<Rightarrow> (Ok (), s1\<lparr>memory := rl\<rparr>) | Err e \<Rightarrow> (Err e, s1)
        | Panic \<Rightarrow> (Panic, s1) | Diverge \<Rightarrow> (Diverge, s1))"

definition alloc_page :: "translator \<Rightarrow> smalloc \<Rightarrow> usize outcome \<times> smalloc" where
  "alloc_page T s =
     st_then (alloc T s PAGE_SIZE PAGE_SIZE) (\<lambda>p s1. (Ok (drop_bit PAGE_SHIFT p), s1))"

section \<open>Iterating over free memory\<close>

text \<open>The iterator's state: the memory regions and reservations not yet consumed and the
  fragment kept from the previous call.\<close>

record free_regions_iter =
  mem_iter :: "region list"
  res_iter :: "region list"
  current_fragment :: "region option"

text \<open>The fragment \<open>next\<close> works on: the one kept, or else the next memory region.\<close>

definition take_fragment :: "free_regions_iter \<Rightarrow> (region \<times> free_regions_iter) option" where
  "take_fragment it =
     (case current_fragment it of
        Some frag \<Rightarrow> Some (frag, it\<lparr>current_fragment := None\<rparr>)
      | None \<Rightarrow> (case mem_iter it of [] \<Rightarrow> None | m # ms \<Rightarrow> Some (m, it\<lparr>mem_iter := ms\<rparr>)))"

lemma take_fragment_res: "take_fragment it = Some (f, it') \<Longrightarrow> res_iter it' = res_iter it"
  by (auto simp: take_fragment_def split: option.splits list.splits)

lemma dropWhile_Cons_length: "dropWhile P xs = y # ys \<Longrightarrow> length ys < length xs"
  using length_dropWhile_le [of P xs] by (metis Suc_le_lessD length_Cons)

text \<open>\<open>next\<close>: reservations entirely before the fragment are consumed first; a \<open>continue\<close> of the
  source's loop is the recursive call.\<close>

function free_next :: "free_regions_iter \<Rightarrow> region option outcome \<times> free_regions_iter" where
  "free_next it =
     (case take_fragment it of
        None \<Rightarrow> (Ok None, it)
      | Some (fragment, it1) \<Rightarrow>
          case dropWhile (\<lambda>x. is_before x fragment) (res_iter it1) of
            [] \<Rightarrow> (Ok (Some fragment), it1\<lparr>res_iter := []\<rparr>)
          | res_region # rest \<Rightarrow>
              if is_after res_region fragment
              then (Ok (Some fragment), it1\<lparr>res_iter := res_region # rest\<rparr>)
              else if start_address fragment < start_address res_region
              then (case from_start_end_address (start_address fragment)
                           (start_address res_region) of
                      Ok free_prefix \<Rightarrow>
                        if end_address res_region < end_address fragment
                        then (case from_start_end_address (end_address res_region)
                                     (end_address fragment) of
                                Ok r \<Rightarrow> (Ok (Some free_prefix),
                                  it1\<lparr>res_iter := rest, current_fragment := Some r\<rparr>)
                              | _ \<Rightarrow> (Panic, it1))
                        else (Ok (Some free_prefix), it1\<lparr>res_iter := rest\<rparr>)
                    | _ \<Rightarrow> (Panic, it1))
              else if end_address res_region \<ge> end_address fragment
              then free_next (it1\<lparr>res_iter := rest\<rparr>)
              else (case from_start_end_address (end_address res_region) (end_address fragment) of
                      Ok r \<Rightarrow> free_next (it1\<lparr>res_iter := rest, current_fragment := Some r\<rparr>)
                    | _ \<Rightarrow> (Panic, it1)))"
  by pat_completeness auto
termination
  by (relation "measure (\<lambda>it. length (res_iter it))")
     (auto dest!: take_fragment_res dropWhile_Cons_length)

declare free_next.simps [simp del]

definition iter_free :: "smalloc \<Rightarrow> free_regions_iter" where
  "iter_free s = \<lparr>mem_iter = regions (memory s), res_iter = regions (res s),
                  current_fragment = None\<rparr>"

text \<open>Draining the iterator, as a \<open>for\<close> loop does.\<close>

partial_function (option) free_collect ::
  "free_regions_iter \<Rightarrow> region list outcome option" where
  "free_collect it =
     (case free_next it of
        (Ok None, _) \<Rightarrow> Some (Ok [])
      | (Ok (Some r), it') \<Rightarrow>
          Option.bind (free_collect it') (\<lambda>rest. Some (and_then rest (\<lambda>rs. Ok (r # rs))))
      | (Err e, _) \<Rightarrow> Some (Err e) | (Panic, _) \<Rightarrow> Some Panic | (Diverge, _) \<Rightarrow> Some Diverge)"

section \<open>Separated lists and the bytes they cover\<close>

text \<open>The invariant of both lists: sorted, with a gap between neighbours, every region non-empty
  and none wraps.\<close>

definition proper :: "region \<Rightarrow> bool" where
  "proper r \<longleftrightarrow> wf_region r \<and> lo r < hi r"

definition sep :: "region list \<Rightarrow> bool" where
  "sep rs \<longleftrightarrow> sorted_wrt (\<lambda>a b. hi a < lo b) rs \<and> (\<forall>r\<in>set rs. proper r)"

definition covered :: "region list \<Rightarrow> nat set" where
  "covered rs = (\<Union>r\<in>set rs. bytes_of r)"

definition apart :: "region \<Rightarrow> region \<Rightarrow> bool" where
  "apart r s \<longleftrightarrow> hi r < lo s \<or> hi s < lo r"

lemma sep_delete_nth: "sep rs \<Longrightarrow> sep (delete_nth i rs)"
  using set_delete_nth_subset [of i rs] by (auto simp: sep_def intro: sorted_wrt_delete_nth)

lemma covered_delete_nth:
  "i < length rs \<Longrightarrow> covered rs = bytes_of (rs ! i) \<union> covered (delete_nth i rs)"
  by (simp add: covered_def set_delete_nth)

lemma merge_None_apart:
  "wf_region r \<Longrightarrow> wf_region s \<Longrightarrow> merge r s = None \<Longrightarrow> apart r s"
  by (auto simp: merge_Some apart_def split: if_splits)

lemma merge_Some_bytes:
  assumes "wf_region r" "wf_region s" "merge r s = Some m"
  shows "bytes_of m = bytes_of r \<union> bytes_of s"
proof -
  have "lo s \<le> hi r" "lo r \<le> hi s"
    using assms by (auto simp: merge_Some split: if_splits)
  then show ?thesis
    using merge_bounds [OF assms] lo_le_hi [of r] lo_le_hi [of s] by (auto simp: bytes_of_def)
qed

lemma merge_scan_spec:
  assumes "merge_scan rl i new_rg = (rl', new')"
    and "sep (regions rl)" "proper new_rg" "\<forall>j<i. apart (regions rl ! j) new_rg"
  shows "sep (regions rl') \<and> proper new' \<and> (\<forall>r\<in>set (regions rl'). apart r new') \<and>
     covered (regions rl') \<union> bytes_of new' = covered (regions rl) \<union> bytes_of new_rg \<and>
     length (regions rl') \<le> length (regions rl) \<and>
     rl_max rl' = rl_max rl \<and> regions_ptr rl' = regions_ptr rl"
  using assms
proof (induction rl i new_rg rule: merge_scan.induct)
  case (1 rl i new_rg)
  show ?case
  proof (cases "i < length (regions rl)")
    case False
    then have "rl' = rl" "new' = new_rg"
      using "1.prems"(1) by (simp_all add: merge_scan.simps [of rl i])
    moreover have "\<forall>r\<in>set (regions rl). apart r new_rg"
      using "1.prems"(4) False by (metis in_set_conv_nth less_le_trans not_less)
    ultimately show ?thesis using "1.prems" by simp
  next
    case True
    let ?r = "regions rl ! i"
    have wf: "wf_region ?r" "wf_region new_rg"
      using True "1.prems"(2,3) by (simp_all add: sep_def proper_def)
    show ?thesis
    proof (cases "merge ?r new_rg")
      case None
      have "\<forall>j<Suc i. apart (regions rl ! j) new_rg"
        using "1.prems"(4) merge_None_apart [OF wf None] by (auto simp: less_Suc_eq)
      then show ?thesis
        using "1.IH"(1) [OF True None] "1.prems" True None by (simp add: merge_scan.simps [of rl i])
    next
      case (Some m)
      have proper_m: "proper m"
        using merge_bounds [OF wf Some] "1.prems"(3) by (auto simp: proper_def)
      have "merge_scan (remove_at rl i) 0 m = (rl', new')"
        using "1.prems"(1) True Some by (simp add: merge_scan.simps [of rl i])
      moreover have "regions (remove_at rl i) = delete_nth i (regions rl)"
        using True by (simp add: remove_at_def)
      moreover have "rl_max (remove_at rl i) = rl_max rl" "regions_ptr (remove_at rl i) = regions_ptr rl"
        by (simp_all add: remove_at_def)
      ultimately show ?thesis
        using "1.IH"(2) [OF True Some] proper_m
          sep_delete_nth [OF "1.prems"(2)] covered_delete_nth [OF True]
          merge_Some_bytes [OF wf Some] True
        by auto
    qed
  qed
qed

lemma sep_insert:
  assumes "sep rs" "proper r" "\<forall>x\<in>set rs. apart x r"
  shows "sep (insert_nth (case position (\<lambda>x. start_address x > start_address r) rs of
                 None \<Rightarrow> length rs | Some k \<Rightarrow> k) r rs)" (is "sep (insert_nth ?k r rs)")
proof -
  have less: "start_address x > start_address r \<longleftrightarrow> lo r < lo x" for x
    by (simp add: word_less_nat_alt unat_start_address)
  have before: "hi y < lo r" if "y \<in> set rs" "\<not> lo r < lo y" for y
    using bspec [OF assms(3) that(1)] that(2) lo_le_hi [of r] unfolding apart_def by linarith
  have sorted: "sorted_wrt (\<lambda>a b. hi a < lo b) rs" using assms(1) by (simp add: sep_def)
  have "\<forall>y\<in>set (take ?k rs). hi y < lo r"
  proof
    fix y assume y: "y \<in> set (take ?k rs)"
    then obtain j where j: "j < ?k" "j < length rs" "y = rs ! j"
      by (auto simp: in_set_conv_nth)
    have "\<not> lo r < lo y"
      using position_None [of "\<lambda>x. start_address x > start_address r" rs]
        position_Some [of "\<lambda>x. start_address x > start_address r" rs] j
      by (auto simp: less split: option.splits)
    then show "hi y < lo r" using before j by simp
  qed
  moreover have "\<forall>y\<in>set (drop ?k rs). hi r < lo y"
  proof
    fix y assume y: "y \<in> set (drop ?k rs)"
    then obtain k where k: "position (\<lambda>x. start_address x > start_address r) rs = Some k"
      by (auto split: option.splits)
    note p = position_Some [OF k]
    obtain j where j: "k \<le> j" "j < length rs" "y = rs ! j"
      using y k by (auto simp: in_set_conv_nth) (metis add.commute le_add1 less_diff_conv)
    have "lo (rs ! k) \<le> lo y"
    proof (cases "k = j")
      case False
      then have "hi (rs ! k) < lo y"
        using sorted j by (simp add: sorted_wrt_iff_nth_less)
      then show ?thesis using lo_le_hi [of "rs ! k"] by linarith
    qed (simp add: j)
    then have "lo r < lo y" using p by (simp add: less)
    moreover have "apart y r" using assms(3) j by simp
    ultimately show "hi r < lo y" using lo_le_hi [of y] unfolding apart_def by linarith
  qed
  ultimately have "sorted_wrt (\<lambda>a b. hi a < lo b) (insert_nth ?k r rs)"
    using sorted by (intro sorted_wrt_insert_nth)
  then show ?thesis using assms(1,2) by (simp add: sep_def)
qed

lemma insert_region_spec:
  assumes "sep (regions rl)" "proper r" "rl_count rl \<noteq> rl_max rl"
  shows "\<exists>rl'. insert_region rl r = Ok rl' \<and> sep (regions rl') \<and>
     covered (regions rl') = covered (regions rl) \<union> bytes_of r \<and>
     length (regions rl') \<le> Suc (length (regions rl)) \<and>
     rl_max rl' = rl_max rl \<and> regions_ptr rl' = regions_ptr rl"
proof -
  obtain rl1 r1 where m: "merge_scan rl 0 r = (rl1, r1)" by fastforce
  note spec = merge_scan_spec [OF m assms(1,2), simplified]
  from spec have s: "sep (regions rl1)" "proper r1" "\<forall>x\<in>set (regions rl1). apart x r1" by auto
  show ?thesis
    using spec sep_insert [OF s] assms(3)
    by (auto simp: insert_region_def m covered_def)
qed
section \<open>First-fit search\<close>

lemma skip_reservations_spec:
  assumes "\<forall>r\<in>set rs. wf_region r" "i \<le> length rs"
  shows "i \<le> skip_reservations rs c i \<and> skip_reservations rs c i \<le> length rs \<and>
    (\<forall>j. i \<le> j \<and> j < skip_reservations rs c i \<longrightarrow> hi (rs ! j) \<le> lo c) \<and>
    (skip_reservations rs c i < length rs \<longrightarrow> lo c < hi (rs ! skip_reservations rs c i))"
  using assms
proof (induction rs c i rule: skip_reservations.induct)
  case (1 rs c i)
  let ?go = "i < length rs \<and> end_address (rs ! i) \<le> start_address c"
  have le: "end_address (rs ! i) \<le> start_address c \<longleftrightarrow> hi (rs ! i) \<le> lo c" if "i < length rs"
    using "1.prems" that by (simp add: word_nat)
  show ?case
  proof (cases ?go)
    case True
    then have e: "skip_reservations rs c i = skip_reservations rs c (Suc i)"
      by (simp add: skip_reservations.simps [of rs c i])
    have IH: "Suc i \<le> skip_reservations rs c (Suc i) \<and>
        skip_reservations rs c (Suc i) \<le> length rs \<and>
        (\<forall>j. Suc i \<le> j \<and> j < skip_reservations rs c (Suc i) \<longrightarrow> hi (rs ! j) \<le> lo c) \<and>
        (skip_reservations rs c (Suc i) < length rs \<longrightarrow>
           lo c < hi (rs ! skip_reservations rs c (Suc i)))"
      using "1.IH" True "1.prems" by simp
    have "hi (rs ! i) \<le> lo c" using True le by simp
    then have "hi (rs ! j) \<le> lo c" if "i \<le> j" "j < skip_reservations rs c (Suc i)" for j
      using IH that by (cases "j = i") auto
    then show ?thesis using IH unfolding e by auto
  next
    case False
    then have "skip_reservations rs c i = i"
      by (subst skip_reservations.simps) (rule if_not_P)
    then show ?thesis using False le "1.prems" by auto
  qed
qed

text \<open>An aligned position is free in \<open>m\<close> when its block lies in \<open>m\<close> and meets no reservation.\<close>

definition free_at_pos :: "region \<Rightarrow> region list \<Rightarrow> nat \<Rightarrow> nat \<Rightarrow> nat \<Rightarrow> bool" where
  "free_at_pos m rs n al p \<longleftrightarrow>
     al dvd p \<and> {p..<p + n} \<subseteq> bytes_of m \<and> {p..<p + n} \<inter> covered rs = {}"

definition alloc_bounded :: "region list \<Rightarrow> nat \<Rightarrow> nat \<Rightarrow> bool" where
  "alloc_bounded rs n al \<longleftrightarrow> (\<forall>r\<in>set rs. hi r + al + n < 2 ^ 64)"

lemma bytes_subset_covered: "j < length rs \<Longrightarrow> bytes_of (rs ! j) \<subseteq> covered rs"
  unfolding covered_def by (rule UN_upper) simp

lemma sep_nth_mono:
  assumes "sep rs" "j < k" "k < length rs"
  shows "hi (rs ! j) < lo (rs ! k)"
  using assms by (simp add: sep_def sorted_wrt_iff_nth_less)

lemma sep_lo_mono:
  assumes "sep rs" "j \<le> k" "k < length rs"
  shows "lo (rs ! j) \<le> lo (rs ! k)"
proof (cases "j = k")
  case False
  then have "hi (rs ! j) < lo (rs ! k)" using assms sep_nth_mono by simp
  then show ?thesis by (rule order_trans [OF lo_le_hi less_imp_le])
qed simp

lemma interval_inter_bytes:
  "0 < n \<Longrightarrow> {p..<p + n} \<inter> bytes_of r \<noteq> {} \<longleftrightarrow> p < hi r \<and> lo r < p + n \<and> lo r < hi r"
  by (auto simp: bytes_of_def)

lemma alloc_scan_spec:
  assumes "sep rs" "wf_region m" "alloc_bounded rs (unat n) (unat al)" "is_power_of_two al"
    "0 < unat n" "i \<le> length rs" "\<forall>j<i. hi (rs ! j) \<le> lo c \<and> hi (rs ! j) \<le> hi m"
    "unat al dvd lo c" "hi c = lo c + unat n" "wf_region c" "lo m \<le> lo c"
  shows "\<exists>x i'. alloc_scan m al rs c i = Some (Ok (x, i')) \<and> i' \<le> length rs \<and>
     (\<forall>j<i'. hi (rs ! j) \<le> hi m) \<and>
     (\<forall>a. x = Some a \<longrightarrow> free_at_pos m rs (unat n) (unat al) (unat a)) \<and>
     (x = None \<longrightarrow> (\<forall>p\<ge>lo c. \<not> free_at_pos m rs (unat n) (unat al) p))"
  using assms(6-)
proof (induction "length rs - skip_reservations rs c i" arbitrary: c i rule: less_induct)
  case less
  let ?k = "skip_reservations rs c i"
  have wfs: "\<forall>r\<in>set rs. wf_region r" and pr: "\<forall>r\<in>set rs. proper r"
    using assms(1) by (auto simp: sep_def proper_def)
  note skip = skip_reservations_spec [OF wfs less.prems(1), of c]
  have skipped: "\<forall>j<?k. hi (rs ! j) \<le> lo c"
    using less.prems(2) skip by (metis not_less)
  show ?case
  proof (cases "contains m c")
    case False
    then have "hi m < hi c"
      using less.prems assms(2) by (simp add: contains_iff)
    then have "\<not> free_at_pos m rs (unat n) (unat al) p" if "p \<ge> lo c" for p
      using that less.prems(4) assms(5) by (auto simp: free_at_pos_def bytes_of_def)
    then show ?thesis
      using False less.prems by (auto simp: alloc_scan.simps)
  next
    case True
    then have cm: "lo m \<le> lo c" "hi c \<le> hi m"
      using less.prems assms(2) by (simp_all add: contains_iff)
    show ?thesis
    proof (cases "?k < length rs \<and> overlaps c (rs ! ?k)")
      case False
      then have scan: "alloc_scan m al rs c i = Some (Ok (Some (start_address c), ?k))"
        using True by (auto simp: alloc_scan.simps [of m al rs c i] Let_def)
      have "{lo c..<lo c + unat n} \<inter> bytes_of r = {}" if r: "r \<in> set rs" for r
      proof -
        obtain j where j: "j < length rs" "r = rs ! j" using r by (metis in_set_conv_nth)
        show ?thesis
        proof (cases "j < ?k")
          case True
          then show ?thesis using skipped j by (auto simp: bytes_of_def)
        next
          case jk: False
          then have k: "?k < length rs" using j by simp
          have "lo c < hi (rs ! ?k)" using skip k by blast
          then have "hi c \<le> lo (rs ! ?k)"
            using False k less.prems(5) wfs by (auto simp: overlaps_iff)
          moreover have "lo (rs ! ?k) \<le> lo r"
            using sep_lo_mono [OF assms(1), of ?k j] jk j by simp
          ultimately show ?thesis using less.prems(4) by (auto simp: bytes_of_def)
        qed
      qed
      then have "{lo c..<lo c + unat n} \<inter> covered rs = {}" by (auto simp: covered_def)
      moreover have "{lo c..<lo c + unat n} \<subseteq> bytes_of m"
        using cm less.prems(4) by (simp add: bytes_of_def)
      ultimately have "free_at_pos m rs (unat n) (unat al) (lo c)"
        using less.prems(3) by (simp add: free_at_pos_def)
      then show ?thesis
        using scan skip skipped cm less.prems(4)
        by (auto simp: unat_start_address intro: order_trans)
    next
      case ov: True
      let ?r = "rs ! ?k"
      have wr: "wf_region ?r" "hi ?r + unat al + unat n < 2 ^ 64"
        using ov wfs assms(3) by (auto simp: alloc_bounded_def)
      then have "unat (end_address ?r) + (unat al - 1) < 2 ^ 64"
        by (simp add: unat_end_address)
      then obtain a where a: "align_up (end_address ?r) al = Ok a"
        "unat a = round_up (unat al) (hi ?r)"
        using align_up_Ok [OF assms(4)] unat_end_address [OF wr(1)] by metis
      let ?c = "with_start_address c a"
      have ge: "hi ?r \<le> unat a"
        unfolding a by (simp add: round_up_ge is_power_of_two_pos assms(4))
      have lt: "unat a < hi ?r + unat al"
        unfolding a by (simp add: round_up_less is_power_of_two_pos assms(4))
      have c': "lo ?c = unat a" "hi ?c = unat a + unat n" "wf_region ?c"
        using less.prems(4) lt wr(2)
        by (auto simp: with_start_address_def lo_def hi_def wf_region_def)
      have k_lt: "lo c < hi ?r" using skip ov by blast
      have scan: "alloc_scan m al rs c i = alloc_scan m al rs ?c ?k"
        using True ov a by (simp add: alloc_scan.simps [of m al rs c i] Let_def)
      have wfk: "?k \<le> length rs" using ov by simp
      note skip' = skip_reservations_spec [OF wfs wfk, of ?c]
      have "skip_reservations rs ?c ?k \<noteq> ?k"
        using skip' ov ge c'(1) by (metis not_less)
      then have smaller: "length rs - skip_reservations rs ?c ?k < length rs - ?k"
        using skip' ov by linarith
      have "\<forall>j<?k. hi (rs ! j) \<le> lo ?c \<and> hi (rs ! j) \<le> hi m"
        using skipped k_lt ge c'(1) cm less.prems(4) by fastforce
      moreover have "unat al dvd lo ?c" by (simp add: c' a)
      moreover have "lo m \<le> lo ?c" using cm k_lt ge c'(1) by simp
      ultimately obtain x i' where IH: "alloc_scan m al rs ?c ?k = Some (Ok (x, i'))"
        "i' \<le> length rs" "\<forall>j<i'. hi (rs ! j) \<le> hi m"
        "\<forall>a. x = Some a \<longrightarrow> free_at_pos m rs (unat n) (unat al) (unat a)"
        "x = None \<longrightarrow> (\<forall>p\<ge>lo ?c. \<not> free_at_pos m rs (unat n) (unat al) p)"
        using less.hyps [OF smaller wfk] c' by auto
      have "\<not> free_at_pos m rs (unat n) (unat al) p" if p: "lo c \<le> p" "p < lo ?c" for p
      proof
        assume f: "free_at_pos m rs (unat n) (unat al) p"
        have "\<not> hi ?r \<le> p"
          using f p(2) round_up_least [of "unat al" p "hi ?r"] c'(1) a(2)
          by (auto simp: free_at_pos_def)
        moreover have "lo ?r < hi c"
          using ov less.prems(5) wr(1) by (simp add: overlaps_iff)
        ultimately have "p < hi ?r" "lo ?r < p + unat n" using p(1) less.prems(4) by auto
        moreover have "lo ?r < hi ?r" using pr ov by (simp add: proper_def)
        ultimately have "{p..<p + unat n} \<inter> bytes_of ?r \<noteq> {}"
          using assms(5) by (simp add: interval_inter_bytes)
        moreover have "bytes_of ?r \<subseteq> covered rs"
          using ov by (simp add: bytes_subset_covered)
        ultimately show False using f by (auto simp: free_at_pos_def)
      qed
      then show ?thesis
        using IH unfolding scan by (metis not_less)
    qed
  qed
qed
lemma free_at_pos_ge:
  assumes "free_at_pos m rs n al p" "0 < n" "0 < al"
  shows "round_up al (lo m) \<le> p"
  using assms by (auto simp: free_at_pos_def bytes_of_def intro: round_up_least)

lemma scan_memory_spec:
  assumes "sep ms" "sep rs" "alloc_bounded rs (unat n) (unat al)" "is_power_of_two al"
    "alloc_bounded ms (unat n) (unat al)" "0 < unat n" "i \<le> length rs"
    "\<forall>j<i. \<forall>m\<in>set ms. hi (rs ! j) \<le> lo m"
  shows "\<exists>x. scan_memory ms n al rs i = Ok x \<and>
     (\<forall>a. x = Some a \<longrightarrow> (\<exists>m\<in>set ms. free_at_pos m rs (unat n) (unat al) (unat a))) \<and>
     (x = None \<longrightarrow> (\<forall>m\<in>set ms. \<forall>p. \<not> free_at_pos m rs (unat n) (unat al) p))"
  using assms(1,5,7,8)
proof (induction ms arbitrary: i)
  case Nil
  then show ?case by simp
next
  case (Cons m ms)
  have pos: "0 < unat al" using assms(4) by (rule is_power_of_two_pos)
  have m: "wf_region m" "hi m + unat al + unat n < 2 ^ 64"
    using Cons.prems(1,2) by (auto simp: sep_def proper_def alloc_bounded_def)
  have "unat (start_address m) + (unat al - 1) < 2 ^ 64"
    using m(2) lo_le_hi [of m] by (simp only: unat_start_address)
  then obtain a where a: "align_up (start_address m) al = Ok a"
    "unat a = round_up (unat al) (lo m)"
    using align_up_Ok [OF assms(4)] unat_start_address [of m] by metis
  let ?c = "new_region a n"
  have ge: "lo m \<le> unat a" unfolding a by (rule round_up_ge [OF pos])
  have lt: "unat a < lo m + unat al" unfolding a by (rule round_up_less [OF pos])
  have c: "lo ?c = unat a" "hi ?c = lo ?c + unat n" "wf_region ?c"
    using lt m(2) lo_le_hi [of m] by (auto simp: new_region_def wf_region_def simp del: lo_le_hi)
  have "\<forall>j<i. hi (rs ! j) \<le> lo ?c \<and> hi (rs ! j) \<le> hi m"
    using Cons.prems(4) ge unfolding c(1) by (meson list.set_intros(1) lo_le_hi order_trans)
  moreover have "unat al dvd lo ?c" by (simp add: c a)
  ultimately obtain x i' where scan: "alloc_scan m al rs ?c i = Some (Ok (x, i'))" "i' \<le> length rs"
    "\<forall>j<i'. hi (rs ! j) \<le> hi m"
    "\<forall>a. x = Some a \<longrightarrow> free_at_pos m rs (unat n) (unat al) (unat a)"
    "x = None \<longrightarrow> (\<forall>p\<ge>lo ?c. \<not> free_at_pos m rs (unat n) (unat al) p)"
    using alloc_scan_spec [OF assms(2) m(1) assms(3,4,6) Cons.prems(3), of ?c] c ge by auto
  show ?case
  proof (cases x)
    case (Some v)
    then show ?thesis using scan by (auto simp: a)
  next
    case None
    have none: "\<not> free_at_pos m rs (unat n) (unat al) p" for p
      using scan(5) None free_at_pos_ge [OF _ assms(6) pos, of m rs p] c(1) a(2) by auto
    have "sep ms" "alloc_bounded ms (unat n) (unat al)" "\<forall>j<i'. \<forall>m'\<in>set ms. hi (rs ! j) \<le> lo m'"
      using Cons.prems(1,2) scan(3) by (fastforce simp: sep_def alloc_bounded_def)+
    from Cons.IH [OF this(1,2) scan(2) this(3)] show ?thesis
      using none by (auto simp: a scan None)
  qed
qed

text \<open>The allocator's invariant: both lists are separated and within their capacity. One
  allocation further needs that no address computation wraps.\<close>

definition rl_ok :: "region_list \<Rightarrow> bool" where
  "rl_ok rl \<longleftrightarrow> sep (regions rl) \<and> length (regions rl) \<le> unat (rl_max rl) \<and> 2 \<le> unat (rl_max rl)"

definition smalloc_inv :: "smalloc \<Rightarrow> bool" where
  "smalloc_inv s \<longleftrightarrow> rl_ok (memory s) \<and> rl_ok (res s)"

definition alloc_fits :: "smalloc \<Rightarrow> usize \<Rightarrow> usize \<Rightarrow> bool" where
  "alloc_fits s n al \<longleftrightarrow> is_power_of_two al \<and> 0 < unat n \<and>
     alloc_bounded (regions (memory s)) (unat n) (unat al) \<and>
     alloc_bounded (regions (res s)) (unat n) (unat al)"

definition free_pos :: "smalloc \<Rightarrow> usize \<Rightarrow> usize \<Rightarrow> nat \<Rightarrow> bool" where
  "free_pos s n al p \<longleftrightarrow>
     (\<exists>m\<in>set (regions (memory s)). free_at_pos m (regions (res s)) (unat n) (unat al) p)"

abbreviation reserved :: "smalloc \<Rightarrow> nat set" where
  "reserved s \<equiv> covered (regions (res s))"

lemma find_allocation_location_spec:
  assumes "smalloc_inv s" "alloc_fits s n al"
  shows "\<exists>x. find_allocation_location s n al = Ok x \<and>
     (\<forall>a. x = Some a \<longrightarrow> free_pos s n al (unat a)) \<and> (x = None \<longrightarrow> (\<forall>p. \<not> free_pos s n al p))"
  using scan_memory_spec [of "regions (memory s)" "regions (res s)" n al 0] assms
  by (auto simp: smalloc_inv_def rl_ok_def alloc_fits_def free_pos_def
      find_allocation_location_def)

lemma rl_count_ok: "rl_ok rl \<Longrightarrow> unat (rl_count rl) = length (regions rl)"
  using usize_bound [of "rl_max rl"]
  by (simp add: rl_ok_def rl_count_def unat_of_nat del: usize_bound)

lemma requires_reallocation_iff:
  assumes "rl_ok rl"
  shows "requires_reallocation rl \<longleftrightarrow> unat (rl_max rl) \<le> length (regions rl) + 1"
proof -
  have "unat (rl_max rl - 1) = unat (rl_max rl) - 1"
    using assms by (simp add: rl_ok_def unat_sub_usize)
  then show ?thesis
    using assms by (auto simp: requires_reallocation_def word_le_nat_alt rl_count_ok rl_ok_def)
qed

lemma rl_insert_ok:
  assumes "rl_ok rl" "proper r" "length (regions rl) < unat (rl_max rl)"
  shows "\<exists>rl'. insert_region rl r = Ok rl' \<and> rl_ok rl' \<and>
     covered (regions rl') = covered (regions rl) \<union> bytes_of r \<and>
     length (regions rl') \<le> Suc (length (regions rl)) \<and>
     rl_max rl' = rl_max rl \<and> regions_ptr rl' = regions_ptr rl"
proof -
  have "rl_count rl \<noteq> rl_max rl" using rl_count_ok [OF assms(1)] assms(3) by auto
  then show ?thesis
    using insert_region_spec [of rl r] assms by (auto simp: rl_ok_def)
qed

lemma res_insert_ok:
  assumes "smalloc_inv s" "proper r" "length (regions (res s)) < unat (rl_max (res s))"
  shows "\<exists>s'. res_insert s r = (Ok (), s') \<and> smalloc_inv s' \<and>
     reserved s' = reserved s \<union> bytes_of r \<and> memory s' = memory s \<and>
     length (regions (res s')) \<le> Suc (length (regions (res s))) \<and>
     rl_max (res s') = rl_max (res s) \<and> regions_ptr (res s') = regions_ptr (res s) \<and>
     permit_region_realloc s' = permit_region_realloc s"
  using rl_insert_ok [of "res s" r] assms by (auto simp: res_insert_def smalloc_inv_def)

lemma sep_disjoint:
  assumes "sep rs" "j < length rs"
  shows "covered (delete_nth j rs) = covered rs - bytes_of (rs ! j)"
proof -
  have "bytes_of r \<inter> bytes_of (rs ! j) = {}" if r: "r \<in> set (delete_nth j rs)" for r
  proof -
    have "hi r < lo (rs ! j) \<or> hi (rs ! j) < lo r"
    proof -
      from r consider (a) "r \<in> set (take j rs)" | (b) "r \<in> set (drop (Suc j) rs)"
        by (auto simp: delete_nth_def)
      then show ?thesis
      proof cases
        case a
        then obtain k where "k < j" "r = rs ! k" using assms(2) by (auto simp: in_set_conv_nth)
        then show ?thesis using sep_nth_mono [OF assms(1), of k j] assms(2) by simp
      next
        case b
        then obtain k where "k < length (drop (Suc j) rs)" "r = drop (Suc j) rs ! k"
          by (auto simp: in_set_conv_nth)
        then have "Suc j + k < length rs" "r = rs ! (Suc j + k)" by simp_all
        then show ?thesis using sep_nth_mono [OF assms(1), of j "Suc j + k"] by simp
      qed
    qed
    then show ?thesis by (auto simp: bytes_of_def)
  qed
  then have "covered (delete_nth j rs) \<inter> bytes_of (rs ! j) = {}" by (auto simp: covered_def)
  then show ?thesis using covered_delete_nth [OF assms(2)] by blast
qed

lemma proper_new_region:
  "0 < unat n \<Longrightarrow> unat a + unat n < 2 ^ 64 \<Longrightarrow> proper (new_region a n)"
  by (simp add: proper_def wf_region_def new_region_def)

lemma bytes_new_region: "bytes_of (new_region a n) = {unat a..<unat a + unat n}"
  by (simp add: bytes_of_def new_region_def)

lemma lo_new_region [simp]: "lo (new_region a n) = unat a"
  by (simp add: new_region_def)

lemma hi_new_region [simp]: "hi (new_region a n) = unat a + unat n"
  by (simp add: new_region_def)

lemma free_at_ok:
  assumes "smalloc_inv s" "index < length (regions (res s))" "proper rm"
    "old = regions (res s) ! index" "lo old \<le> lo rm" "hi rm \<le> hi old"
    "length (regions (res s)) + 1 < unat (rl_max (res s))"
  shows "\<exists>s'. free_at s index old rm = (Ok (), s') \<and> smalloc_inv s' \<and>
     reserved s' = reserved s - bytes_of rm \<and> memory s' = memory s \<and>
     length (regions (res s')) \<le> length (regions (res s)) + 1 \<and>
     rl_max (res s') = rl_max (res s) \<and> regions_ptr (res s') = regions_ptr (res s) \<and>
     permit_region_realloc s' = permit_region_realloc s"
proof -
  let ?s1 = "s\<lparr>res := (res s)\<lparr>regions := delete_nth index (regions (res s))\<rparr>\<rparr>"
  have sep: "sep (regions (res s))" using assms(1) by (simp add: smalloc_inv_def rl_ok_def)
  have wf: "wf_region old" "wf_region rm"
    using sep assms(2,3,4) by (auto simp: sep_def proper_def)
  have inv1: "smalloc_inv ?s1"
    using assms(1,2) sep_delete_nth by (auto simp: smalloc_inv_def rl_ok_def)
  have cov1: "reserved ?s1 = reserved s - bytes_of old"
    using sep_disjoint [OF sep assms(2)] assms(4) by simp
  have len1: "length (regions (res ?s1)) < length (regions (res s))" using assms(2) by simp
  let ?left = "new_region (start_address old) (start_address rm - start_address old)"
  let ?right = "new_region (end_address rm) (end_address old - end_address rm)"
  have sub1: "unat (start_address rm - start_address old) = lo rm - lo old"
    using assms(5) by (simp add: unat_sub_usize unat_start_address)
  have sub2: "unat (end_address old - end_address rm) = hi old - hi rm"
    using assms(6) wf by (simp add: unat_sub_usize unat_end_address)
  have gt: "start_address rm > start_address old \<longleftrightarrow> lo old < lo rm"
    by (simp add: word_less_nat_alt unat_start_address)
  have lt: "end_address rm < end_address old \<longleftrightarrow> hi rm < hi old"
    using wf by (simp add: word_less_nat_alt unat_end_address)
  have rmhi: "lo rm < hi rm" "hi old < 2 ^ 64"
    using assms(3) wf by (simp_all add: proper_def)
  have left: "proper ?left \<and> bytes_of ?left = {lo old..<lo rm}" if "lo old < lo rm"
    using that assms(5,6) rmhi
    by (auto simp: bytes_of_def sub1 unat_start_address intro!: proper_new_region)
  have right: "proper ?right \<and> bytes_of ?right = {hi rm..<hi old}" if "hi rm < hi old"
    using that rmhi wf
    by (auto simp: bytes_of_def sub2 unat_end_address intro!: proper_new_region)
  obtain s2 where s2: "(if start_address rm > start_address old then res_insert ?s1 ?left
        else (Ok (), ?s1)) = (Ok (), s2)" "smalloc_inv s2"
      "reserved s2 = (reserved s - bytes_of old) \<union> {lo old..<lo rm}" "memory s2 = memory s"
      "length (regions (res s2)) \<le> length (regions (res s))"
      "rl_max (res s2) = rl_max (res s)" "regions_ptr (res s2) = regions_ptr (res s)"
      "permit_region_realloc s2 = permit_region_realloc s"
  proof (cases "lo old < lo rm")
    case True
    have "length (regions (res ?s1)) < unat (rl_max (res ?s1))" using len1 assms(7) by simp
    from res_insert_ok [OF inv1 conjunct1 [OF left [OF True]] this]
    obtain s2 where "res_insert ?s1 ?left = (Ok (), s2)" "smalloc_inv s2"
      "reserved s2 = reserved ?s1 \<union> bytes_of ?left" "memory s2 = memory ?s1"
      "length (regions (res s2)) \<le> Suc (length (regions (res ?s1)))"
      "rl_max (res s2) = rl_max (res ?s1)" "regions_ptr (res s2) = regions_ptr (res ?s1)"
      "permit_region_realloc s2 = permit_region_realloc ?s1" by blast
    then show ?thesis using that [of s2] True left [OF True] cov1 len1 gt by simp
  next
    case False
    then show ?thesis using that [of ?s1] inv1 cov1 gt assms(2,5) by simp
  qed
  have bytes: "(reserved s - bytes_of old) \<union> {lo old..<lo rm} \<union> {hi rm..<hi old} =
      reserved s - bytes_of rm"
  proof -
    have "bytes_of old \<subseteq> reserved s" using assms(2,4) by (simp add: bytes_subset_covered)
    then show ?thesis using assms(5,6) rmhi by (auto simp: bytes_of_def)
  qed
  have unfold: "free_at s index old rm = st_then (Ok (), s2) (\<lambda>_ s2.
      if end_address rm < end_address old then res_insert s2 ?right else (Ok (), s2))"
    unfolding s2(1) [symmetric] using assms(2) by (simp add: free_at_def Let_def)
  show ?thesis
  proof (cases "hi rm < hi old")
    case True
    have "length (regions (res s2)) < unat (rl_max (res s2))" using s2 assms(7) by simp
    from res_insert_ok [OF s2(2) conjunct1 [OF right [OF True]] this]
    obtain s3 where s3: "res_insert s2 ?right = (Ok (), s3)" "smalloc_inv s3"
      "reserved s3 = reserved s2 \<union> bytes_of ?right" "memory s3 = memory s2"
      "length (regions (res s3)) \<le> Suc (length (regions (res s2)))"
      "rl_max (res s3) = rl_max (res s2)" "regions_ptr (res s3) = regions_ptr (res s2)"
      "permit_region_realloc s3 = permit_region_realloc s2" by blast
    have "free_at s index old rm = (Ok (), s3)"
      using True lt s3(1) by (simp add: unfold st_then_def)
    moreover have "reserved s3 = reserved s - bytes_of rm"
      unfolding s3(3) s2(3) conjunct2 [OF right [OF True]] by (rule bytes)
    ultimately show ?thesis using s2 s3 by auto
  next
    case False
    then have "free_at s index old rm = (Ok (), s2)"
      using lt by (simp add: unfold st_then_def)
    moreover have "reserved s2 = reserved s - bytes_of rm"
      using bytes False s2(3) by simp
    ultimately show ?thesis using s2 by auto
  qed
qed

lemma free_pos_disjoint:
  "free_pos s n al (unat a) \<Longrightarrow> {unat a..<unat a + unat n} \<inter> reserved s = {}"
  by (auto simp: free_pos_def free_at_pos_def)

lemma free_pos_no_wrap:
  assumes "free_pos s n al p" "alloc_fits s n al"
  shows "p + unat n < 2 ^ 64"
proof -
  obtain m where m: "m \<in> set (regions (memory s))" "{p..<p + unat n} \<subseteq> bytes_of m"
    using assms(1) by (auto simp: free_pos_def free_at_pos_def)
  have "0 < unat n" "hi m + unat al + unat n < 2 ^ 64"
    using assms(2) m(1) by (auto simp: alloc_fits_def alloc_bounded_def)
  moreover from this m(2) have "p < hi m" by (auto simp: bytes_of_def)
  ultimately show ?thesis by simp
qed

lemma alloc_no_growth:
  assumes "smalloc_inv s" "alloc_fits s n al" "\<not> requires_reallocation (res s)"
  shows "(\<exists>a s'. alloc T s n al = (Ok a, s') \<and> free_pos s n al (unat a) \<and> smalloc_inv s' \<and>
            memory s' = memory s \<and> reserved s' = reserved s \<union> {unat a..<unat a + unat n}) \<or>
         (alloc T s n al = (Err NoMemory, s) \<and> (\<forall>p. \<not> free_pos s n al p))"
proof -
  obtain x where x: "find_allocation_location s n al = Ok x"
    "\<And>a. x = Some a \<Longrightarrow> free_pos s n al (unat a)" "x = None \<Longrightarrow> (\<forall>p. \<not> free_pos s n al p)"
    using find_allocation_location_spec [OF assms(1,2)] by blast
  show ?thesis
  proof (cases x)
    case None
    then show ?thesis using x assms(3) by (simp add: alloc_def)
  next
    case (Some a)
    then have f: "free_pos s n al (unat a)" using x by simp
    have "proper (new_region a n)"
      using free_pos_no_wrap [OF f assms(2)] assms(2)
      by (auto simp: alloc_fits_def intro!: proper_new_region)
    moreover have "length (regions (res s)) < unat (rl_max (res s))"
      using assms(1,3) by (simp add: smalloc_inv_def requires_reallocation_iff)
    ultimately obtain s' where "res_insert s (new_region a n) = (Ok (), s')" "smalloc_inv s'"
      "reserved s' = reserved s \<union> bytes_of (new_region a n)" "memory s' = memory s"
      using res_insert_ok [OF assms(1)] by blast
    then show ?thesis
      using f x(1) Some assms(3) by (auto simp: alloc_def bytes_new_region)
  qed
qed

lemma free_no_growth:
  assumes "smalloc_inv s" "0 < unat n" "unat a + unat n < 2 ^ 64"
    "\<not> requires_reallocation (res s)"
  shows "if \<exists>r\<in>set (regions (res s)). {unat a..<unat a + unat n} \<subseteq> bytes_of r
     then \<exists>s'. free_fuel f T s a n = (Ok (), s') \<and> smalloc_inv s' \<and> memory s' = memory s \<and>
            reserved s' = reserved s - {unat a..<unat a + unat n} \<and>
            length (regions (res s')) \<le> length (regions (res s)) + 1 \<and>
            rl_max (res s') = rl_max (res s) \<and> regions_ptr (res s') = regions_ptr (res s) \<and>
            permit_region_realloc s' = permit_region_realloc s
     else free_fuel f T s a n = (Err NoMemRegion, s)"
proof -
  let ?rm = "new_region a n" and ?rs = "regions (res s)"
  have pr: "proper ?rm" by (rule proper_new_region [OF assms(2,3)])
  have wf: "wf_region r" if "r \<in> set ?rs" for r
    using assms(1) that by (auto simp: smalloc_inv_def rl_ok_def sep_def proper_def)
  have cont: "contains r ?rm \<longleftrightarrow> {unat a..<unat a + unat n} \<subseteq> bytes_of r" if "r \<in> set ?rs" for r
    using contains_iff [OF wf [OF that], of ?rm] pr assms(2)
    by (auto simp: proper_def bytes_of_def)
  show ?thesis
  proof (cases "position (\<lambda>r. contains r ?rm) ?rs")
    case None
    then show ?thesis
      using position_None [of "\<lambda>r. contains r ?rm" ?rs] cont
      by (auto simp: free_fuel.simps)
  next
    case (Some i)
    note p = position_Some [OF Some]
    then have "contains (?rs ! i) ?rm" "i < length ?rs" by auto
    then have b: "lo (?rs ! i) \<le> lo ?rm" "hi ?rm \<le> hi (?rs ! i)"
      using contains_iff [OF wf [of "?rs ! i"], of ?rm] pr by (auto simp: proper_def)
    have room: "length ?rs + 1 < unat (rl_max (res s))"
      using assms(1,4) by (auto simp: smalloc_inv_def requires_reallocation_iff)
    have "\<exists>r\<in>set ?rs. {unat a..<unat a + unat n} \<subseteq> bytes_of r"
      using p cont nth_mem by blast
    moreover obtain s' where "free_at s i (?rs ! i) ?rm = (Ok (), s') \<and> smalloc_inv s' \<and>
     reserved s' = reserved s - bytes_of ?rm \<and> memory s' = memory s \<and>
     length (regions (res s')) \<le> length (regions (res s)) + 1 \<and>
     rl_max (res s') = rl_max (res s) \<and> regions_ptr (res s') = regions_ptr (res s) \<and>
     permit_region_realloc s' = permit_region_realloc s"
      using free_at_ok [OF assms(1) _ pr refl b room] p by blast
    ultimately show ?thesis
      using Some assms(4) by (auto simp: free_fuel.simps bytes_new_region)
  qed
qed
section \<open>Growing the reservation list\<close>

lemma grow_identity:
  assumes "smalloc_inv s" "permit_region_realloc s" "32 * unat (rl_max (res s)) < 2 ^ 64"
    "alloc_fits s (rl_max (res s) * 2 * SIZE_OF_REGION) ALIGN_OF_REGION"
    "unat (regions_ptr (res s)) + 16 * unat (rl_max (res s)) < 2 ^ 64"
  defines "old_buf \<equiv> {unat (regions_ptr (res s))..<
                       unat (regions_ptr (res s)) + 16 * unat (rl_max (res s))}"
  shows "(\<exists>a s'. grow_fuel (Suc f) IdentityTranslator s Res = (Ok (), s') \<and> smalloc_inv s' \<and>
     free_pos s (rl_max (res s) * 2 * SIZE_OF_REGION) ALIGN_OF_REGION (unat a) \<and>
     regions_ptr (res s') = a \<and> unat (rl_max (res s')) = 2 * unat (rl_max (res s)) \<and>
     memory s' = memory s \<and> permit_region_realloc s' \<and>
     length (regions (res s')) \<le> length (regions (res s)) + 2 \<and>
     reserved s' = (if \<exists>r\<in>set (regions (res s)). old_buf \<subseteq> bytes_of r
        then reserved s - old_buf else reserved s) \<union> {unat a..<unat a + 32 * unat (rl_max (res s))}) \<or>
     grow_fuel (Suc f) IdentityTranslator s Res = (Err NoMemory, s) \<and>
     (\<forall>p. \<not> free_pos s (rl_max (res s) * 2 * SIZE_OF_REGION) ALIGN_OF_REGION p)"
proof -
  let ?max = "rl_max (res s)"
  let ?n = "?max * 2 * SIZE_OF_REGION"
  have max2: "2 \<le> unat ?max" "length (regions (res s)) \<le> unat ?max"
    using assms(1) by (simp_all add: smalloc_inv_def rl_ok_def)
  have m2: "unat (?max * 2) = 2 * unat ?max"
    using assms(3) by (simp add: unat_word_ariths)
  have n: "unat ?n = 32 * unat ?max"
    using assms(3) m2 by (simp add: SIZE_OF_REGION_def unat_word_ariths)
  have o: "unat (?max * SIZE_OF_REGION) = 16 * unat ?max"
    using assms(3) by (simp add: SIZE_OF_REGION_def unat_word_ariths)
  obtain x where x: "find_allocation_location s ?n ALIGN_OF_REGION = Ok x"
    "\<And>a. x = Some a \<Longrightarrow> free_pos s ?n ALIGN_OF_REGION (unat a)"
    "x = None \<Longrightarrow> \<forall>p. \<not> free_pos s ?n ALIGN_OF_REGION p"
    using find_allocation_location_spec [OF assms(1,4)] by blast
  show ?thesis
  proof (cases x)
    case None
    then show ?thesis using x(1,3) assms(2) by (simp add: grow_fuel.simps Let_def)
  next
    case (Some a)
    note fp = x(2) [OF Some]
    let ?s1 = "s\<lparr>res := (res s)\<lparr>regions_ptr := a, rl_max := ?max * 2\<rparr>\<rparr>"
    have inv1: "smalloc_inv ?s1"
      using assms(1) max2 m2 by (auto simp: smalloc_inv_def rl_ok_def)
    have nr: "\<not> requires_reallocation (res ?s1)"
      using requires_reallocation_iff [of "res ?s1"] inv1 max2 m2 by (simp add: smalloc_inv_def)
    have "0 < unat (?max * SIZE_OF_REGION)" using o max2 by simp
    note free = free_no_growth [OF inv1 this _ nr, of "regions_ptr (res s)" f IdentityTranslator]
    obtain r s2 where s2: "free_fuel f IdentityTranslator ?s1 (regions_ptr (res s)) (?max * SIZE_OF_REGION) = (r, s2)"
      "r = Ok () \<or> r = Err NoMemRegion" "smalloc_inv s2" "memory s2 = memory s"
      "reserved s2 = (if \<exists>r\<in>set (regions (res s)). old_buf \<subseteq> bytes_of r
        then reserved s - old_buf else reserved s)"
      "length (regions (res s2)) \<le> length (regions (res s)) + 1"
      "rl_max (res s2) = ?max * 2" "regions_ptr (res s2) = a" "permit_region_realloc s2"
      using free assms(2,5) inv1 unfolding o old_buf_def by (auto split: if_splits)
    have "proper (new_region a ?n)"
      using free_pos_no_wrap [OF fp assms(4)] assms(4)
      by (auto simp: alloc_fits_def intro!: proper_new_region)
    moreover have "length (regions (res s2)) < unat (rl_max (res s2))"
      using s2(6,7) max2 m2 by simp
    ultimately obtain s3 where s3: "res_insert s2 (new_region a ?n) = (Ok (), s3)" "smalloc_inv s3"
      "reserved s3 = reserved s2 \<union> bytes_of (new_region a ?n)" "memory s3 = memory s2"
      "length (regions (res s3)) \<le> Suc (length (regions (res s2)))"
      "rl_max (res s3) = rl_max (res s2)" "regions_ptr (res s3) = regions_ptr (res s2)"
      "permit_region_realloc s3 = permit_region_realloc s2"
      using res_insert_ok [OF s2(3)] by blast
    have "grow_fuel (Suc f) IdentityTranslator s Res = (Ok (), s3)"
      using x(1) Some s2(1,2) s3(1) assms(2)
      by (auto simp: grow_fuel.simps Let_def IdentityTranslator_def)
    moreover have "reserved s3 = (if \<exists>r\<in>set (regions (res s)). old_buf \<subseteq> bytes_of r
        then reserved s - old_buf else reserved s) \<union> {unat a..<unat a + 32 * unat ?max}"
      unfolding s3(3) s2(5) bytes_new_region n ..
    ultimately show ?thesis
      using fp s3 s2 m2 by auto
  qed
qed
section \<open>The free-memory iterator\<close>

definition frags :: "free_regions_iter \<Rightarrow> region list" where
  "frags it = (case current_fragment it of None \<Rightarrow> [] | Some f \<Rightarrow> [f]) @ mem_iter it"

definition no_straddle :: "region list \<Rightarrow> region list \<Rightarrow> bool" where
  "no_straddle fs rs \<longleftrightarrow>
     (\<forall>r\<in>set rs. \<forall>m\<in>set fs. \<forall>m'\<in>set fs. hi m < lo m' \<longrightarrow> \<not> (lo r < hi m \<and> lo m' < hi r))"

definition iter_inv :: "free_regions_iter \<Rightarrow> bool" where
  "iter_inv it \<longleftrightarrow> sep (frags it) \<and> sep (res_iter it) \<and> no_straddle (frags it) (res_iter it)"

definition free_bytes :: "free_regions_iter \<Rightarrow> nat set" where
  "free_bytes it = covered (frags it) - covered (res_iter it)"

lemma covered_Cons [simp]: "covered (r # rs) = bytes_of r \<union> covered rs"
  by (simp add: covered_def)

lemma covered_Nil [simp]: "covered [] = {}"
  by (simp add: covered_def)

lemma covered_append [simp]: "covered (xs @ ys) = covered xs \<union> covered ys"
  by (simp add: covered_def)

lemma sep_Cons: "sep (r # rs) \<longleftrightarrow> proper r \<and> (\<forall>x\<in>set rs. hi r < lo x) \<and> sep rs"
  by (auto simp: sep_def)

lemma covered_above: "\<forall>x\<in>set rs. b \<le> lo x \<Longrightarrow> p \<in> covered rs \<Longrightarrow> b \<le> p"
  by (auto simp: covered_def bytes_of_def)

lemma take_fragment_Some:
  assumes "take_fragment it = Some (f, it1)"
  shows "frags it = f # mem_iter it1" "current_fragment it1 = None" "res_iter it1 = res_iter it"
    "frags it1 = mem_iter it1"
  using assms by (auto simp: take_fragment_def frags_def split: option.splits list.splits)

lemma take_fragment_None: "take_fragment it = None \<longleftrightarrow> frags it = []"
  by (auto simp: take_fragment_def frags_def split: option.splits list.splits)

lemma no_straddle_subset:
  "no_straddle fs rs \<Longrightarrow> set fs' \<subseteq> set fs \<Longrightarrow> set rs' \<subseteq> set rs \<Longrightarrow> no_straddle fs' rs'"
  by (auto simp: no_straddle_def)

lemma no_straddle_shrink:
  assumes "no_straddle (f # F) rs" "hi f' = hi f" "\<forall>x\<in>set F. hi f < lo x"
  shows "no_straddle (f' # F) rs"
  unfolding no_straddle_def
proof (intro ballI impI)
  fix r m m' assume r: "r \<in> set rs" and m: "m \<in> set (f' # F)" and m': "m' \<in> set (f' # F)"
    and lt: "hi m < lo m'"
  have "m' \<noteq> f'"
  proof
    assume "m' = f'"
    then have "hi m < lo f'" using lt by simp
    then have "hi m < hi f" using lo_le_hi [of f'] assms(2) by linarith
    moreover have "hi f \<le> hi m"
      using m assms(2,3) by (auto intro: order_trans [OF less_imp_le lo_le_hi])
    ultimately show False by simp
  qed
  then have m'F: "m' \<in> set (f # F)" using m' by simp
  obtain k where k: "k \<in> set (f # F)" "hi k = hi m"
  proof (cases "m = f'")
    case True
    then show thesis using that [of f] assms(2) by simp
  next
    case False
    then show thesis using that [of m] m by simp
  qed
  have "hi k < lo m' \<longrightarrow> \<not> (lo r < hi k \<and> lo m' < hi r)"
    using assms(1) r k(1) m'F unfolding no_straddle_def by blast
  then show "\<not> (lo r < hi m \<and> lo m' < hi r)" using lt k(2) by simp
qed

lemma skip_before_fragment:
  assumes "sep rs" "sep (f # F)"
  defines "rs' \<equiv> dropWhile (\<lambda>x. is_before x f) rs"
  shows "sep rs'" "set rs' \<subseteq> set rs"
    "covered (f # F) - covered rs = covered (f # F) - covered rs'"
    "rs' = r # rest \<Longrightarrow> lo f < hi r"
proof -
  let ?P = "\<lambda>x. is_before x f"
  have split: "takeWhile ?P rs @ rs' = rs" by (simp add: rs'_def)
  then show "sep rs'" using assms(1) by (metis sep_def sorted_wrt_append set_append UnI2)
  show "set rs' \<subseteq> set rs" by (auto simp: rs'_def dest: set_dropWhileD)
  have wf: "\<forall>x\<in>set rs. wf_region x" using assms(1) by (simp add: sep_def proper_def)
  have "hi x \<le> lo f" if "x \<in> set (takeWhile ?P rs)" for x
    using that wf set_takeWhileD [of x ?P rs] by (auto simp: is_before_iff)
  then have "p < lo f" if "p \<in> covered (takeWhile ?P rs)" for p
    using that by (fastforce simp: covered_def bytes_of_def)
  moreover have "lo f \<le> p" if "p \<in> covered (f # F)" for p
  proof -
    have "\<forall>x\<in>set (f # F). lo f \<le> lo x"
      using assms(2) by (auto simp: sep_Cons intro: order_trans [OF lo_le_hi less_imp_le])
    then show ?thesis using covered_above that by blast
  qed
  ultimately have "covered (f # F) \<inter> covered (takeWhile ?P rs) = {}"
    by (metis disjoint_iff not_less)
  moreover have "covered rs = covered (takeWhile ?P rs) \<union> covered rs'"
    by (metis split covered_append)
  ultimately show "covered (f # F) - covered rs = covered (f # F) - covered rs'" by blast
  show "lo f < hi r" if c: "rs' = r # rest"
  proof -
    have "r \<in> set rs" "\<not> ?P r"
      using c hd_dropWhile [of ?P rs] set_dropWhileD [of r ?P rs] by (auto simp: rs'_def)
    then show ?thesis using wf by (simp add: is_before_iff)
  qed
qed

text \<open>One \<open>next\<close> takes the first free piece off the free bytes that remain.\<close>

definition next_ok :: "free_regions_iter \<Rightarrow> region option outcome \<times> free_regions_iter \<Rightarrow> bool" where
  "next_ok it x = (case x of
      (Ok None, _) \<Rightarrow> free_bytes it = {}
    | (Ok (Some r), it') \<Rightarrow> iter_inv it' \<and> proper r \<and> free_bytes it = bytes_of r \<union> free_bytes it' \<and>
        (\<forall>p\<in>free_bytes it'. hi r \<le> p) \<and>
        2 * length (res_iter it') + length (frags it') < 2 * length (res_iter it) + length (frags it)
    | _ \<Rightarrow> False)"

lemma next_ok_weaken:
  "next_ok it1 x \<Longrightarrow> free_bytes it = free_bytes it1 \<Longrightarrow>
   2 * length (res_iter it1) + length (frags it1) \<le> 2 * length (res_iter it) + length (frags it) \<Longrightarrow>
   next_ok it x"
  by (auto simp: next_ok_def split: prod.splits outcome.splits option.splits)

lemma diff_split:
  "A - B = P \<union> Q \<Longrightarrow> C \<inter> B = {} \<Longrightarrow> P \<inter> D = {} \<Longrightarrow>
   (A \<union> C) - (B \<union> D) = P \<union> ((Q \<union> C) - D)"
  by blast

lemma next_ok_SomeI:
  assumes "x = (Ok (Some r), it')" "frags it' = F" "res_iter it' = R" "sep F" "sep R"
    "no_straddle F R" "proper r" "free_bytes it = bytes_of r \<union> (covered F - covered R)"
    "\<And>p. p \<in> covered F \<Longrightarrow> hi r \<le> p"
    "2 * length R + length F < 2 * length (res_iter it) + length (frags it)"
  shows "next_ok it x"
  using assms by (simp add: next_ok_def iter_inv_def free_bytes_def [of it'])

lemma free_next_ok: "iter_inv it \<Longrightarrow> next_ok it (free_next it)"
proof (induction it rule: free_next.induct)
  case (1 it)
  show ?case
  proof (cases "take_fragment it")
    case None
    then have "free_next it = (Ok None, it)" by (simp add: free_next.simps [of it])
    then show ?thesis using None by (simp add: next_ok_def free_bytes_def take_fragment_None)
  next
    case (Some p)
    then obtain f it1 where tf: "take_fragment it = Some (f, it1)" by (cases p) auto
    note t = take_fragment_Some [OF tf]
    let ?F = "mem_iter it1" and ?rs = "res_iter it"
    have inv: "sep (f # ?F)" "sep ?rs" "no_straddle (f # ?F) ?rs"
      using "1.prems" t by (simp_all add: iter_inv_def)
    have F: "sep ?F" "proper f" "\<forall>x\<in>set ?F. hi f < lo x" using inv by (simp_all add: sep_Cons)
    define rs' where "rs' = dropWhile (\<lambda>x. is_before x f) ?rs"
    note sk = skip_before_fragment [OF inv(2,1), folded rs'_def]
    have ns: "no_straddle (f # ?F) rs'" by (rule no_straddle_subset [OF inv(3) _ sk(2)]) simp
    have fb: "free_bytes it = covered (f # ?F) - covered rs'"
      using sk(3) t by (simp add: free_bytes_def)
    have len: "length rs' \<le> length ?rs" by (simp add: rs'_def length_dropWhile_le)
    have Fabove: "hi f \<le> p" if "p \<in> covered ?F" for p
      using covered_above [of ?F "hi f" p] F(3) that by (auto intro: less_imp_le)
    show ?thesis
    proof (cases rs')
      case Nil
      then have "dropWhile (\<lambda>x. is_before x f) (res_iter it1) = []"
        using t(3) unfolding rs'_def by simp
      then have nx: "free_next it = (Ok (Some f), it1\<lparr>res_iter := []\<rparr>)"
        unfolding free_next.simps [of it] tf by (simp only: option.case prod.case list.case)
      have fr: "frags (it1\<lparr>res_iter := []\<rparr>) = ?F" using t(2) by (simp add: frags_def)
      show ?thesis
        by (rule next_ok_SomeI [OF nx fr _ F(1) _ _ F(2) _ Fabove, of "[]"])
           (simp_all add: fb t(1) Nil no_straddle_def sep_def)
    next
      case (Cons r rest)
      have r: "proper r" "sep rest" "\<forall>x\<in>set rest. hi r < lo x" "lo f < hi r"
        using sk(1,4) Cons by (simp_all add: sep_Cons)
      have wf: "wf_region r" "wf_region f" using r F by (simp_all add: proper_def)
      have restabove: "hi r \<le> p" if "p \<in> covered rest" for p
        using covered_above [of rest "hi r" p] r(3) that by (auto intro: less_imp_le)
      have dw: "dropWhile (\<lambda>x. is_before x f) (res_iter it1) = r # rest"
        using Cons t by (simp add: rs'_def)
      show ?thesis
      proof (cases "is_after r f")
        case True
        then have after: "hi f \<le> lo r" using wf by (simp add: is_after_iff)
        have nx: "free_next it = (Ok (Some f), it1\<lparr>res_iter := r # rest\<rparr>)"
          using tf dw True by (simp add: free_next.simps [of it])
        have "p < hi f \<Longrightarrow> p \<notin> covered (r # rest)" for p
          using restabove [of p] after lo_le_hi [of r] by (auto simp: bytes_of_def)
        then have "bytes_of f \<inter> covered (r # rest) = {}" by (auto simp: bytes_of_def)
        then have fb': "free_bytes it = bytes_of f \<union> (covered ?F - covered (r # rest))"
          unfolding fb Cons by auto
        have fr: "frags (it1\<lparr>res_iter := r # rest\<rparr>) = ?F" using t(2) by (simp add: frags_def)
        have ns': "no_straddle ?F (r # rest)" by (rule no_straddle_subset [OF ns]) (auto simp: Cons)
        show ?thesis
          by (rule next_ok_SomeI [OF nx fr _ F(1) _ ns' F(2) fb' Fabove])
             (use sk(1) len Cons t(1) in simp_all)
      next
        case False
        then have notafter: "lo r < hi f" using wf by (simp add: is_after_iff)
        have Fr: "covered ?F \<inter> bytes_of r = {}"
        proof -
          have "\<forall>m\<in>set ?F. hi r \<le> lo m"
            using ns notafter F(3) Cons by (fastforce simp: no_straddle_def)
          then have "p \<in> covered ?F \<Longrightarrow> hi r \<le> p" for p using covered_above by blast
          then show ?thesis by (auto simp: bytes_of_def) (meson not_less)
        qed
        have ends: "end_address r < end_address f \<longleftrightarrow> hi r < hi f"
          "end_address f \<le> end_address r \<longleftrightarrow> hi f \<le> hi r"
          using wf by (simp_all add: word_nat)
        have starts: "start_address f < start_address r \<longleftrightarrow> lo f < lo r" by (simp add: word_nat)
        have nsrest: "no_straddle ?F rest"
          by (rule no_straddle_subset [OF ns]) (auto simp: Cons)
        have lenrest: "2 * length rest + 2 \<le> 2 * length ?rs" using len Cons by simp
        define tl where "tl = \<lparr>address = end_address r, rg_size = end_address f - end_address r\<rparr>"
        have tl: "from_start_end_address (end_address r) (end_address f) = Ok tl"
          "lo tl = hi r \<and> hi tl = hi f \<and> wf_region tl" if "hi r < hi f"
        proof -
          have le: "unat (end_address r) \<le> unat (end_address f)"
            using that wf by (simp add: unat_end_address)
          then show "from_start_end_address (end_address r) (end_address f) = Ok tl"
            by (simp add: from_start_end_address_def tl_def word_le_nat_alt)
          then show "lo tl = hi r \<and> hi tl = hi f \<and> wf_region tl"
            using from_start_end_address_Ok [OF le] wf by (auto simp: unat_end_address)
        qed
        have septl: "sep (tl # ?F)" "no_straddle (tl # ?F) rest" if "hi r < hi f"
        proof -
          show "sep (tl # ?F)" using that tl(2) F by (auto simp: sep_Cons proper_def)
          have "no_straddle (f # ?F) rest" by (rule no_straddle_subset [OF ns]) (auto simp: Cons)
          then show "no_straddle (tl # ?F) rest"
            using no_straddle_shrink [of f ?F rest tl] tl(2) that F(3) by blast
        qed
        show ?thesis
        proof (cases "lo f < lo r")
          case True
          obtain pre where pre: "from_start_end_address (start_address f) (start_address r) = Ok pre"
            "lo pre = lo f" "hi pre = lo r" "wf_region pre"
            using from_start_end_address_Ok [of "start_address f" "start_address r"] True
            by (auto simp: unat_start_address)
          have bpre: "bytes_of pre = {lo f..<lo r}" using pre by (simp add: bytes_of_def)
          have "p \<notin> covered rest" if "p < lo r" for p
            using restabove [of p] lo_le_hi [of r] that by linarith
          then have prerest: "bytes_of pre \<inter> covered rest = {}" unfolding bpre by auto
          show ?thesis
          proof (cases "hi r < hi f")
            case lt: True
            have nx: "free_next it = (Ok (Some pre), it1\<lparr>res_iter := rest, current_fragment := Some tl\<rparr>)"
              using tf dw False True lt pre(1) tl(1) starts ends by (simp add: free_next.simps [of it])
            have "{lo f..<hi f} - {lo r..<hi r} = {lo f..<lo r} \<union> {hi r..<hi f}"
              using True lt notafter r(4) by auto
            then have "bytes_of f - bytes_of r = bytes_of pre \<union> bytes_of tl"
              using tl(2) [OF lt] unfolding bpre by (simp add: bytes_of_def)
            from diff_split [OF this Fr prerest]
            have fb': "free_bytes it = bytes_of pre \<union> (covered (tl # ?F) - covered rest)"
              unfolding fb Cons covered_Cons .
            have ab: "hi pre \<le> p" if "p \<in> covered (tl # ?F)" for p
            proof -
              from that have "hi r \<le> p \<or> hi f \<le> p"
                using tl(2) [OF lt] Fabove [of p] by (auto simp: bytes_of_def)
              then show ?thesis using notafter lo_le_hi [of r] pre(3) by linarith
            qed
            have fr: "frags (it1\<lparr>res_iter := rest, current_fragment := Some tl\<rparr>) = tl # ?F"
              by (simp add: frags_def)
            have "proper pre" using pre True by (simp add: proper_def)
            from next_ok_SomeI [OF nx fr _ septl(1) [OF lt] r(2) septl(2) [OF lt] this fb' ab]
            show ?thesis using lenrest t(1) by simp
          next
            case ge: False
            have nx: "free_next it = (Ok (Some pre), it1\<lparr>res_iter := rest\<rparr>)"
              using tf dw False True ge pre(1) starts ends by (simp add: free_next.simps [of it])
            have "bytes_of f - bytes_of r = bytes_of pre \<union> {}"
              using True ge notafter unfolding bpre by (auto simp: bytes_of_def)
            from diff_split [OF this Fr prerest]
            have fb': "free_bytes it = bytes_of pre \<union> (covered ?F - covered rest)"
              unfolding fb Cons covered_Cons by simp
            have ab: "hi pre \<le> p" if "p \<in> covered ?F" for p
              using Fabove [OF that] notafter pre(3) by linarith
            have fr: "frags (it1\<lparr>res_iter := rest\<rparr>) = ?F" using t(2) by (simp add: frags_def)
            have "proper pre" using pre True by (simp add: proper_def)
            from next_ok_SomeI [OF nx fr _ F(1) r(2) nsrest this fb' ab]
            show ?thesis using lenrest t(1) by simp
          qed
        next
          case nlt: False
          show ?thesis
          proof (cases "hi r < hi f")
            case lt: True
            let ?it = "it1\<lparr>res_iter := rest, current_fragment := Some tl\<rparr>"
            have nx: "free_next it = free_next ?it"
              using tf dw False nlt lt tl(1) starts ends by (simp add: free_next.simps [of it])
            have inv': "iter_inv ?it" using septl [OF lt] r(2) by (simp add: iter_inv_def frags_def)
            have "bytes_of f - bytes_of r = {} \<union> bytes_of tl"
              using tl(2) [OF lt] nlt lt r(4) by (auto simp: bytes_of_def)
            from diff_split [OF this Fr, of "covered rest"]
            have "bytes_of f \<union> covered ?F - (bytes_of r \<union> covered rest) =
                (bytes_of tl \<union> covered ?F) - covered rest" by simp
            then have eq: "free_bytes it = free_bytes ?it"
              unfolding fb Cons by (simp add: free_bytes_def frags_def)
            have "next_ok ?it (free_next ?it)"
              using "1.IH"(2) [OF tf refl dw] False nlt lt starts ends tl(1) inv' by simp
            from next_ok_weaken [OF this eq] show ?thesis
              unfolding nx using lenrest t(1) by (simp add: frags_def [of ?it])
          next
            case ge: False
            let ?it = "it1\<lparr>res_iter := rest\<rparr>"
            have nx: "free_next it = free_next ?it"
              using tf dw False nlt ge starts ends by (simp add: free_next.simps [of it])
            have inv': "iter_inv ?it" using F(1) nsrest r(2) t(2) by (simp add: iter_inv_def frags_def)
            have "bytes_of f - bytes_of r = {} \<union> {}" using nlt ge by (auto simp: bytes_of_def)
            from diff_split [OF this Fr, of "covered rest"]
            have "bytes_of f \<union> covered ?F - (bytes_of r \<union> covered rest) =
                covered ?F - covered rest" by simp
            then have eq: "free_bytes it = free_bytes ?it"
              unfolding fb Cons using t(2) by (simp add: free_bytes_def frags_def)
            have "next_ok ?it (free_next ?it)"
              using "1.IH"(1) [OF tf refl dw] False nlt ge starts ends inv' by simp
            from next_ok_weaken [OF this eq] show ?thesis
              unfolding nx using lenrest t(1,2) by (simp add: frags_def [of ?it])
          qed
        qed
      qed
    qed
  qed
qed
lemma free_collect_ok:
  "iter_inv it \<Longrightarrow> \<exists>xs. free_collect it = Some (Ok xs) \<and> covered xs = free_bytes it \<and>
     sorted_wrt (\<lambda>a b. hi a \<le> lo b) xs \<and> (\<forall>x\<in>set xs. proper x)"
proof (induction "2 * length (res_iter it) + length (frags it)" arbitrary: it rule: less_induct)
  case less
  note ok = free_next_ok [OF less.prems]
  obtain o' it' where nx: "free_next it = (o', it')" by fastforce
  then consider "o' = Ok None" | r where "o' = Ok (Some r)"
    using ok by (auto simp: next_ok_def split: outcome.splits option.splits)
  then show ?case
  proof cases
    case 1
    then show ?thesis using ok nx by (simp add: free_collect.simps [of it] next_ok_def)
  next
    case (2 r)
    have n: "iter_inv it'" "proper r" "free_bytes it = bytes_of r \<union> free_bytes it'"
      "\<forall>p\<in>free_bytes it'. hi r \<le> p"
      "2 * length (res_iter it') + length (frags it') < 2 * length (res_iter it) + length (frags it)"
      using ok nx 2 by (simp_all add: next_ok_def)
    obtain xs where xs: "free_collect it' = Some (Ok xs)" "covered xs = free_bytes it'"
      "sorted_wrt (\<lambda>a b. hi a \<le> lo b) xs" "\<forall>x\<in>set xs. proper x"
      using less.hyps [OF n(5,1)] by blast
    have "hi r \<le> lo x" if "x \<in> set xs" for x
    proof -
      have "lo x \<in> covered xs" using that xs(4) by (auto simp: covered_def bytes_of_def proper_def)
      then show ?thesis using n(4) xs(2) by simp
    qed
    moreover have "free_collect it = Some (Ok (r # xs))"
      using nx 2 xs(1) by (simp add: free_collect.simps [of it])
    ultimately show ?thesis using xs n(2,3) by simp
  qed
qed

lemma iter_free_inv:
  "smalloc_inv s \<Longrightarrow> no_straddle (regions (memory s)) (regions (res s)) \<Longrightarrow> iter_inv (iter_free s)"
  by (simp add: iter_inv_def iter_free_def frags_def smalloc_inv_def rl_ok_def)

section \<open>Properties\<close>

text \<open>C22. Inserting a region keeps a region list sorted and separated, never fails while there is
  room, and the list then covers exactly the old bytes and the new ones.\<close>

theorem insert_region_correct:
  assumes "rl_ok rl" "proper r" "length (regions rl) < unat (rl_max rl)"
  shows "\<exists>rl'. insert_region rl r = Ok rl' \<and> rl_ok rl' \<and>
     covered (regions rl') = covered (regions rl) \<union> bytes_of r"
  using rl_insert_ok [OF assms] by blast

theorem insert_region_correct_witness:
  "let rl = \<lparr>regions = [new_region 0x1000 0x100, new_region 0x1200 0x100], rl_max = 4,
             regions_ptr = 0\<rparr>; r = new_region 0x1100 0x100
   in rl_ok rl \<and> proper r \<and> (\<exists>rl'. insert_region rl r = Ok rl' \<and> rl_ok rl' \<and>
        covered (regions rl') = covered (regions rl) \<union> bytes_of r)"
proof -
  let ?rl = "\<lparr>regions = [new_region 0x1000 0x100, new_region 0x1200 0x100], rl_max = 4,
             regions_ptr = 0\<rparr>" and ?r = "new_region 0x1100 0x100"
  have h: "rl_ok ?rl" "proper ?r" "length (regions ?rl) < unat (rl_max ?rl)"
    by (simp_all add: rl_ok_def sep_def proper_def wf_region_def)
  show ?thesis using insert_region_correct [OF h] h by (simp add: Let_def)
qed

text \<open>C21. Allocation. With room in the reservation list, \<open>alloc\<close> returns an aligned block
  inside a memory region and outside every reservation, and reserves exactly that block; it
  reports \<open>NoMemory\<close> only when no such block exists, and then changes nothing.\<close>

theorem alloc_correct:
  assumes "smalloc_inv s" "alloc_fits s n al" "\<not> requires_reallocation (res s)"
  shows "(\<exists>a s'. alloc T s n al = (Ok a, s') \<and> free_pos s n al (unat a) \<and> smalloc_inv s' \<and>
            memory s' = memory s \<and> reserved s' = reserved s \<union> {unat a..<unat a + unat n}) \<or>
         (alloc T s n al = (Err NoMemory, s) \<and> (\<forall>p. \<not> free_pos s n al p))"
  using alloc_no_growth [OF assms] .

definition example_smalloc :: smalloc where
  "example_smalloc =
     \<lparr>memory = \<lparr>regions = [new_region 0x1000 0x4000], rl_max = 16, regions_ptr = 0x100\<rparr>,
      res = \<lparr>regions = [new_region 0x1000 0x800, new_region 0x2000 0x1000], rl_max = 16,
             regions_ptr = 0x200\<rparr>,
      permit_region_realloc = False\<rparr>"

lemma example_smalloc_ok:
  "smalloc_inv example_smalloc" "\<not> requires_reallocation (res example_smalloc)"
  by (simp_all add: example_smalloc_def smalloc_inv_def rl_ok_def sep_def proper_def wf_region_def
      requires_reallocation_def rl_count_def)

theorem alloc_correct_witness:
  "(\<exists>a s'. alloc IdentityTranslator example_smalloc 0x1000 0x1000 = (Ok a, s') \<and>
            free_pos example_smalloc 0x1000 0x1000 (unat a) \<and> smalloc_inv s' \<and>
            memory s' = memory example_smalloc \<and>
            reserved s' = reserved example_smalloc \<union> {unat a..<unat a + unat (0x1000 :: usize)}) \<or>
         (alloc IdentityTranslator example_smalloc 0x1000 0x1000 = (Err NoMemory, example_smalloc) \<and>
          (\<forall>p. \<not> free_pos example_smalloc 0x1000 0x1000 p))"
proof -
  have "alloc_fits example_smalloc 0x1000 0x1000"
    using PAGE_SIZE_pow2
    by (simp add: alloc_fits_def example_smalloc_def alloc_bounded_def PAGE_SIZE_def)
  then show ?thesis using alloc_correct [OF example_smalloc_ok(1) _ example_smalloc_ok(2)] by blast
qed

text \<open>C23. With room in the reservation list, \<open>free\<close> of a block inside one reservation removes
  exactly that block from the reserved bytes, splitting the reservation if needed; a block that
  no reservation contains is refused and nothing changes.\<close>

theorem free_correct:
  assumes "smalloc_inv s" "0 < unat n" "unat a + unat n < 2 ^ 64"
    "\<not> requires_reallocation (res s)"
  shows "if \<exists>r\<in>set (regions (res s)). {unat a..<unat a + unat n} \<subseteq> bytes_of r
     then \<exists>s'. free T s a n = (Ok (), s') \<and> smalloc_inv s' \<and> memory s' = memory s \<and>
            reserved s' = reserved s - {unat a..<unat a + unat n}
     else free T s a n = (Err NoMemRegion, s)"
  using free_no_growth [OF assms, of MAX_GROWTHS T] by (auto simp: free_def split: if_splits)

theorem free_correct_witness:
  "\<exists>s'. free IdentityTranslator example_smalloc 0x2400 0x400 = (Ok (), s') \<and>
     reserved s' = reserved example_smalloc - {0x2400..<0x2800}"
proof -
  have "\<exists>r\<in>set (regions (res example_smalloc)).
      {unat (0x2400 :: usize)..<unat (0x2400 :: usize) + unat (0x400 :: usize)} \<subseteq> bytes_of r"
    by (simp add: example_smalloc_def bytes_of_def)
  then show ?thesis
    using free_correct [of example_smalloc "0x400" "0x2400" IdentityTranslator] example_smalloc_ok
    by auto
qed

text \<open>C25. When no reservation straddles two memory regions, draining the free-memory iterator ends
  without a panic and yields, in increasing order, non-empty pieces that cover exactly the
  memory that is not reserved.\<close>

theorem iter_free_correct:
  assumes "smalloc_inv s" "no_straddle (regions (memory s)) (regions (res s))"
  shows "\<exists>xs. free_collect (iter_free s) = Some (Ok xs) \<and>
     covered xs = covered (regions (memory s)) - reserved s \<and>
     sorted_wrt (\<lambda>a b. hi a \<le> lo b) xs \<and> (\<forall>x\<in>set xs. proper x)"
  using free_collect_ok [OF iter_free_inv [OF assms]]
  by (simp add: free_bytes_def iter_free_def frags_def)

theorem iter_free_correct_witness:
  "\<exists>xs. free_collect (iter_free example_smalloc) = Some (Ok xs) \<and>
     covered xs = covered (regions (memory example_smalloc)) - reserved example_smalloc"
proof -
  have "no_straddle (regions (memory example_smalloc)) (regions (res example_smalloc))"
    by (simp add: no_straddle_def example_smalloc_def)
  then show ?thesis using iter_free_correct [OF example_smalloc_ok(1)] by blast
qed

definition straddled_smalloc :: smalloc where
  "straddled_smalloc =
     \<lparr>memory = \<lparr>regions = [new_region 0x1000 0x1000, new_region 0x3000 0x1000], rl_max = 16,
                regions_ptr = 0\<rparr>,
      res = \<lparr>regions = [new_region 0x1800 0x2000], rl_max = 16, regions_ptr = 0\<rparr>,
      permit_region_realloc = False\<rparr>"

text \<open>The iterator drops a reservation once it has cut the memory region in front of it, so a
  reservation that reaches into the next memory region is lost: here the second half of the
  reserved range is reported free.\<close>

theorem iter_free_straddling_reservation:
  "smalloc_inv straddled_smalloc \<and>
   (\<exists>xs. free_collect (iter_free straddled_smalloc) = Some (Ok xs) \<and>
      covered xs \<inter> reserved straddled_smalloc \<noteq> {})"
proof -
  have "free_collect (iter_free straddled_smalloc) =
      Some (Ok [new_region 0x1000 0x800, new_region 0x3000 0x1000])"
    by (simp add: straddled_smalloc_def iter_free_def free_collect.simps free_next.simps
        take_fragment_def new_region_def is_before_def is_after_def start_address_def
        end_address_def from_start_end_address_def)
  moreover have "0x3000 \<in> covered [new_region 0x1000 0x800, new_region 0x3000 0x1000]"
    "0x3000 \<in> reserved straddled_smalloc"
    by (simp_all add: straddled_smalloc_def bytes_of_def)
  moreover have "smalloc_inv straddled_smalloc"
    by (simp add: straddled_smalloc_def smalloc_inv_def rl_ok_def sep_def proper_def wf_region_def)
  ultimately show ?thesis by blast
qed

text \<open>C24. Growing the reservation list under the identity translation, with sizes and addresses that do not wrap. It
  succeeds exactly when growing is permitted and memory for a list of twice the capacity is free;
  otherwise it fails with \<open>NoMemory\<close> and the allocator is unchanged. On success the new buffer was free memory and
  is reserved afterwards, the capacity doubles, and no reservation is lost apart from the old
  buffer's own bytes.\<close>

theorem grow_region_list_correct:
  assumes "smalloc_inv s" "32 * unat (rl_max (res s)) < 2 ^ 64"
    "alloc_fits s (rl_max (res s) * 2 * SIZE_OF_REGION) ALIGN_OF_REGION"
    "unat (regions_ptr (res s)) + 16 * unat (rl_max (res s)) < 2 ^ 64"
  shows "if permit_region_realloc s \<and> (\<exists>p. free_pos s (rl_max (res s) * 2 * SIZE_OF_REGION) ALIGN_OF_REGION p)
     then \<exists>s'. grow_region_list IdentityTranslator s Res = (Ok (), s') \<and> smalloc_inv s' \<and>
       free_pos s (rl_max (res s) * 2 * SIZE_OF_REGION) ALIGN_OF_REGION
         (unat (regions_ptr (res s'))) \<and>
       unat (rl_max (res s')) = 2 * unat (rl_max (res s)) \<and> memory s' = memory s \<and>
       reserved s - {unat (regions_ptr (res s))..<
           unat (regions_ptr (res s)) + 16 * unat (rl_max (res s))}
         \<subseteq> reserved s' \<and>
       {unat (regions_ptr (res s'))..<
           unat (regions_ptr (res s')) + 32 * unat (rl_max (res s))} \<subseteq> reserved s'
     else grow_region_list IdentityTranslator s Res = (Err NoMemory, s)"
proof -
  have fuel: "MAX_GROWTHS = Suc 65" by (simp add: MAX_GROWTHS_def)
  show ?thesis
  proof (cases "permit_region_realloc s")
    case True
    show ?thesis
      using grow_identity [OF assms(1) True assms(2-4), of 65] True unfolding grow_region_list_def fuel
      by (fastforce split: if_splits)
  next
    case False
    then have "grow_fuel (Suc n) IdentityTranslator s Res = (Err NoMemory, s)" for n by (simp add: grow_fuel.simps)
    from this [of 65] show ?thesis using False unfolding grow_region_list_def fuel by simp
  qed
qed

definition full_smalloc :: smalloc where
  "full_smalloc =
     \<lparr>memory = \<lparr>regions = [new_region 0x1000 0x4000], rl_max = 16, regions_ptr = 0x100\<rparr>,
      res = \<lparr>regions = [new_region 0x2000 0x100, new_region 0x3000 0x100], rl_max = 3,
             regions_ptr = 0x200\<rparr>,
      permit_region_realloc = True\<rparr>"

lemma pow2_8: "is_power_of_two (8 :: usize)"
  using is_power_of_two_exp [of 3, where 'a = 64] by simp

lemma full_smalloc_inv: "smalloc_inv full_smalloc"
  by (simp add: full_smalloc_def smalloc_inv_def rl_ok_def sep_def proper_def wf_region_def)

theorem grow_region_list_correct_witness:
  "\<exists>s'. grow_region_list IdentityTranslator full_smalloc Res = (Ok (), s') \<and>
     reserved full_smalloc \<subseteq> reserved s' \<and> unat (rl_max (res s')) = 6"
proof -
  have "alloc_fits full_smalloc (rl_max (res full_smalloc) * 2 * SIZE_OF_REGION) ALIGN_OF_REGION"
    using pow2_8 by (simp add: alloc_fits_def full_smalloc_def alloc_bounded_def SIZE_OF_REGION_def
        ALIGN_OF_REGION_def)
  moreover have "reserved full_smalloc - {unat (regions_ptr (res full_smalloc))..<
      unat (regions_ptr (res full_smalloc)) + 16 * unat (rl_max (res full_smalloc))} =
      reserved full_smalloc"
    by (auto simp: full_smalloc_def bytes_of_def)
  moreover have "free_pos full_smalloc (rl_max (res full_smalloc) * 2 * SIZE_OF_REGION) ALIGN_OF_REGION 0x1000"
    by (auto simp: free_pos_def free_at_pos_def full_smalloc_def SIZE_OF_REGION_def ALIGN_OF_REGION_def
        bytes_of_def new_region_def lo_def hi_def)
  moreover have "32 * unat (rl_max (res full_smalloc)) < 2 ^ 64" "unat (rl_max (res full_smalloc)) = 3"
    "unat (regions_ptr (res full_smalloc)) + 16 * unat (rl_max (res full_smalloc)) < 2 ^ 64"
    "permit_region_realloc full_smalloc" by (simp_all add: full_smalloc_def)
  ultimately show ?thesis using grow_region_list_correct [OF full_smalloc_inv] by (auto split: if_splits)
qed

lemmas smalloc_eval =
  start_address_def end_address_def new_region_def contains_def overlaps_def merge_def
  requires_reallocation_def rl_count_def SIZE_OF_REGION_def ALIGN_OF_REGION_def
  res_insert_def insert_region_def merge_scan.simps insert_nth_def delete_nth_def
  free_at_def st_then_def Let_def

lemma full_find: "find_allocation_location full_smalloc 96 8 = Ok (Some 0x1000)"
  using pow2_8 by (simp add: full_smalloc_def find_allocation_location_def alloc_scan.simps
    skip_reservations.simps align_up_def smalloc_eval)

text \<open>\<open>free\<close> looks the index of the reservation up before it grows the list, and growing may
  move the entries: here freeing the block at \<open>0x3000\<close> reports success, leaves that block
  reserved and drops the reservation at \<open>0x2000\<close> instead.\<close>

theorem free_stale_index:
  "\<exists>s'. smalloc_inv full_smalloc \<and>
     free IdentityTranslator full_smalloc 0x3000 0x100 = (Ok (), s') \<and>
     {0x3000..<0x3100} \<subseteq> reserved s' \<and> {0x2000..<0x2100} \<subseteq> reserved full_smalloc \<and>
     {0x2000..<0x2100} \<inter> reserved s' = {}"
proof -
  let ?s = "full_smalloc\<lparr>res := \<lparr>regions = [new_region 0x1000 96, new_region 0x3000 0x100],
             rl_max = 6, regions_ptr = 0x1000\<rparr>\<rparr>"
  have "free IdentityTranslator full_smalloc 0x3000 0x100 = (Ok (), ?s)"
    using full_find
    by (simp add: free_def MAX_GROWTHS_def free_fuel.simps grow_fuel.simps(2) [of 65, simplified]
        full_smalloc_def IdentityTranslator_def smalloc_eval)
  moreover have "{0x3000..<0x3100} \<subseteq> reserved ?s" "{0x2000..<0x2100} \<subseteq> reserved full_smalloc"
    "{0x2000..<0x2100} \<inter> reserved ?s = {}"
    by (auto simp: bytes_of_def full_smalloc_def)
  ultimately show ?thesis using full_smalloc_inv by blast
qed

text \<open>\<open>grow_region_list\<close> reserves the virtual address of the new list buffer instead of its
  physical one. Under the page-offset translation the kernel uses, the next block handed out is
  the memory that now holds the reservation list.\<close>

theorem grow_reserves_virtual_address:
  "\<exists>s'. alloc (PageOffsetTranslator 0xffff000000000000) full_smalloc 64 8 = (Ok 0x1000, s') \<and>
     regions_ptr (res s') = phys_to_virt (PageOffsetTranslator 0xffff000000000000) 0x1000"
proof -
  let ?T = "PageOffsetTranslator 0xffff000000000000"
  let ?s = "full_smalloc\<lparr>res := \<lparr>regions = [new_region 0x2000 0x100, new_region 0x3000 0x100,
      new_region 0xffff000000001000 96], rl_max = 6, regions_ptr = 0xffff000000001000\<rparr>\<rparr>"
  have g: "grow_region_list ?T full_smalloc Res = (Ok (), ?s)"
    using full_find
    by (simp add: grow_region_list_def MAX_GROWTHS_def free_fuel.simps
        grow_fuel.simps(2) [of 65, simplified] full_smalloc_def PageOffsetTranslator_def smalloc_eval)
  have "find_allocation_location ?s 64 8 = Ok (Some 0x1000)"
    using pow2_8 by (simp add: full_smalloc_def find_allocation_location_def alloc_scan.simps
      skip_reservations.simps align_up_def smalloc_eval)
  then have "alloc ?T full_smalloc 64 8 = (Ok 0x1000, ?s\<lparr>res := (res ?s)\<lparr>regions :=
      new_region 0x1000 64 # regions (res ?s)\<rparr>\<rparr>)"
    using g by (simp add: alloc_def full_smalloc_def smalloc_eval)
  then show ?thesis by (simp add: PageOffsetTranslator_def)
qed
end
