(* ===== verification/FrameAlloc.thy ===== *)
theory FrameAlloc
  imports Smalloc
begin

text \<open>
  The buddy allocator for physical frames: \<open>libkernel/src/memory/page_alloc.rs\<close>.

  The free lists are intrusive linked lists of an external crate. They are a parameter: a
  record of the four operations the code calls, over an abstract list type, with elements
  identified by the index of the frame in the metadata slice (the pointer the code pushes).
  The locale \<open>frame_list\<close> states the documented behaviour the allocator relies on. The model
  makes every slice access, assertion and list removal that can panic explicit.
\<close>

section \<open>Data\<close>

definition MAX_ORDER :: nat where "MAX_ORDER = 10"

record allocated_info =
  ref_count :: u32
  al_order :: u8

datatype frame_state =
    Uninitialized | Free u8 | AllocatedHead allocated_info | AllocatedTail usize
  | Reserved | Kernel

record frame =
  fr_state :: frame_state
  fr_pfn :: usize

definition new_frame :: "usize \<Rightarrow> frame" where
  "new_frame pfn = \<lparr>fr_state = Uninitialized, fr_pfn = pfn\<rparr>"

record 'l list_ops =
  ll_new :: 'l
  ll_push_front :: "nat \<Rightarrow> 'l \<Rightarrow> 'l"
  ll_pop_front :: "'l \<Rightarrow> (nat \<times> 'l) option"
  ll_remove :: "nat \<Rightarrow> 'l \<Rightarrow> 'l option"

record 'l frame_allocator =
  pages :: "frame list"
  base_page :: usize
  total_pages :: usize
  free_pages :: usize
  free_lists :: "'l list"

section \<open>Frames and free lists\<close>

definition pfn_to_slice_index :: "'l frame_allocator \<Rightarrow> usize \<Rightarrow> nat outcome" where
  "pfn_to_slice_index fa pfn =
     (if pfn \<ge> base_page fa
      then let offset = unat (pfn - base_page fa)
           in if offset < length (pages fa) then Ok offset else Panic
      else Panic)"

definition get_frame :: "'l frame_allocator \<Rightarrow> usize \<Rightarrow> frame outcome" where
  "get_frame fa pfn = and_then (pfn_to_slice_index fa pfn) (\<lambda>i. Ok (pages fa ! i))"

text \<open>\<open>self.pages[i].state = st\<close> and \<open>self.get_frame_mut(pfn).state = st\<close>.\<close>

definition put_state :: "'l frame_allocator \<Rightarrow> nat \<Rightarrow> frame_state \<Rightarrow> 'l frame_allocator" where
  "put_state fa i st = fa\<lparr>pages := (pages fa)[i := (pages fa ! i)\<lparr>fr_state := st\<rparr>]\<rparr>"

definition set_state ::
  "'l frame_allocator \<Rightarrow> usize \<Rightarrow> frame_state \<Rightarrow> 'l frame_allocator outcome" where
  "set_state fa pfn st = and_then (pfn_to_slice_index fa pfn) (\<lambda>i. Ok (put_state fa i st))"

definition add_to_free_list ::
  "'l list_ops \<Rightarrow> 'l frame_allocator \<Rightarrow> usize \<Rightarrow> nat \<Rightarrow> 'l frame_allocator outcome" where
  "add_to_free_list L fa pfn order =
     (if order < length (free_lists fa)
      then and_then (pfn_to_slice_index fa pfn) (\<lambda>i.
             Ok (fa\<lparr>free_lists := (free_lists fa)
                      [order := ll_push_front L i (free_lists fa ! order)]\<rparr>))
      else Panic)"

definition remove_from_free_list ::
  "'l list_ops \<Rightarrow> 'l frame_allocator \<Rightarrow> usize \<Rightarrow> nat \<Rightarrow> 'l frame_allocator outcome" where
  "remove_from_free_list L fa pfn order =
     (if order < length (free_lists fa)
      then and_then (pfn_to_slice_index fa pfn) (\<lambda>i.
             case ll_remove L i (free_lists fa ! order) of
               None \<Rightarrow> Panic
             | Some l \<Rightarrow>
                 set_state (fa\<lparr>free_lists := (free_lists fa)[order := l]\<rparr>) pfn Uninitialized)
      else Panic)"

section \<open>Freeing\<close>

text \<open>The \<open>for order in initial_order..MAX_ORDER\<close> loop of \<open>free_frames\<close>; returning stands for
  \<open>break\<close>.\<close>

function merge_buddies ::
  "'l list_ops \<Rightarrow> 'l frame_allocator \<Rightarrow> usize \<Rightarrow> nat \<Rightarrow> nat \<Rightarrow>
   ('l frame_allocator \<times> usize \<times> nat) outcome" where
  "merge_buddies L fa current_pfn merged_order order =
     (if order < MAX_ORDER
      then let buddy_pfn = buddy current_pfn order
           in if buddy_pfn < base_page fa \<or> buddy_pfn \<ge> base_page fa + total_pages fa
              then Ok (fa, current_pfn, merged_order)
              else and_then (get_frame fa buddy_pfn) (\<lambda>fr.
                if (case fr_state fr of Free buddy_order \<Rightarrow> unat buddy_order = order
                    | _ \<Rightarrow> False)
                then and_then (remove_from_free_list L fa buddy_pfn order) (\<lambda>fa'.
                       merge_buddies L fa' (min current_pfn buddy_pfn) (Suc merged_order)
                         (Suc order))
                else Ok (fa, current_pfn, merged_order))
      else Ok (fa, current_pfn, merged_order))"
  by pat_completeness auto
termination
  by (relation "measure (\<lambda>(L, fa, c, m, order). MAX_ORDER - order)") auto

declare merge_buddies.simps [simp del]

definition free_frames ::
  "'l list_ops \<Rightarrow> 'l frame_allocator \<Rightarrow> region \<Rightarrow> 'l frame_allocator outcome" where
  "free_frames L fa rg =
     (let head_pfn = to_pfn (start_address rg) in
      and_then (get_frame fa head_pfn) (\<lambda>fr.
      case fr_state fr of
        AllocatedHead info \<Rightarrow>
          if ref_count info > 1
          then set_state fa head_pfn (AllocatedHead (info\<lparr>ref_count := ref_count info - 1\<rparr>))
          else
            let initial_order = unat (al_order info) in
            and_then (set_state fa head_pfn Uninitialized) (\<lambda>fa1.
            and_then (merge_buddies L fa1 head_pfn initial_order initial_order)
              (\<lambda>(fa2, current_pfn, merged_order).
            and_then (set_state fa2 current_pfn (Free (of_nat merged_order))) (\<lambda>fa3.
            and_then (add_to_free_list L fa3 current_pfn merged_order) (\<lambda>fa4.
            Ok (fa4\<lparr>free_pages := free_pages fa4 + push_bit initial_order 1\<rparr>)))))
      | _ \<Rightarrow> Panic))"

text \<open>\<open>PageAllocation::clone\<close> and its \<open>Drop\<close>.\<close>

definition clone_allocation ::
  "'l frame_allocator \<Rightarrow> region \<Rightarrow> 'l frame_allocator outcome" where
  "clone_allocation fa rg =
     (let pfn = to_pfn (start_address rg) in
      and_then (get_frame fa pfn) (\<lambda>fr.
      case fr_state fr of
        AllocatedHead info \<Rightarrow>
          set_state fa pfn (AllocatedHead (info\<lparr>ref_count := ref_count info + 1\<rparr>))
      | _ \<Rightarrow> Panic))"

definition drop_allocation ::
  "'l list_ops \<Rightarrow> 'l frame_allocator \<Rightarrow> region \<Rightarrow> 'l frame_allocator outcome" where
  "drop_allocation L fa rg = free_frames L fa rg"

section \<open>Allocating\<close>

text \<open>\<open>(requested_order..=MAX_ORDER).find_map(pop_front)\<close>. The outer \<open>None\<close> is an index outside
  the array of lists.\<close>

function find_block ::
  "'l list_ops \<Rightarrow> 'l frame_allocator \<Rightarrow> nat \<Rightarrow> (nat \<times> nat \<times> 'l frame_allocator) option outcome" where
  "find_block L fa order =
     (if order > MAX_ORDER then Ok None
      else if order \<ge> length (free_lists fa) then Panic
      else case ll_pop_front L (free_lists fa ! order) of
             Some (i, l) \<Rightarrow> Ok (Some (i, order, fa\<lparr>free_lists := (free_lists fa)[order := l]\<rparr>))
           | None \<Rightarrow> find_block L fa (Suc order))"
  by pat_completeness auto
termination
  by (relation "measure (\<lambda>(L, fa, order). Suc MAX_ORDER - order)") auto

declare find_block.simps [simp del]

text \<open>\<open>while current_order > requested_order\<close>: hand the upper half back to the next lower list.\<close>

fun split_block ::
  "'l list_ops \<Rightarrow> 'l frame_allocator \<Rightarrow> usize \<Rightarrow> nat \<Rightarrow> nat \<Rightarrow> 'l frame_allocator outcome" where
  "split_block L fa block_pfn 0 requested = Ok fa"
| "split_block L fa block_pfn (Suc current) requested =
     (if Suc current > requested
      then let b = buddy block_pfn current in
           and_then (set_state fa b (Free (of_nat current))) (\<lambda>fa1.
           and_then (add_to_free_list L fa1 b current) (\<lambda>fa2.
           split_block L fa2 block_pfn current requested))
      else Ok fa)"

text \<open>\<open>for i in 1..num_pages_in_block\<close>: mark the tail frames.\<close>

fun mark_tails ::
  "'l frame_allocator \<Rightarrow> nat \<Rightarrow> usize \<Rightarrow> nat list \<Rightarrow> 'l frame_allocator outcome" where
  "mark_tails fa idx head [] = Ok fa"
| "mark_tails fa idx head (i # is) =
     (if idx + i < length (pages fa)
      then mark_tails (put_state fa (idx + i) (AllocatedTail head)) idx head is
      else Panic)"

definition alloc_frames ::
  "'l list_ops \<Rightarrow> 'l frame_allocator \<Rightarrow> u8 \<Rightarrow> region outcome \<times> 'l frame_allocator" where
  "alloc_frames L fa order =
     (let requested_order = unat order in
      if requested_order > MAX_ORDER then (Err InvalidValue, fa)
      else case find_block L fa requested_order of
        Ok None \<Rightarrow> (Err NoMemory, fa)
      | Ok (Some (blk, current_order, fa1)) \<Rightarrow>
          let num_pages_in_block = push_bit requested_order (1 :: usize) in
          (case
             and_then (if blk < length (pages fa1)
                       then Ok (fr_pfn (pages fa1 ! blk)) else Panic) (\<lambda>block_pfn.
             and_then (set_state fa1 block_pfn Uninitialized) (\<lambda>fa2.
             and_then (split_block L fa2 block_pfn current_order requested_order) (\<lambda>fa3.
             and_then (pfn_to_slice_index fa3 block_pfn) (\<lambda>pfn_idx.
             and_then (mark_tails
                 (put_state fa3 pfn_idx
                    (AllocatedHead \<lparr>ref_count = 1, al_order = of_nat requested_order\<rparr>))
                 pfn_idx block_pfn [1..<unat num_pages_in_block]) (\<lambda>fa4.
             Ok (new_region (pa block_pfn) (push_bit PAGE_SHIFT num_pages_in_block),
                 fa4\<lparr>free_pages := free_pages fa4 - num_pages_in_block\<rparr>)))))) of
             Ok (rg, fa') \<Rightarrow> (Ok rg, fa')
           | Err e \<Rightarrow> (Err e, fa1) | Panic \<Rightarrow> (Panic, fa1) | Diverge \<Rightarrow> (Diverge, fa1))
      | Err e \<Rightarrow> (Err e, fa) | Panic \<Rightarrow> (Panic, fa) | Diverge \<Rightarrow> (Diverge, fa))"

section \<open>Queries\<close>

definition is_allocated :: "'l frame_allocator \<Rightarrow> usize \<Rightarrow> bool outcome" where
  "is_allocated fa pfn =
     and_then (get_frame fa pfn) (\<lambda>fr.
       Ok (case fr_state fr of AllocatedHead _ \<Rightarrow> True | AllocatedTail _ \<Rightarrow> True | _ \<Rightarrow> False))"

text \<open>The loop of \<open>is_allocated_exclusive\<close> follows tail frames to their head.\<close>

partial_function (option) is_allocated_exclusive ::
  "'l frame_allocator \<Rightarrow> usize \<Rightarrow> bool outcome option" where
  "is_allocated_exclusive fa pfn =
     (case get_frame fa pfn of
        Ok fr \<Rightarrow> (case fr_state fr of
            AllocatedTail head \<Rightarrow> is_allocated_exclusive fa head
          | AllocatedHead info \<Rightarrow> Some (Ok (ref_count info = 1))
          | _ \<Rightarrow> Some (Ok False))
      | Err e \<Rightarrow> Some (Err e) | Panic \<Rightarrow> Some Panic | Diverge \<Rightarrow> Some Diverge)"

section \<open>Initialisation\<close>

text \<open>The loop over the frames of one reservation.\<close>

fun mark_kernel :: "'l frame_allocator \<Rightarrow> usize list \<Rightarrow> 'l frame_allocator outcome" where
  "mark_kernel fa [] = Ok fa"
| "mark_kernel fa (pfn # ps) =
     and_then (if pfn \<ge> base_page fa \<and> pfn < base_page fa + total_pages fa
               then set_state fa pfn Kernel else Ok fa) (\<lambda>fa1. mark_kernel fa1 ps)"

text \<open>The \<open>while\<close> loop over the maximal blocks of one free region; \<open>fuel\<close> bounds the number of
  blocks, which the distance to \<open>end_pfn\<close> does too.\<close>

fun add_blocks ::
  "nat \<Rightarrow> 'l list_ops \<Rightarrow> 'l frame_allocator \<Rightarrow> usize \<Rightarrow> usize \<Rightarrow> 'l frame_allocator outcome" where
  "add_blocks 0 L fa current_pfn end_pfn = Diverge"
| "add_blocks (Suc fuel) L fa current_pfn end_pfn =
     (if current_pfn + push_bit MAX_ORDER 1 \<le> end_pfn
      then and_then (set_state fa current_pfn (Free (of_nat MAX_ORDER))) (\<lambda>fa1.
           and_then (add_to_free_list L fa1 current_pfn MAX_ORDER) (\<lambda>fa2.
           add_blocks fuel L (fa2\<lparr>free_pages := free_pages fa2 + push_bit MAX_ORDER 1\<rparr>)
             (current_pfn + push_bit MAX_ORDER 1) end_pfn))
      else Ok fa)"

definition align_free_region :: "region \<Rightarrow> region outcome" where
  "align_free_region rg =
     and_then (align_up (start_address rg) (push_bit (MAX_ORDER + 12) 1)) (\<lambda>a.
       Ok (with_start_address rg a))"

definition add_free_region ::
  "'l list_ops \<Rightarrow> 'l frame_allocator \<Rightarrow> region \<Rightarrow> 'l frame_allocator outcome" where
  "add_free_region L fa rg =
     and_then (align_free_region rg) (\<lambda>rg'.
       add_blocks (Suc (unat (to_pfn (end_address rg')))) L fa (to_pfn (start_address rg'))
         (to_pfn (end_address rg')))"

fun add_free_regions ::
  "'l list_ops \<Rightarrow> 'l frame_allocator \<Rightarrow> region list \<Rightarrow> 'l frame_allocator outcome" where
  "add_free_regions L fa [] = Ok fa"
| "add_free_regions L fa (rg # rs) =
     and_then (add_free_region L fa rg) (\<lambda>fa1. add_free_regions L fa1 rs)"

text \<open>\<open>size_of::<Frame>()\<close> and \<open>align_of::<Frame>()\<close> are chosen by the compiler: parameters.\<close>

definition init ::
  "usize \<Rightarrow> usize \<Rightarrow> translator \<Rightarrow> 'l list_ops \<Rightarrow> smalloc \<Rightarrow> 'l frame_allocator outcome" where
  "init size_of_Frame align_of_Frame T L s =
     (if regions (memory s) = [] then Panic
      else
        let highest_addr = Max (set (map end_address (regions (memory s))));
            lowest_addr = Min (set (map start_address (regions (memory s))));
            total = drop_bit PAGE_SHIFT (highest_addr - lowest_addr)
        in case alloc T s (total * size_of_Frame) align_of_Frame of
          (Ok metadata_addr, s1) \<Rightarrow>
            let fa = \<lparr>pages = map (\<lambda>i. new_frame (to_pfn lowest_addr + of_nat i)) [0..<unat total],
                      base_page = to_pfn lowest_addr, total_pages = total, free_pages = 0,
                      free_lists = replicate (Suc MAX_ORDER) (ll_new L)\<rparr>
            in and_then (mark_kernel fa (concat (map iter_pfns (regions (res s1))))) (\<lambda>fa1.
               case free_collect (iter_free s1) of
                 None \<Rightarrow> Diverge
               | Some r \<Rightarrow> and_then r (add_free_regions L fa1))
        | (Err e, _) \<Rightarrow> Panic | (Panic, _) \<Rightarrow> Panic | (Diverge, _) \<Rightarrow> Diverge)"

section \<open>Buddies\<close>

lemma buddy_xor: "buddy p k = p XOR 2 ^ k"
  by (simp add: buddy_def push_bit_eq_mult)

lemma unat_xor_exp:
  assumes "k < 63" "unat (p :: usize) < 2 ^ 63"
  shows "unat (p XOR 2 ^ k) = (if odd (unat p div 2 ^ k) then unat p - 2 ^ k else unat p + 2 ^ k)"
proof -
  have bitk: "bit p k \<longleftrightarrow> odd (unat p div 2 ^ k)"
    using bit_iff_odd [of "unat p" k] by (simp add: bit_unsigned_iff)
  have k2: "unat (2 ^ k :: usize) = 2 ^ k" using assms(1) by (simp add: unat_exp)
  show ?thesis
  proof (cases "bit p k")
    case True
    have "(p XOR 2 ^ k) + 2 ^ k = (p XOR 2 ^ k) OR 2 ^ k"
      using True by (subst disjunctive_add) (auto simp: bit_simps)
    also have "\<dots> = p" using True by (intro bit_word_eqI) (auto simp: bit_simps)
    finally have "(p XOR 2 ^ k) + 2 ^ k = p" .
    then have "p XOR 2 ^ k = p - 2 ^ k" by (metis add_diff_cancel_right')
    moreover have "2 ^ k \<le> unat p"
      using True bitk by (metis div_less even_zero not_le)
    ultimately show ?thesis using True bitk k2 by (simp add: unat_sub_usize)
  next
    case False
    then have "p XOR 2 ^ k = p OR 2 ^ k" by (intro bit_word_eqI) (auto simp: bit_simps)
    also have "\<dots> = p + 2 ^ k" using False
      by (subst disjunctive_add) (auto simp: bit_simps)
    finally have "p XOR 2 ^ k = p + 2 ^ k" .
    moreover have "(2 :: nat) ^ k < 2 ^ 63" using assms(1) by (rule power_strict_increasing) simp
    ultimately show ?thesis using False bitk k2 assms(2) by (simp add: unat_add_usize)
  qed
qed
section \<open>The invariant\<close>

abbreviation st :: "'l frame_allocator \<Rightarrow> nat \<Rightarrow> frame_state" where
  "st fa i \<equiv> fr_state (pages fa ! i)"

abbreviation pfn_of :: "'l frame_allocator \<Rightarrow> nat \<Rightarrow> usize" where
  "pfn_of fa i \<equiv> base_page fa + of_nat i"

definition blk :: "nat \<Rightarrow> nat \<Rightarrow> nat set" where
  "blk i k = {i..<i + 2 ^ k}"

definition free_block :: "'l frame_allocator \<Rightarrow> nat \<Rightarrow> nat \<Rightarrow> bool" where
  "free_block fa i k \<longleftrightarrow> i < length (pages fa) \<and> (\<exists>ord. st fa i = Free ord \<and> unat ord = k)"

definition allocated_block :: "'l frame_allocator \<Rightarrow> nat \<Rightarrow> nat \<Rightarrow> bool" where
  "allocated_block fa i k \<longleftrightarrow>
     i < length (pages fa) \<and> (\<exists>info. st fa i = AllocatedHead info \<and> unat (al_order info) = k)"

definition block :: "'l frame_allocator \<Rightarrow> nat \<Rightarrow> nat \<Rightarrow> bool" where
  "block fa i k \<longleftrightarrow> free_block fa i k \<or> allocated_block fa i k"

definition fa_wf :: "'l frame_allocator \<Rightarrow> bool" where
  "fa_wf fa \<longleftrightarrow> unat (base_page fa) + length (pages fa) < 2 ^ 52 \<and>
     unat (total_pages fa) = length (pages fa) \<and> length (free_lists fa) = Suc MAX_ORDER \<and>
     (\<forall>i<length (pages fa). fr_pfn (pages fa ! i) = pfn_of fa i)"

text \<open>\<open>H\<close> is the set of frames an operation has taken out of the blocks and not yet put back.\<close>

definition blocks_ok :: "'l frame_allocator \<Rightarrow> nat set \<Rightarrow> bool" where
  "blocks_ok fa H \<longleftrightarrow>
     (\<forall>i k. block fa i k \<longrightarrow> k \<le> MAX_ORDER \<and> 2 ^ k dvd unat (base_page fa) + i \<and>
        i + 2 ^ k \<le> length (pages fa) \<and> blk i k \<inter> H = {}) \<and>
     (\<forall>i k j l. block fa i k \<and> block fa j l \<and> i \<noteq> j \<longrightarrow> blk i k \<inter> blk j l = {}) \<and>
     (\<forall>i k j. allocated_block fa i k \<and> 0 < j \<and> j < 2 ^ k \<longrightarrow>
        st fa (i + j) = AllocatedTail (pfn_of fa i))"

definition lists_ok :: "('l \<Rightarrow> nat list) \<Rightarrow> 'l frame_allocator \<Rightarrow> bool" where
  "lists_ok \<alpha> fa \<longleftrightarrow> (\<forall>k\<le>MAX_ORDER. distinct (\<alpha> (free_lists fa ! k)) \<and>
     set (\<alpha> (free_lists fa ! k)) = {i. free_block fa i k})"

definition free_set :: "'l frame_allocator \<Rightarrow> nat set" where
  "free_set fa = (\<Union>(i, k) \<in> {(i, k). free_block fa i k}. blk i k)"

definition allocated_set :: "'l frame_allocator \<Rightarrow> nat set" where
  "allocated_set fa = (\<Union>(i, k) \<in> {(i, k). allocated_block fa i k}. blk i k)"

definition buddy_inv :: "('l \<Rightarrow> nat list) \<Rightarrow> 'l frame_allocator \<Rightarrow> nat set \<Rightarrow> bool" where
  "buddy_inv \<alpha> fa H \<longleftrightarrow> fa_wf fa \<and> blocks_ok fa H \<and> lists_ok \<alpha> fa"

lemma st_put_state [simp]:
  "i < length (pages fa) \<Longrightarrow> st (put_state fa i s) j = (if j = i then s else st fa j)"
  by (simp add: put_state_def nth_list_update)

lemma put_state_simps [simp]:
  "length (pages (put_state fa i s)) = length (pages fa)"
  "base_page (put_state fa i s) = base_page fa" "total_pages (put_state fa i s) = total_pages fa"
  "free_pages (put_state fa i s) = free_pages fa" "free_lists (put_state fa i s) = free_lists fa"
  by (simp_all add: put_state_def)

lemma fa_wf_put_state [simp]: "fa_wf (put_state fa i s) = fa_wf fa"
  by (cases "i < length (pages fa)")
     (auto simp: fa_wf_def put_state_def nth_list_update list_update_beyond)

lemma unat_pfn_of:
  assumes "fa_wf fa" "i \<le> length (pages fa)"
  shows "unat (pfn_of fa i) = unat (base_page fa) + i"
proof -
  have "unat (base_page fa) + i < 2 ^ 52" using assms by (simp add: fa_wf_def)
  then have "unat (of_nat i :: usize) = i" by (simp add: unat_of_nat)
  then show ?thesis using \<open>unat (base_page fa) + i < 2 ^ 52\<close> by (simp add: unat_add_usize)
qed

lemma slice_index_pfn_of:
  assumes "fa_wf fa" "i < length (pages fa)"
  shows "pfn_to_slice_index fa (pfn_of fa i) = Ok i"
proof -
  have u: "unat (pfn_of fa i) = unat (base_page fa) + i" using assms by (simp add: unat_pfn_of)
  then have "unat (pfn_of fa i - base_page fa) = i" by (subst unat_sub_usize) simp_all
  then show ?thesis using assms u by (simp add: pfn_to_slice_index_def word_le_nat_alt Let_def)
qed

lemma get_frame_pfn_of:
  "fa_wf fa \<Longrightarrow> i < length (pages fa) \<Longrightarrow> get_frame fa (pfn_of fa i) = Ok (pages fa ! i)"
  by (simp add: get_frame_def slice_index_pfn_of)

lemma set_state_pfn_of:
  "fa_wf fa \<Longrightarrow> i < length (pages fa) \<Longrightarrow> set_state fa (pfn_of fa i) s = Ok (put_state fa i s)"
  by (simp add: set_state_def slice_index_pfn_of)

lemma pfn_of_unique:
  assumes "fa_wf fa" "unat (base_page fa) \<le> unat p" "unat p < unat (base_page fa) + length (pages fa)"
  shows "p = pfn_of fa (unat p - unat (base_page fa))"
  using assms by (intro word_unat_eq_iff [THEN iffD2]) (simp add: unat_pfn_of)

text \<open>Blocks after a state update.\<close>

lemma free_block_put:
  "i < length (pages fa) \<Longrightarrow> free_block (put_state fa i s) j k \<longleftrightarrow>
   (if j = i then (\<exists>ord. s = Free ord \<and> unat ord = k) else free_block fa j k)"
  by (auto simp: free_block_def)

lemma allocated_block_put:
  "i < length (pages fa) \<Longrightarrow> allocated_block (put_state fa i s) j k \<longleftrightarrow>
   (if j = i then (\<exists>info. s = AllocatedHead info \<and> unat (al_order info) = k)
    else allocated_block fa j k)"
  by (auto simp: allocated_block_def)

lemma blk_simps:
  "blk i k \<noteq> {}" "i \<in> blk i k" "finite (blk i k)" "card (blk i k) = 2 ^ k"
  by (auto simp: blk_def)

lemma blk_Suc: "blk i (Suc k) = blk i k \<union> blk (i + 2 ^ k) k" "blk i k \<inter> blk (i + 2 ^ k) k = {}"
  by (auto simp: blk_def)

text \<open>A block is determined by its first frame.\<close>

lemma free_block_unique: "free_block fa i k \<Longrightarrow> block fa i l \<Longrightarrow> k = l"
  by (auto simp: free_block_def block_def allocated_block_def)

lemma allocated_block_unique: "allocated_block fa i k \<Longrightarrow> block fa i l \<Longrightarrow> k = l"
  by (auto simp: free_block_def block_def allocated_block_def)

lemma block_start_in_H: "blocks_ok fa H \<Longrightarrow> block fa j l \<Longrightarrow> j \<notin> H"
  using blk_simps(2) [of j l] by (auto simp: blocks_ok_def)

abbreviation with_list :: "'l frame_allocator \<Rightarrow> nat \<Rightarrow> 'l \<Rightarrow> 'l frame_allocator" where
  "with_list fa k l \<equiv> fa\<lparr>free_lists := (free_lists fa)[k := l]\<rparr>"

lemma free_lists_irrelevant [simp]:
  "free_block (fa\<lparr>free_lists := ls\<rparr>) i k = free_block fa i k"
  "allocated_block (fa\<lparr>free_lists := ls\<rparr>) i k = allocated_block fa i k"
  "block (fa\<lparr>free_lists := ls\<rparr>) i k = block fa i k"
  "blocks_ok (fa\<lparr>free_lists := ls\<rparr>) H = blocks_ok fa H"
  "free_set (fa\<lparr>free_lists := ls\<rparr>) = free_set fa"
  "put_state (fa\<lparr>free_lists := ls\<rparr>) i s = (put_state fa i s)\<lparr>free_lists := ls\<rparr>"
  by (simp_all add: free_block_def allocated_block_def block_def blocks_ok_def free_set_def
      put_state_def)

lemma fa_wf_with_list [simp]: "fa_wf (with_list fa k l) = fa_wf fa"
  by (simp add: fa_wf_def)

lemma blocks_okD:
  assumes "blocks_ok fa H" "block fa i k"
  shows "k \<le> MAX_ORDER" "2 ^ k dvd unat (base_page fa) + i" "i + 2 ^ k \<le> length (pages fa)"
    "blk i k \<inter> H = {}" "i < length (pages fa)"
  using assms by (auto simp: blocks_ok_def block_def free_block_def allocated_block_def)

lemma blocks_disjoint:
  "blocks_ok fa H \<Longrightarrow> block fa i k \<Longrightarrow> block fa j l \<Longrightarrow> i \<noteq> j \<Longrightarrow> blk i k \<inter> blk j l = {}"
  unfolding blocks_ok_def by blast

lemma tails_okD:
  "blocks_ok fa H \<Longrightarrow> allocated_block fa i k \<Longrightarrow> 0 < j \<Longrightarrow> j < 2 ^ k \<Longrightarrow>
   st fa (i + j) = AllocatedTail (pfn_of fa i)"
  unfolding blocks_ok_def by blast

lemma blocks_okI:
  assumes "\<And>i k. block fa i k \<Longrightarrow> k \<le> MAX_ORDER \<and> 2 ^ k dvd unat (base_page fa) + i \<and>
        i + 2 ^ k \<le> length (pages fa) \<and> blk i k \<inter> H = {}"
    "\<And>i k j l. block fa i k \<Longrightarrow> block fa j l \<Longrightarrow> i \<noteq> j \<Longrightarrow> blk i k \<inter> blk j l = {}"
    "\<And>i k j. allocated_block fa i k \<Longrightarrow> 0 < j \<Longrightarrow> j < 2 ^ k \<Longrightarrow>
        st fa (i + j) = AllocatedTail (pfn_of fa i)"
  shows "blocks_ok fa H"
  using assms unfolding blocks_ok_def by blast

text \<open>Taking a block out.\<close>

lemma block_take:
  "i < length (pages fa) \<Longrightarrow> block (put_state fa i Uninitialized) j l \<longleftrightarrow> j \<noteq> i \<and> block fa j l"
  by (auto simp: block_def free_block_put allocated_block_put)

lemma blocks_ok_take:
  assumes "blocks_ok fa H" "block fa i k"
  shows "blocks_ok (put_state fa i Uninitialized) (H \<union> blk i k)"
proof -
  note d = blocks_okD [OF assms]
  show ?thesis
  proof (rule blocks_okI)
    fix j l assume b: "block (put_state fa i Uninitialized) j l"
    then have "j \<noteq> i" "block fa j l" using d(5) by (simp_all add: block_take)
    moreover from this have "blk j l \<inter> blk i k = {}" using blocks_disjoint assms by metis
    ultimately show "l \<le> MAX_ORDER \<and> 2 ^ l dvd unat (base_page (put_state fa i Uninitialized)) + j \<and>
        j + 2 ^ l \<le> length (pages (put_state fa i Uninitialized)) \<and> blk j l \<inter> (H \<union> blk i k) = {}"
      using blocks_okD [OF assms(1), of j l] by auto
  next
    fix j l m n assume "block (put_state fa i Uninitialized) j l"
      "block (put_state fa i Uninitialized) m n" "j \<noteq> m"
    then show "blk j l \<inter> blk m n = {}"
      using blocks_disjoint [OF assms(1)] d(5) by (simp add: block_take)
  next
    fix j l t assume a: "allocated_block (put_state fa i Uninitialized) j l" "0 < t" "t < (2::nat) ^ l"
    then have j: "j \<noteq> i" "allocated_block fa j l" using d(5) by (auto simp: allocated_block_put split: if_splits)
    have "j + t \<in> blk j l" using a by (simp add: blk_def)
    moreover have "blk j l \<inter> blk i k = {}"
      using blocks_disjoint [OF assms(1) _ assms(2)] j by (auto simp: block_def)
    ultimately have "j + t \<noteq> i" using blk_simps(2) [of i k] by blast
    then show "st (put_state fa i Uninitialized) (j + t) =
        AllocatedTail (pfn_of (put_state fa i Uninitialized) j)"
      using tails_okD [OF assms(1) j(2) a(2,3)] d(5) by simp
  qed
qed

text \<open>Putting a free block into the hole.\<close>

lemma not_block_in_hole: "blocks_ok fa H \<Longrightarrow> i \<in> H \<Longrightarrow> \<not> block fa i k"
  using block_start_in_H by blast

lemma unat_order: "k \<le> MAX_ORDER \<Longrightarrow> unat (of_nat k :: u8) = k"
  by (simp add: MAX_ORDER_def unat_of_nat)

lemma free_block_give:
  assumes "i < length (pages fa)" "k \<le> MAX_ORDER"
  shows "free_block (put_state fa i (Free (of_nat k))) j l \<longleftrightarrow>
    (if j = i then l = k else free_block fa j l)"
  using assms by (auto simp: free_block_put unat_order)

lemma allocated_block_give:
  assumes "i < length (pages fa)" "\<And>l. \<not> block fa i l"
  shows "allocated_block (put_state fa i (Free ord)) j l \<longleftrightarrow> allocated_block fa j l"
  using assms by (auto simp: allocated_block_put block_def)

lemma blocks_ok_give:
  assumes "blocks_ok fa H" "blk i k \<subseteq> H" "k \<le> MAX_ORDER" "2 ^ k dvd unat (base_page fa) + i"
    "i + 2 ^ k \<le> length (pages fa)"
  shows "blocks_ok (put_state fa i (Free (of_nat k))) (H - blk i k)"
proof -
  let ?fa = "put_state fa i (Free (of_nat k))"
  have i: "i < length (pages fa)" using assms(5) by (metis add_lessD1 le_neq_implies_less less_add_same_cancel1 nat_zero_less_power_iff zero_less_numeral)
  have nb: "\<not> block fa i l" for l
    using not_block_in_hole [OF assms(1)] assms(2) blk_simps(2) by blast
  have blk: "block ?fa j l \<longleftrightarrow> (if j = i then l = k else block fa j l)" for j l
    using nb [of l] free_block_give [OF i assms(3), of j l]
      allocated_block_give [OF i nb, of "of_nat k" j l] by (auto simp: block_def)
  have dis: "blk j l \<inter> blk i k = {}" if "block fa j l" for j l
    using blocks_okD(4) [OF assms(1) that] assms(2) by blast
  show ?thesis
  proof (rule blocks_okI)
    fix j l assume "block ?fa j l"
    then show "l \<le> MAX_ORDER \<and> 2 ^ l dvd unat (base_page ?fa) + j \<and>
        j + 2 ^ l \<le> length (pages ?fa) \<and> blk j l \<inter> (H - blk i k) = {}"
      using blocks_okD [OF assms(1), of j l] assms(3-5) by (auto simp: blk split: if_splits)
  next
    fix j l m n assume "block ?fa j l" "block ?fa m n" "j \<noteq> m"
    then show "blk j l \<inter> blk m n = {}"
      using blocks_disjoint [OF assms(1), of j l m n] dis by (auto simp: blk Int_commute split: if_splits)
  next
    fix j l t assume a: "allocated_block ?fa j l" "0 < t" "t < (2::nat) ^ l"
    then have j: "allocated_block fa j l" using i nb by (simp add: allocated_block_give)
    have "j + t \<in> blk j l" using a by (simp add: blk_def)
    then have "j + t \<noteq> i" using dis [of j l] j blk_simps(2) [of i k] by (auto simp: block_def)
    then show "st ?fa (j + t) = AllocatedTail (pfn_of ?fa j)"
      using tails_okD [OF assms(1) j a(2,3)] i by simp
  qed
qed

text \<open>The frames of the free blocks.\<close>

lemma in_free_set: "x \<in> free_set fa \<longleftrightarrow> (\<exists>j l. free_block fa j l \<and> x \<in> blk j l)"
  by (auto simp: free_set_def)

lemma free_set_take:
  assumes "blocks_ok fa H" "free_block fa i k"
  shows "free_set (put_state fa i Uninitialized) = free_set fa - blk i k"
proof -
  have i: "i < length (pages fa)" using assms(2) by (simp add: free_block_def)
  have dis: "x \<notin> blk i k" if "free_block fa j l" "j \<noteq> i" "x \<in> blk j l" for j l x
    using blocks_disjoint [OF assms(1), of j l i k] that assms(2) by (auto simp: block_def)
  have uniq: "j \<noteq> i" if "free_block fa j l" "x \<in> blk j l" "x \<notin> blk i k" for j l x
    using free_block_unique [of fa i k l] assms(2) that by (auto simp: block_def)
  have fb: "free_block (put_state fa i Uninitialized) j l \<longleftrightarrow> j \<noteq> i \<and> free_block fa j l" for j l
    using i by (auto simp: free_block_put)
  show ?thesis
  proof (rule set_eqI)
    fix x show "x \<in> free_set (put_state fa i Uninitialized) \<longleftrightarrow> x \<in> free_set fa - blk i k"
      unfolding in_free_set fb Diff_iff using dis [of _ _ x] uniq [of _ _ x] assms(2) by meson
  qed
qed

lemma free_set_give:
  assumes "i < length (pages fa)" "k \<le> MAX_ORDER" "\<And>l. \<not> block fa i l"
  shows "free_set (put_state fa i (Free (of_nat k))) = free_set fa \<union> blk i k"
proof -
  have "\<not> free_block fa i l" for l using assms(3) by (simp add: block_def)
  then show ?thesis
    using assms(1,2) by (fastforce simp: free_set_def free_block_give split: if_splits)
qed

lemma free_set_other:
  assumes "i < length (pages fa)" "\<And>l. \<not> free_block fa i l" "\<And>ord. s \<noteq> Free ord"
  shows "free_set (put_state fa i s) = free_set fa"
  using assms by (fastforce simp: free_set_def free_block_put split: if_splits)

lemma free_set_bounds:
  assumes "blocks_ok fa H"
  shows "free_set fa \<subseteq> {..<length (pages fa)}" "free_set fa \<inter> H = {}" "finite (free_set fa)"
proof -
  show sub: "free_set fa \<subseteq> {..<length (pages fa)}"
    using blocks_okD(3) [OF assms] by (fastforce simp: free_set_def block_def blk_def)
  show "free_set fa \<inter> H = {}"
    using blocks_okD(4) [OF assms] by (fastforce simp: free_set_def block_def)
  show "finite (free_set fa)" using sub finite_subset by blast
qed

lemma free_block_subset: "free_block fa i k \<Longrightarrow> blk i k \<subseteq> free_set fa"
  by (auto simp: free_set_def)

end
