(* ===== verification/FrameAllocProps.thy ===== *)
theory FrameAllocProps
  imports FrameAlloc
begin

text \<open>
  Correctness of the buddy allocator. The locale \<open>frame_list\<close> states what the intrusive list
  promises; inside it the steps of \<open>alloc_frames\<close> and \<open>free_frames\<close> are shown to move a block
  between the free lists, the hole an operation works on and the allocated blocks.
\<close>

section \<open>The intrusive list\<close>

locale frame_list =
  fixes L :: "'l list_ops" and \<alpha> :: "'l \<Rightarrow> nat list"
  assumes new_empty: "\<alpha> (ll_new L) = []"
    and push_front: "i \<notin> set (\<alpha> l) \<Longrightarrow> \<alpha> (ll_push_front L i l) = i # \<alpha> l"
    and pop_None: "ll_pop_front L l = None \<longleftrightarrow> \<alpha> l = []"
    and pop_Some: "ll_pop_front L l = Some (i, l') \<Longrightarrow> \<alpha> l = i # \<alpha> l'"
    and remove_Some: "distinct (\<alpha> l) \<Longrightarrow> i \<in> set (\<alpha> l) \<Longrightarrow>
      \<exists>l'. ll_remove L i l = Some l' \<and> \<alpha> l' = remove1 i (\<alpha> l)"

section \<open>Operations on blocks\<close>

definition same_pool :: "'l frame_allocator \<Rightarrow> 'l frame_allocator \<Rightarrow> bool" where
  "same_pool fa fa' \<longleftrightarrow> base_page fa' = base_page fa \<and> length (pages fa') = length (pages fa) \<and>
     total_pages fa' = total_pages fa"

lemma same_pool_trans [trans]: "same_pool a b \<Longrightarrow> same_pool b c \<Longrightarrow> same_pool a c"
  by (simp add: same_pool_def)

text \<open>The frame \<open>i\<close> becomes the head of a free block of order \<open>k\<close>, on the list of that order.\<close>

definition give_block :: "'l list_ops \<Rightarrow> 'l frame_allocator \<Rightarrow> nat \<Rightarrow> nat \<Rightarrow> 'l frame_allocator" where
  "give_block L fa i k =
     with_list (put_state fa i (Free (of_nat k))) k (ll_push_front L i (free_lists fa ! k))"

lemma give_block_run:
  assumes "fa_wf fa" "i < length (pages fa)" "k \<le> MAX_ORDER"
  shows "and_then (set_state fa (pfn_of fa i) (Free (of_nat k)))
           (\<lambda>fa1. and_then (add_to_free_list L fa1 (pfn_of fa i) k) g) = g (give_block L fa i k)"
  using assms slice_index_pfn_of [of "put_state fa i (Free (of_nat k))" i]
  by (simp add: set_state_pfn_of add_to_free_list_def give_block_def fa_wf_def [of fa])

lemma lists_ok_other:
  assumes "lists_ok \<alpha> fa" "\<And>j l. free_block fa' j l \<longleftrightarrow> free_block fa j l"
    "free_lists fa' = free_lists fa"
  shows "lists_ok \<alpha> fa'"
  using assms by (simp add: lists_ok_def)

lemma lists_ok_upd:
  assumes "lists_ok \<alpha> fa" "fa_wf fa" "distinct (\<alpha> l)" "k \<le> MAX_ORDER"
    "free_lists fa' = (free_lists fa)[k := l]" "set (\<alpha> l) = {i. free_block fa' i k}"
    "\<And>i m. m \<noteq> k \<Longrightarrow> free_block fa' i m \<longleftrightarrow> free_block fa i m"
  shows "lists_ok \<alpha> fa'"
  using assms by (auto simp: lists_ok_def fa_wf_def nth_list_update)

lemma start_less: "i + 2 ^ k \<le> (n :: nat) \<Longrightarrow> i < n"
  using zero_less_power [of "2 :: nat" k] by linarith

lemma free_is_block: "free_block fa i k \<Longrightarrow> block fa i k"
  by (simp add: block_def)

lemma allocated_is_block: "allocated_block fa i k \<Longrightarrow> block fa i k"
  by (simp add: block_def)

lemma fa_wf_free_lists [simp]:
  "length ls = length (free_lists fa) \<Longrightarrow> fa_wf (fa\<lparr>free_lists := ls\<rparr>) = fa_wf fa"
  by (simp add: fa_wf_def)

lemma give_block_simps [simp]:
  "same_pool fa (give_block L fa i k)" "free_pages (give_block L fa i k) = free_pages fa"
  "fa_wf (give_block L fa i k) = fa_wf fa"
  by (simp_all add: give_block_def same_pool_def)

lemma give_block_effect:
  assumes "blocks_ok fa H" "blk i k \<subseteq> H" "k \<le> MAX_ORDER" "i + 2 ^ k \<le> length (pages fa)"
  shows "free_block (give_block L fa i k) j l \<longleftrightarrow> free_block fa j l \<or> j = i \<and> l = k"
    "allocated_block (give_block L fa i k) j l \<longleftrightarrow> allocated_block fa j l"
    "free_set (give_block L fa i k) = free_set fa \<union> blk i k"
    "\<forall>j. j \<noteq> i \<longrightarrow> st (give_block L fa i k) j = st fa j"
proof -
  have i: "i < length (pages fa)" using assms(4) zero_less_power [of "2 :: nat" k] by linarith
  have nb: "\<not> block fa i l" for l
    using not_block_in_hole [OF assms(1)] assms(2) blk_simps(2) by blast
  have nf: "\<not> free_block fa i l" for l using nb [of l] by (simp add: block_def)
  show "free_block (give_block L fa i k) j l \<longleftrightarrow> free_block fa j l \<or> j = i \<and> l = k"
    using free_block_give [OF i assms(3), of j l] nf [of l] by (auto simp: give_block_def)
  show "allocated_block (give_block L fa i k) j l \<longleftrightarrow> allocated_block fa j l"
    using allocated_block_give [OF i nb] by (simp add: give_block_def)
  show "free_set (give_block L fa i k) = free_set fa \<union> blk i k"
    using free_set_give [OF i assms(3) nb] by (simp add: give_block_def)
  show "\<forall>j. j \<noteq> i \<longrightarrow> st (give_block L fa i k) j = st fa j"
    using i by (simp add: give_block_def)
qed

text \<open>The frame \<open>i\<close> stops being the head of a block.\<close>

lemma unlink_effect:
  assumes "blocks_ok fa H" "free_block fa i k"
    and fa'_def: "fa' = with_list (put_state fa i Uninitialized) k ls"
  shows "free_block fa' j l \<longleftrightarrow> free_block fa j l \<and> j \<noteq> i"
    "allocated_block fa' j l \<longleftrightarrow> allocated_block fa j l"
    "free_set fa' = free_set fa - blk i k" "same_pool fa fa'" "free_pages fa' = free_pages fa"
    "blocks_ok fa' (H \<union> blk i k)"
proof -
  have i: "i < length (pages fa)" using assms(2) by (simp add: free_block_def)
  show "free_block fa' j l \<longleftrightarrow> free_block fa j l \<and> j \<noteq> i"
    using i by (auto simp: fa'_def free_block_put)
  have "\<not> allocated_block fa i l" using assms(2) by (auto simp: free_block_def allocated_block_def)
  then show "allocated_block fa' j l \<longleftrightarrow> allocated_block fa j l"
    using i by (auto simp: fa'_def allocated_block_put)
  show "free_set fa' = free_set fa - blk i k"
    using free_set_take [OF assms(1,2)] by (simp add: fa'_def)
  show "same_pool fa fa'" "free_pages fa' = free_pages fa" by (simp_all add: fa'_def same_pool_def)
  show "blocks_ok fa' (H \<union> blk i k)"
    using blocks_ok_take [OF assms(1)] assms(2) by (simp add: fa'_def block_def)
qed

context frame_list
begin

lemma give_block_inv:
  assumes inv: "buddy_inv \<alpha> fa H" and blk: "blk i k \<subseteq> H" "k \<le> MAX_ORDER"
    "2 ^ k dvd unat (base_page fa) + i" "i + 2 ^ k \<le> length (pages fa)"
  shows "buddy_inv \<alpha> (give_block L fa i k) (H - blk i k)"
proof -
  have wf: "fa_wf fa" and bo: "blocks_ok fa H" and lo: "lists_ok \<alpha> fa"
    using inv by (auto simp: buddy_inv_def)
  let ?l = "free_lists fa ! k"
  note eff = give_block_effect [OF bo blk(1,2,4)]
  have "\<not> free_block fa i k" using not_block_in_hole [OF bo, of i k] blk(1) blk_simps(2) [of i k] free_is_block by blast
  then have push: "\<alpha> (ll_push_front L i ?l) = i # \<alpha> ?l" "i \<notin> set (\<alpha> ?l)"
    using lo blk(2) push_front [of i ?l] by (auto simp: lists_ok_def)
  have "lists_ok \<alpha> (give_block L fa i k)"
  proof (rule lists_ok_upd [OF lo wf _ blk(2)])
    show "distinct (\<alpha> (ll_push_front L i ?l))" using push lo blk(2) by (simp add: lists_ok_def)
    show "free_lists (give_block L fa i k) = (free_lists fa)[k := ll_push_front L i ?l]"
      by (simp add: give_block_def)
    show "set (\<alpha> (ll_push_front L i ?l)) = {j. free_block (give_block L fa i k) j k}"
      using push lo blk(2) by (auto simp: eff lists_ok_def)
    show "free_block (give_block L fa i k) j m = free_block fa j m" if "m \<noteq> k" for j m
      using that by (simp add: eff)
  qed
  then show ?thesis
    using wf blocks_ok_give [OF bo blk] by (simp add: buddy_inv_def give_block_def)
qed

lemma unlink_inv:
  assumes inv: "buddy_inv \<alpha> fa H" and fb: "free_block fa i k"
    and l: "distinct (\<alpha> l)" "set (\<alpha> l) = set (\<alpha> (free_lists fa ! k)) - {i}"
  shows "buddy_inv \<alpha> (with_list (put_state fa i Uninitialized) k l) (H \<union> blk i k)"
proof -
  have wf: "fa_wf fa" and bo: "blocks_ok fa H" and lo: "lists_ok \<alpha> fa"
    using inv by (auto simp: buddy_inv_def)
  have k: "k \<le> MAX_ORDER" using blocks_okD(1) [OF bo free_is_block [OF fb]] .
  note eff = unlink_effect [OF bo fb refl [of "with_list (put_state fa i Uninitialized) k l"]]
  have "lists_ok \<alpha> (with_list (put_state fa i Uninitialized) k l)"
  proof (rule lists_ok_upd [OF lo wf l(1) k])
    show "set (\<alpha> l) = {j. free_block (with_list (put_state fa i Uninitialized) k l) j k}"
      using l(2) lo k unfolding eff by (auto simp: lists_ok_def)
    show "free_block (with_list (put_state fa i Uninitialized) k l) j m = free_block fa j m"
      if "m \<noteq> k" for j m
      unfolding eff using that free_block_unique [OF fb, of m] by (auto simp: block_def)
  qed simp
  then show ?thesis using wf eff(6) by (simp add: buddy_inv_def)
qed

text \<open>Removing a known free block from its list.\<close>

lemma remove_from_free_list_run:
  assumes inv: "buddy_inv \<alpha> fa H" and fb: "free_block fa i k"
  shows "\<exists>l. remove_from_free_list L fa (pfn_of fa i) k =
      Ok (with_list (put_state fa i Uninitialized) k l) \<and>
    buddy_inv \<alpha> (with_list (put_state fa i Uninitialized) k l) (H \<union> blk i k)"
proof -
  have wf: "fa_wf fa" and bo: "blocks_ok fa H" and lo: "lists_ok \<alpha> fa"
    using inv by (auto simp: buddy_inv_def)
  have k: "k \<le> MAX_ORDER" "i < length (pages fa)"
    using blocks_okD(1,5) [OF bo] fb by (auto simp: block_def)
  have d: "distinct (\<alpha> (free_lists fa ! k))" "i \<in> set (\<alpha> (free_lists fa ! k))"
    using lo k(1) fb by (auto simp: lists_ok_def)
  obtain l where l: "ll_remove L i (free_lists fa ! k) = Some l"
    "\<alpha> l = remove1 i (\<alpha> (free_lists fa ! k))"
    using remove_Some [OF d] by blast
  have "remove_from_free_list L fa (pfn_of fa i) k =
      Ok (with_list (put_state fa i Uninitialized) k l)"
    using k wf l(1) set_state_pfn_of [of "with_list fa k l" i]
    by (simp add: remove_from_free_list_def slice_index_pfn_of fa_wf_def [of fa])
  then show ?thesis using unlink_inv [OF inv fb, of l] l(2) d by auto
qed

end

section \<open>Splitting\<close>

lemma buddy_upper:
  assumes "fa_wf fa" "2 ^ Suc k dvd unat (base_page fa) + i" "i + 2 ^ Suc k \<le> length (pages fa)"
    "k < MAX_ORDER"
  shows "buddy (pfn_of fa i) k = pfn_of fa (i + 2 ^ k)"
proof -
  have p: "unat (pfn_of fa i) = unat (base_page fa) + i"
    using assms by (intro unat_pfn_of) auto
  have lim: "unat (base_page fa) + length (pages fa) < 2 ^ 52" using assms(1) by (simp add: fa_wf_def)
  have "even (unat (pfn_of fa i) div 2 ^ k)"
    using assms(2) by (auto simp: p mult.assoc)
  then have "unat (buddy (pfn_of fa i) k) = unat (base_page fa) + i + 2 ^ k"
    using assms lim by (simp add: buddy_xor unat_xor_exp p MAX_ORDER_def)
  moreover have "unat (pfn_of fa (i + 2 ^ k)) = unat (base_page fa) + (i + 2 ^ k)"
    using assms by (intro unat_pfn_of) auto
  ultimately show ?thesis by (simp add: word_unat_eq_iff)
qed

lemma pool_pfn_of: "same_pool fa fa' \<Longrightarrow> pfn_of fa' i = pfn_of fa i"
  by (simp add: same_pool_def)

context frame_list
begin

text \<open>\<open>split_block\<close> reduces a hole of order \<open>c\<close> to its lower part of order \<open>r\<close>: the upper halves
  become free blocks of orders \<open>r .. c - 1\<close>.\<close>

lemma split_block_run:
  assumes "buddy_inv \<alpha> fa (blk i c)" "r \<le> c" "c \<le> MAX_ORDER"
    "2 ^ c dvd unat (base_page fa) + i" "i + 2 ^ c \<le> length (pages fa)"
  shows "\<exists>fa'. split_block L fa (pfn_of fa i) c r = Ok fa' \<and> buddy_inv \<alpha> fa' (blk i r) \<and>
    same_pool fa fa' \<and> free_pages fa' = free_pages fa \<and>
    (\<forall>j l. free_block fa' j l \<longleftrightarrow> free_block fa j l \<or> r \<le> l \<and> l < c \<and> j = i + 2 ^ l) \<and>
    (\<forall>j l. allocated_block fa' j l \<longleftrightarrow> allocated_block fa j l) \<and>
    free_set fa' = free_set fa \<union> (blk i c - blk i r)"
  using assms
proof (induction c arbitrary: fa)
  case 0
  then show ?case by (intro exI [of _ fa]) (simp add: same_pool_def)
next
  case (Suc c)
  show ?case
  proof (cases "r = Suc c")
    case True
    then show ?thesis using Suc.prems by (intro exI [of _ fa]) (auto simp: same_pool_def)
  next
    case False
    then have r: "r \<le> c" using Suc.prems(2) by simp
    have wf: "fa_wf fa" and bo: "blocks_ok fa (blk i (Suc c))"
      using Suc.prems(1) by (auto simp: buddy_inv_def)
    let ?u = "i + 2 ^ c"
    have bud: "buddy (pfn_of fa i) c = pfn_of fa ?u"
      using buddy_upper [OF wf Suc.prems(4,5)] Suc.prems(3) by simp
    have dv: "2 ^ c dvd unat (base_page fa) + i" "2 ^ c dvd unat (base_page fa) + ?u"
      using Suc.prems(4) by (auto simp: add.assoc [symmetric] dest: dvd_mult_right)
    have u: "blk ?u c \<subseteq> blk i (Suc c)" "c \<le> MAX_ORDER" "?u + 2 ^ c \<le> length (pages fa)"
      using blk_Suc(1) [of i c] Suc.prems(3,5) by auto
    then have ul: "?u < length (pages fa)" using start_less by blast
    define fa1 where "fa1 = give_block L fa ?u c"
    note run = give_block_run [OF wf ul u(2), of L, folded fa1_def]
    have hole: "blk i (Suc c) - blk ?u c = blk i c" using blk_Suc [of i c] by auto
    have inv1: "buddy_inv \<alpha> fa1 (blk i c)"
      using give_block_inv [OF Suc.prems(1) u(1,2) dv(2) u(3)] by (simp add: fa1_def hole)
    note eff = give_block_effect [OF bo u(1-3), of L, folded fa1_def]
    have sp: "same_pool fa fa1" "free_pages fa1 = free_pages fa" by (simp_all add: fa1_def)
    obtain fa' where fa': "split_block L fa1 (pfn_of fa1 i) c r = Ok fa'" "buddy_inv \<alpha> fa' (blk i r)"
      "same_pool fa1 fa'" "free_pages fa' = free_pages fa1"
      "\<forall>j l. free_block fa' j l \<longleftrightarrow> free_block fa1 j l \<or> r \<le> l \<and> l < c \<and> j = i + 2 ^ l"
      "\<forall>j l. allocated_block fa' j l \<longleftrightarrow> allocated_block fa1 j l"
      "free_set fa' = free_set fa1 \<union> (blk i c - blk i r)"
      using Suc.IH [OF inv1 r u(2)] dv(1) u(3) sp(1) by (auto simp: same_pool_def)
    have "split_block L fa (pfn_of fa i) (Suc c) r = Ok fa'"
      unfolding split_block.simps Let_def bud run using fa'(1) r sp(1) by (simp add: pool_pfn_of)
    moreover have "free_block fa' j l \<longleftrightarrow>
        free_block fa j l \<or> r \<le> l \<and> l < Suc c \<and> j = i + 2 ^ l" for j l
      using fa'(5) eff(1) [of j l] r by auto
    moreover have "blk i r \<subseteq> blk i c" using r by (auto simp: blk_def intro: order_less_le_trans)
    then have "free_set fa' = free_set fa \<union> (blk i (Suc c) - blk i r)"
      unfolding fa'(7) eff(3) using blk_Suc [of i c] by blast
    ultimately show ?thesis
      using fa'(2-4,6) sp eff(2) same_pool_trans by (intro exI [of _ fa']) auto
  qed
qed

end

section \<open>Allocating\<close>

lemma mark_tails_run:
  assumes "fa_wf fa" "\<forall>t\<in>set ts. i + t < length (pages fa)"
  shows "\<exists>fa'. mark_tails fa i p ts = Ok fa' \<and> fa_wf fa' \<and> same_pool fa fa' \<and>
    free_pages fa' = free_pages fa \<and> free_lists fa' = free_lists fa \<and>
    (\<forall>j. st fa' j = (if j \<in> (+) i ` set ts then AllocatedTail p else st fa j))"
  using assms
proof (induction ts arbitrary: fa)
  case Nil
  then show ?case by (simp add: same_pool_def)
next
  case (Cons t ts)
  let ?fa = "put_state fa (i + t) (AllocatedTail p)"
  obtain fa' where "mark_tails ?fa i p ts = Ok fa'" "fa_wf fa'" "same_pool ?fa fa'"
    "free_pages fa' = free_pages ?fa" "free_lists fa' = free_lists ?fa"
    "\<forall>j. st fa' j = (if j \<in> (+) i ` set ts then AllocatedTail p else st ?fa j)"
    using Cons.IH [of ?fa] Cons.prems by auto
  then show ?case using Cons.prems(2) by (intro exI [of _ fa']) (auto simp: same_pool_def)
qed

text \<open>The state of every frame of a hole is set: the hole becomes an allocated block.\<close>

lemma seal_effect:
  assumes bo: "blocks_ok fa (blk i k)" and k: "k \<le> MAX_ORDER" "i + 2 ^ k \<le> length (pages fa)"
    and sp: "same_pool fa fa'"
    and st: "\<forall>j. st fa' j = (if j = i then AllocatedHead info
                  else if j \<in> blk i k then AllocatedTail (pfn_of fa i) else st fa j)"
    and info: "unat (al_order info) = k"
  shows "free_block fa' j l \<longleftrightarrow> free_block fa j l"
    "allocated_block fa' j l \<longleftrightarrow> allocated_block fa j l \<or> j = i \<and> l = k"
proof -
  have nb: "\<not> block fa j l" if "j \<in> blk i k" for j l using not_block_in_hole [OF bo that] .
  have i: "i < length (pages fa)" "i \<in> blk i k" using k(2) start_less blk_simps(2) by blast+
  show "free_block fa' j l \<longleftrightarrow> free_block fa j l"
  proof (cases "j \<in> blk i k")
    case True
    then show ?thesis using st nb [OF True, of l] by (auto simp: free_block_def block_def)
  next
    case False
    then show ?thesis using st sp i(2) by (auto simp: free_block_def same_pool_def)
  qed
  show "allocated_block fa' j l \<longleftrightarrow> allocated_block fa j l \<or> j = i \<and> l = k"
  proof (cases "j \<in> blk i k")
    case True
    then show ?thesis
      using st nb [OF True, of l] sp i(1) info by (auto simp: allocated_block_def block_def same_pool_def)
  next
    case False
    then show ?thesis using st sp i(2) by (auto simp: allocated_block_def same_pool_def)
  qed
qed

lemma seal_inv:
  assumes inv: "buddy_inv \<alpha> fa (blk i k)" and k: "k \<le> MAX_ORDER" "i + 2 ^ k \<le> length (pages fa)"
      "2 ^ k dvd unat (base_page fa) + i"
    and wf': "fa_wf fa'" and sp: "same_pool fa fa'" and fl: "free_lists fa' = free_lists fa"
    and st: "\<forall>j. st fa' j = (if j = i then AllocatedHead info
                  else if j \<in> blk i k then AllocatedTail (pfn_of fa i) else st fa j)"
    and info: "unat (al_order info) = k"
  shows "buddy_inv \<alpha> fa' {}"
proof -
  have bo: "blocks_ok fa (blk i k)" and lo: "lists_ok \<alpha> fa" using inv by (auto simp: buddy_inv_def)
  note eff = seal_effect [OF bo k(1,2) sp st info]
  have blk: "block fa' j l \<longleftrightarrow> block fa j l \<or> j = i \<and> l = k" for j l
    by (auto simp: block_def eff)
  have dis: "blk j l \<inter> blk i k = {}" if "block fa j l" for j l
    using blocks_okD(4) [OF bo that] .
  have "blocks_ok fa' {}"
  proof (rule blocks_okI)
    fix j l assume "block fa' j l"
    then show "l \<le> MAX_ORDER \<and> 2 ^ l dvd unat (base_page fa') + j \<and>
        j + 2 ^ l \<le> length (pages fa') \<and> blk j l \<inter> {} = {}"
      using blocks_okD [OF bo, of j l] k sp by (auto simp: blk same_pool_def)
  next
    fix j l m n assume "block fa' j l" "block fa' m n" "j \<noteq> m"
    then show "blk j l \<inter> blk m n = {}"
      using blocks_disjoint [OF bo, of j l m n] dis [of j l] dis [of m n] by (auto simp: blk)
  next
    fix j l t assume a: "allocated_block fa' j l" "0 < t" "t < (2::nat) ^ l"
    then consider "j = i" "l = k" | "allocated_block fa j l" "j \<noteq> i"
      using eff(2) [of j l] not_block_in_hole [OF bo, of i] blk_simps(2) [of i k]
      by (auto simp: block_def)
    then show "st fa' (j + t) = AllocatedTail (pfn_of fa' j)"
    proof cases
      case 1
      then show ?thesis using st a sp by (simp add: blk_def same_pool_def)
    next
      case 2
      have "j + t \<in> blk j l" using a by (simp add: blk_def)
      then have "j + t \<notin> blk i k" using dis [OF allocated_is_block [OF 2(1)]] by blast
      then show ?thesis
        using st tails_okD [OF bo 2(1) a(2,3)] blk_simps(2) [of i k] sp
        by (auto simp: same_pool_def)
    qed
  qed
  then show ?thesis using wf' lists_ok_other [OF lo eff(1) fl] by (simp add: buddy_inv_def)
qed

context frame_list
begin

lemma find_block_run:
  assumes inv: "buddy_inv \<alpha> fa H"
  shows "find_block L fa r = Ok None \<and> (\<forall>i k. r \<le> k \<longrightarrow> \<not> free_block fa i k) \<or>
    (\<exists>i k l. find_block L fa r = Ok (Some (i, k, with_list fa k l)) \<and> r \<le> k \<and> free_block fa i k \<and>
       distinct (\<alpha> l) \<and> set (\<alpha> l) = set (\<alpha> (free_lists fa ! k)) - {i})"
proof (induction "Suc MAX_ORDER - r" arbitrary: r)
  case 0
  then have "\<not> free_block fa i k" if "r \<le> k" for i k
    using blocks_okD(1) [of fa H i k] free_is_block [of fa i k] inv that by (auto simp: buddy_inv_def)
  then show ?case using 0 by (simp add: find_block.simps [of L fa r])
next
  case (Suc n)
  then have r: "r \<le> MAX_ORDER" "\<not> r \<ge> length (free_lists fa)"
    using inv by (auto simp: buddy_inv_def fa_wf_def)
  have lo: "distinct (\<alpha> (free_lists fa ! r))" "set (\<alpha> (free_lists fa ! r)) = {i. free_block fa i r}"
    using inv r by (auto simp: buddy_inv_def lists_ok_def)
  show ?case
  proof (cases "ll_pop_front L (free_lists fa ! r)")
    case None
    then have none: "\<not> free_block fa i r" for i using lo(2) by (auto simp: pop_None)
    have step: "find_block L fa r = find_block L fa (Suc r)"
      using None r by (simp add: find_block.simps [of L fa r])
    have "n = Suc MAX_ORDER - Suc r" using Suc.hyps(2) by simp
    from Suc.hyps(1) [OF this] show ?thesis
    proof (elim disjE exE conjE)
      assume a: "find_block L fa (Suc r) = Ok None" "\<forall>i k. Suc r \<le> k \<longrightarrow> \<not> free_block fa i k"
      have "\<not> free_block fa i k" if "r \<le> k" for i k
        using a(2) none that by (cases "k = r") auto
      then show ?thesis using a(1) step by simp
    next
      fix i k l assume "find_block L fa (Suc r) = Ok (Some (i, k, with_list fa k l))" "Suc r \<le> k"
        "free_block fa i k" "distinct (\<alpha> l)" "set (\<alpha> l) = set (\<alpha> (free_lists fa ! k)) - {i}"
      then show ?thesis unfolding step
        by (intro disjI2 exI [of _ i] exI [of _ k] exI [of _ l]) simp
    qed
  next
    case (Some q)
    obtain i l where q: "q = (i, l)" by (cases q)
    have "\<alpha> (free_lists fa ! r) = i # \<alpha> l" using pop_Some Some q by simp
    then have "free_block fa i r" "distinct (\<alpha> l)" "set (\<alpha> l) = set (\<alpha> (free_lists fa ! r)) - {i}"
      using lo by auto
    then show ?thesis using Some q r by (auto simp: find_block.simps [of L fa r])
  qed
qed

end

text \<open>The counter is not part of the block structure.\<close>

lemma free_pages_irrelevant [simp]:
  "free_block (fa\<lparr>free_pages := n\<rparr>) i k = free_block fa i k"
  "allocated_block (fa\<lparr>free_pages := n\<rparr>) i k = allocated_block fa i k"
  "free_set (fa\<lparr>free_pages := n\<rparr>) = free_set fa"
  "buddy_inv \<alpha> (fa\<lparr>free_pages := n\<rparr>) H = buddy_inv \<alpha> fa H"
  by (simp_all add: free_block_def allocated_block_def free_set_def buddy_inv_def fa_wf_def
      blocks_ok_def lists_ok_def block_def)

lemma blk_mono: "r \<le> c \<Longrightarrow> blk i r \<subseteq> blk i c"
  using power_increasing [of r c "2 :: nat"] by (auto simp: blk_def)

text \<open>No two free blocks of the same order below \<open>MAX_ORDER\<close> are buddies.\<close>

definition coalesced :: "'l frame_allocator \<Rightarrow> bool" where
  "coalesced fa \<longleftrightarrow> (\<forall>i k. k < MAX_ORDER \<and> 2 ^ Suc k dvd unat (base_page fa) + i \<longrightarrow>
     \<not> (free_block fa i k \<and> free_block fa (i + 2 ^ k) k))"

definition allocator_inv :: "('l \<Rightarrow> nat list) \<Rightarrow> 'l frame_allocator \<Rightarrow> bool" where
  "allocator_inv \<alpha> fa \<longleftrightarrow> buddy_inv \<alpha> fa {} \<and> unat (free_pages fa) = card (free_set fa) \<and> coalesced fa"

lemma push_bit_order: "k \<le> MAX_ORDER \<Longrightarrow> unat (push_bit k 1 :: usize) = 2 ^ k"
  by (simp add: push_bit_eq_mult unat_exp MAX_ORDER_def)

lemma tails_image: "(+) i ` set [1..<2 ^ k] = blk i k - {i}"
proof -
  have "(+) i ` {1..<2 ^ k} = {i + 1..<i + 2 ^ k}" by (simp add: image_add_atLeastLessThan add.commute)
  then show ?thesis by (auto simp: blk_def)
qed

lemma coalesced_split:
  assumes "coalesced fa" "same_pool fa fa'" "c \<le> MAX_ORDER" "2 ^ c dvd unat (base_page fa) + i"
    and fb: "\<And>j l. free_block fa' j l \<longleftrightarrow> free_block fa j l \<and> j \<noteq> i \<or> r \<le> l \<and> l < c \<and> j = i + 2 ^ l"
  shows "coalesced fa'"
  unfolding coalesced_def
proof (intro allI impI notI; elim conjE)
  fix a k assume k: "k < MAX_ORDER" "2 ^ Suc k dvd unat (base_page fa') + a"
    and f: "free_block fa' a k" "free_block fa' (a + 2 ^ k) k"
  have b: "base_page fa' = base_page fa" using assms(2) by (simp add: same_pool_def)
  have nof: "\<not> free_block fa' i k" using fb [of i k] by auto
  consider "free_block fa a k" "free_block fa (a + 2 ^ k) k" | "r \<le> k" "k < c" "a = i + 2 ^ k"
    | "a = i"
    using f fb [of a k] fb [of "a + 2 ^ k" k] by auto
  then show False
  proof cases
    case 1
    then show False using assms(1) k b by (auto simp: coalesced_def)
  next
    case 2
    have "2 ^ Suc k dvd unat (base_page fa) + i"
      using 2(2) assms(4) by (meson Suc_leI dvd_trans le_imp_power_dvd)
    moreover have "2 ^ Suc k dvd unat (base_page fa) + i + 2 ^ k" using k(2) 2(3) b by (simp add: add.assoc)
    ultimately have "(2 :: nat) ^ Suc k dvd 2 ^ k" using dvd_add_right_iff by blast
    then show False by (simp add: power_dvd_imp_le dvd_imp_le)
  next
    case 3
    then show False using nof f(1) by simp
  qed
qed

context frame_list
begin

lemma carve_run:
  assumes inv: "buddy_inv \<alpha> fa {}" and ex: "r \<le> m" "free_block fa a m"
  shows "\<exists>i c l fa3. find_block L fa r = Ok (Some (i, c, with_list fa c l)) \<and>
    split_block L (with_list (put_state fa i Uninitialized) c l) (pfn_of fa i) c r = Ok fa3 \<and>
    buddy_inv \<alpha> fa3 (blk i r) \<and> same_pool fa fa3 \<and> free_pages fa3 = free_pages fa \<and>
    r \<le> c \<and> free_block fa i c \<and> free_set fa3 = free_set fa - blk i r \<and>
    (\<forall>j l. allocated_block fa3 j l \<longleftrightarrow> allocated_block fa j l) \<and>
    (\<forall>j l. free_block fa3 j l \<longleftrightarrow> free_block fa j l \<and> j \<noteq> i \<or> r \<le> l \<and> l < c \<and> j = i + 2 ^ l)"
proof -
  have bo: "blocks_ok fa {}" using inv by (auto simp: buddy_inv_def)
  obtain i c l where fnd: "find_block L fa r = Ok (Some (i, c, with_list fa c l))" "r \<le> c"
    "free_block fa i c" "distinct (\<alpha> l)" "set (\<alpha> l) = set (\<alpha> (free_lists fa ! c)) - {i}"
    using find_block_run [OF inv, of r] ex by blast
  note d = blocks_okD [OF bo free_is_block [OF fnd(3)]]
  define fa2 where "fa2 = with_list (put_state fa i Uninitialized) c l"
  have inv2: "buddy_inv \<alpha> fa2 (blk i c)" using unlink_inv [OF inv fnd(3-5)] by (simp add: fa2_def)
  note eff2 = unlink_effect [OF bo fnd(3) fa2_def]
  have sp2: "base_page fa2 = base_page fa" "length (pages fa2) = length (pages fa)"
    using eff2(4) by (auto simp: same_pool_def)
  obtain fa3 where fa3: "split_block L fa2 (pfn_of fa i) c r = Ok fa3" "buddy_inv \<alpha> fa3 (blk i r)"
    "same_pool fa2 fa3" "free_pages fa3 = free_pages fa2"
    "\<forall>j l. free_block fa3 j l \<longleftrightarrow> free_block fa2 j l \<or> r \<le> l \<and> l < c \<and> j = i + 2 ^ l"
    "\<forall>j l. allocated_block fa3 j l \<longleftrightarrow> allocated_block fa2 j l"
    "free_set fa3 = free_set fa2 \<union> (blk i c - blk i r)"
    using split_block_run [OF inv2 fnd(2) d(1)] d sp2 by auto
  have "blk i r \<subseteq> blk i c" using blk_mono [OF fnd(2)] .
  then have "free_set fa3 = free_set fa - blk i r"
    using free_block_subset [OF fnd(3)] unfolding fa3(7) eff2(3) by auto
  then show ?thesis
    using fnd(1-3) fa3(1-6) eff2(1,2,5) same_pool_trans [OF eff2(4) fa3(3)]
    by (intro exI [of _ i] exI [of _ c] exI [of _ l] exI [of _ fa3]) (simp add: fa2_def)
qed

text \<open>The frames of the hole are marked and the counter is updated.\<close>

lemma commit_run:
  assumes inv: "buddy_inv \<alpha> fa (blk i k)" and k: "k \<le> MAX_ORDER" "i + 2 ^ k \<le> length (pages fa)"
      "2 ^ k dvd unat (base_page fa) + i" and info: "unat (al_order info) = k"
  shows "\<exists>fa'. mark_tails (put_state fa i (AllocatedHead info)) i (pfn_of fa i) [1..<2 ^ k] = Ok fa' \<and>
    buddy_inv \<alpha> fa' {} \<and> same_pool fa fa' \<and> free_pages fa' = free_pages fa \<and>
    free_set fa' = free_set fa \<and> st fa' i = AllocatedHead info \<and>
    (\<forall>j l. allocated_block fa' j l \<longleftrightarrow> allocated_block fa j l \<or> j = i \<and> l = k) \<and>
    (\<forall>j l. free_block fa' j l \<longleftrightarrow> free_block fa j l)"
proof -
  have wf: "fa_wf fa" and bo: "blocks_ok fa (blk i k)" using inv by (auto simp: buddy_inv_def)
  let ?h = "put_state fa i (AllocatedHead info)"
  have il: "i < length (pages fa)" using start_less [OF k(2)] .
  obtain fa' where fa': "mark_tails ?h i (pfn_of fa i) [1..<2 ^ k] = Ok fa'" "fa_wf fa'"
    "same_pool ?h fa'" "free_pages fa' = free_pages ?h" "free_lists fa' = free_lists ?h"
    "\<forall>j. st fa' j = (if j \<in> blk i k - {i} then AllocatedTail (pfn_of fa i) else st ?h j)"
    using mark_tails_run [of ?h "[1..<2 ^ k]" i "pfn_of fa i"] wf k(2)
    unfolding tails_image by auto
  have sp: "same_pool fa fa'" using fa'(3) by (simp add: same_pool_def)
  have st': "\<forall>j. st fa' j = (if j = i then AllocatedHead info
      else if j \<in> blk i k then AllocatedTail (pfn_of fa i) else st fa j)"
    using fa'(6) il by simp
  note eff = seal_effect [OF bo k(1,2) sp st' info]
  have "buddy_inv \<alpha> fa' {}"
    using seal_inv [OF inv k fa'(2) sp _ st' info] fa'(5) by simp
  moreover have "free_set fa' = free_set fa" by (rule set_eqI) (simp add: in_free_set eff)
  ultimately show ?thesis using fa'(1,4) sp st' eff by (intro exI [of _ fa']) simp
qed

lemma alloc_frames_run:
  assumes inv: "buddy_inv \<alpha> fa {}" and r: "unat order \<le> MAX_ORDER"
    and ex: "unat order \<le> m" "free_block fa a m"
  shows "\<exists>fa' i c. alloc_frames L fa order =
      (Ok (new_region (pa (pfn_of fa i)) (push_bit PAGE_SHIFT (push_bit (unat order) 1))), fa') \<and>
    buddy_inv \<alpha> fa' {} \<and> same_pool fa fa' \<and>
    free_pages fa' = free_pages fa - push_bit (unat order) 1 \<and>
    unat order \<le> c \<and> free_block fa i c \<and> free_set fa' = free_set fa - blk i (unat order) \<and>
    st fa' i = AllocatedHead \<lparr>ref_count = 1, al_order = order\<rparr> \<and>
    (\<forall>j l. allocated_block fa' j l \<longleftrightarrow> allocated_block fa j l \<or> j = i \<and> l = unat order) \<and>
    (\<forall>j l. free_block fa' j l \<longleftrightarrow>
       free_block fa j l \<and> j \<noteq> i \<or> unat order \<le> l \<and> l < c \<and> j = i + 2 ^ l)"
proof -
  let ?r = "unat order" and ?info = "\<lparr>ref_count = 1, al_order = order\<rparr>"
  have wf: "fa_wf fa" and bo: "blocks_ok fa {}" using inv by (auto simp: buddy_inv_def)
  obtain i c l fa3 where c: "find_block L fa ?r = Ok (Some (i, c, with_list fa c l))"
    "split_block L (with_list (put_state fa i Uninitialized) c l) (pfn_of fa i) c ?r = Ok fa3"
    "buddy_inv \<alpha> fa3 (blk i ?r)" "same_pool fa fa3" "free_pages fa3 = free_pages fa"
    "?r \<le> c" "free_block fa i c" "free_set fa3 = free_set fa - blk i ?r"
    "\<forall>j l. allocated_block fa3 j l \<longleftrightarrow> allocated_block fa j l"
    "\<forall>j l. free_block fa3 j l \<longleftrightarrow> free_block fa j l \<and> j \<noteq> i \<or> ?r \<le> l \<and> l < c \<and> j = i + 2 ^ l"
    using carve_run [OF inv ex] by blast
  note d = blocks_okD [OF bo free_is_block [OF c(7)]]
  have sp: "base_page fa3 = base_page fa" "length (pages fa3) = length (pages fa)"
    using c(4) by (auto simp: same_pool_def)
  have le: "(2 :: nat) ^ ?r \<le> 2 ^ c" using c(6) by simp
  have rng: "i + 2 ^ ?r \<le> length (pages fa3)" "2 ^ ?r dvd unat (base_page fa3) + i"
    using order_trans [OF add_left_mono [OF le] d(3)] dvd_trans [OF le_imp_power_dvd [OF c(6)] d(2)]
      sp by simp_all
  obtain fa4 where m: "mark_tails (put_state fa3 i (AllocatedHead ?info)) i (pfn_of fa i) [1..<2 ^ ?r] = Ok fa4"
    "buddy_inv \<alpha> fa4 {}" "same_pool fa3 fa4" "free_pages fa4 = free_pages fa3"
    "free_set fa4 = free_set fa3" "st fa4 i = AllocatedHead ?info"
    "\<forall>j l. allocated_block fa4 j l \<longleftrightarrow> allocated_block fa3 j l \<or> j = i \<and> l = ?r"
    "\<forall>j l. free_block fa4 j l \<longleftrightarrow> free_block fa3 j l"
    using commit_run [OF c(3) r rng, of ?info] sp(1) by auto
  define fa' where "fa' = fa4\<lparr>free_pages := free_pages fa4 - push_bit ?r 1\<rparr>"
  have run: "alloc_frames L fa order =
      (Ok (new_region (pa (pfn_of fa i)) (push_bit PAGE_SHIFT (push_bit ?r 1))), fa')"
  proof -
    have p: "fr_pfn (pages fa ! i) = pfn_of fa i" using wf d(5) by (simp add: fa_wf_def)
    have s: "set_state (with_list fa c l) (pfn_of fa i) Uninitialized =
        Ok (with_list (put_state fa i Uninitialized) c l)"
      using set_state_pfn_of [of "with_list fa c l" i Uninitialized] wf d(5) by simp
    have x: "pfn_to_slice_index fa3 (pfn_of fa i) = Ok i"
      using slice_index_pfn_of [of fa3 i] c(3) d(5) sp by (simp add: buddy_inv_def)
    have u: "unat (2 ^ ?r :: usize) = 2 ^ ?r" using push_bit_order [OF r] by simp
    show ?thesis
      using r d(5) p m(1) c(1,2) s by (simp add: alloc_frames_def x u fa'_def Let_def)
  qed
  show ?thesis
    using run m c(4-10) same_pool_trans [OF c(4) m(3)]
    by (intro exI [of _ fa'] exI [of _ i] exI [of _ c]) (simp add: fa'_def same_pool_def)
qed

end

section \<open>Merging\<close>

definition buddy_of :: "'l frame_allocator \<Rightarrow> nat \<Rightarrow> nat \<Rightarrow> nat \<Rightarrow> bool" where
  "buddy_of fa i k j \<longleftrightarrow> 2 ^ Suc k dvd unat (base_page fa) + i \<and> j = i + 2 ^ k \<or>
     2 ^ Suc k dvd unat (base_page fa) + j \<and> i = j + 2 ^ k"

lemma buddy_of_join:
  assumes "buddy_of fa i k j"
  shows "blk i k \<union> blk j k = blk (min i j) (Suc k)" "2 ^ Suc k dvd unat (base_page fa) + min i j"
    "i \<noteq> j" "i + 2 ^ k \<le> n \<Longrightarrow> j + 2 ^ k \<le> n \<Longrightarrow> min i j + 2 ^ Suc k \<le> n"
  using assms by (auto simp: buddy_of_def blk_def)

lemma odd_div_cases:
  assumes "2 ^ k dvd (n :: nat)"
  shows "if odd (n div 2 ^ k) then 2 ^ k \<le> n \<and> 2 ^ Suc k dvd n - 2 ^ k else 2 ^ Suc k dvd n"
proof -
  obtain q where q: "n = 2 ^ k * q" using assms by blast
  show ?thesis
  proof (cases "odd q")
    case True
    then obtain m where m: "q = Suc (2 * m)" by (auto elim: oddE)
    then have "n - 2 ^ k = 2 ^ Suc k * m" by (simp add: q algebra_simps)
    then show ?thesis using True m by (simp add: q)
  next
    case False
    then show ?thesis by (auto simp: q elim!: evenE)
  qed
qed

lemma buddy_pfn:
  assumes "fa_wf fa" "k < MAX_ORDER" "2 ^ k dvd unat (base_page fa) + i" "i + 2 ^ k \<le> length (pages fa)"
    "j < length (pages fa)"
  shows "buddy (pfn_of fa i) k = pfn_of fa j \<longleftrightarrow> buddy_of fa i k j"
proof -
  let ?b = "unat (base_page fa)"
  have lim: "?b + length (pages fa) < 2 ^ 52" using assms(1) by (simp add: fa_wf_def)
  have pi: "unat (pfn_of fa i) = ?b + i" using assms by (intro unat_pfn_of) auto
  have pj: "unat (pfn_of fa j) = ?b + j" using assms by (intro unat_pfn_of) auto
  have un: "unat (buddy (pfn_of fa i) k) =
      (if odd ((?b + i) div 2 ^ k) then ?b + i - 2 ^ k else ?b + i + 2 ^ k)"
    using assms lim by (simp add: buddy_xor unat_xor_exp pi MAX_ORDER_def)
  have eq: "buddy (pfn_of fa i) k = pfn_of fa j \<longleftrightarrow> unat (buddy (pfn_of fa i) k) = ?b + j"
    by (simp add: word_unat_eq_iff pj)
  show ?thesis
  proof (cases "odd ((?b + i) div 2 ^ k)")
    case True
    then have o: "2 ^ k \<le> ?b + i" "2 ^ Suc k dvd ?b + i - 2 ^ k" using odd_div_cases [OF assms(3)] by auto
    have "\<not> 2 ^ Suc k dvd ?b + i" using True by (auto simp: mult.assoc)
    then show ?thesis using o True unfolding eq un buddy_of_def by auto
  next
    case False
    then have e: "2 ^ Suc k dvd ?b + i" using odd_div_cases [OF assms(3)] by auto
    have "\<not> 2 ^ Suc k dvd ?b + j" if "i = j + 2 ^ k"
    proof
      assume a: "2 ^ Suc k dvd ?b + j"
      then have "2 ^ Suc k dvd (?b + j) + 2 ^ k" using e that by (simp add: add.assoc)
      then have "(2 :: nat) ^ Suc k dvd 2 ^ k" using dvd_add_right_iff [OF a] by blast
      then show False by (simp add: power_dvd_imp_le dvd_imp_le)
    qed
    then show ?thesis using e False unfolding eq un buddy_of_def by auto
  qed
qed

lemma pfn_of_inj:
  assumes "fa_wf fa" "i < length (pages fa)" "j < length (pages fa)" "pfn_of fa i = pfn_of fa j"
  shows "i = j"
proof -
  have "unat (base_page fa) + i = unat (base_page fa) + j"
    using unat_pfn_of [OF assms(1) less_imp_le [OF assms(2)]]
      unat_pfn_of [OF assms(1) less_imp_le [OF assms(3)]] unfolding assms(4) by (rule box_equals [OF refl])
  then show ?thesis by simp
qed

lemma in_pool:
  assumes "fa_wf fa"
  shows "\<not> (p < base_page fa \<or> p \<ge> base_page fa + total_pages fa) \<longleftrightarrow>
    (\<exists>j<length (pages fa). p = pfn_of fa j)"
proof -
  let ?b = "unat (base_page fa)"
  have lim: "?b + length (pages fa) < 2 ^ 52" "unat (total_pages fa) = length (pages fa)"
    using assms by (auto simp: fa_wf_def)
  then have top: "unat (base_page fa + total_pages fa) = ?b + length (pages fa)"
    by (simp add: unat_add_usize)
  have iff: "\<not> (p < base_page fa \<or> p \<ge> base_page fa + total_pages fa) \<longleftrightarrow>
      ?b \<le> unat p \<and> unat p < ?b + length (pages fa)"
    by (auto simp: word_less_nat_alt word_le_nat_alt top)
  show ?thesis
  proof
    assume "\<not> (p < base_page fa \<or> p \<ge> base_page fa + total_pages fa)"
    then show "\<exists>j<length (pages fa). p = pfn_of fa j"
      using pfn_of_unique [OF assms, of p] unfolding iff by (intro exI [of _ "unat p - ?b"]) auto
  next
    assume "\<exists>j<length (pages fa). p = pfn_of fa j"
    then show "\<not> (p < base_page fa \<or> p \<ge> base_page fa + total_pages fa)"
      unfolding iff using unat_pfn_of [OF assms] by auto
  qed
qed

lemma min_pfn_of:
  assumes "fa_wf fa" "i < length (pages fa)" "j < length (pages fa)"
  shows "min (pfn_of fa i) (pfn_of fa j) = pfn_of fa (min i j)"
  using assms unat_pfn_of [OF assms(1), of i] unat_pfn_of [OF assms(1), of j]
  by (cases "i \<le> j") (auto simp: min_def word_le_nat_alt word_unat_eq_iff)

text \<open>What a run of the merge loop from the hole \<open>blk i k\<close> achieves.\<close>

definition merged :: "('l \<Rightarrow> nat list) \<Rightarrow> 'l frame_allocator \<Rightarrow> nat \<Rightarrow> nat \<Rightarrow>
    'l frame_allocator \<Rightarrow> nat \<Rightarrow> nat \<Rightarrow> bool" where
  "merged \<alpha> fa i k fa' i' k' \<longleftrightarrow>
     buddy_inv \<alpha> fa' (blk i' k') \<and> same_pool fa fa' \<and> free_pages fa' = free_pages fa \<and>
     k' \<le> MAX_ORDER \<and> 2 ^ k' dvd unat (base_page fa) + i' \<and> i' + 2 ^ k' \<le> length (pages fa) \<and>
     blk i k \<subseteq> blk i' k' \<and> blk i' k' - blk i k \<subseteq> free_set fa \<and>
     free_set fa' = free_set fa - blk i' k' \<and>
     (\<forall>j l. free_block fa' j l \<longrightarrow> free_block fa j l) \<and>
     (\<forall>j l. allocated_block fa' j l \<longleftrightarrow> allocated_block fa j l) \<and>
     (\<forall>j. k' < MAX_ORDER \<and> buddy_of fa i' k' j \<longrightarrow> \<not> free_block fa' j k')"

lemma merged_refl:
  assumes "buddy_inv \<alpha> fa (blk i k)" "k \<le> MAX_ORDER" "2 ^ k dvd unat (base_page fa) + i"
    "i + 2 ^ k \<le> length (pages fa)" "\<And>j. k < MAX_ORDER \<Longrightarrow> buddy_of fa i k j \<Longrightarrow> \<not> free_block fa j k"
  shows "merged \<alpha> fa i k fa i k"
  using assms free_set_bounds(2) [of fa "blk i k"]
  by (auto simp: merged_def same_pool_def buddy_inv_def)

lemma merged_step:
  assumes bo: "blocks_ok fa (blk i k)" and fb: "free_block fa j k" and bud: "buddy_of fa i k j"
    and fa1: "fa1 = with_list (put_state fa j Uninitialized) k l"
    and m: "merged \<alpha> fa1 (min i j) (Suc k) fa' i' k'"
  shows "merged \<alpha> fa i k fa' i' k'"
proof -
  note eff = unlink_effect [OF bo fb fa1]
  note join = buddy_of_join [OF bud]
  have sp: "base_page fa1 = base_page fa" "length (pages fa1) = length (pages fa)"
    using eff(4) by (auto simp: same_pool_def)
  have sub: "blk (min i j) (Suc k) \<subseteq> blk i' k'" "blk i' k' - blk (min i j) (Suc k) \<subseteq> free_set fa1"
    "free_set fa' = free_set fa1 - blk i' k'"
    using m by (auto simp: merged_def)
  have fj: "blk j k \<subseteq> free_set fa" using free_block_subset [OF fb] .
  have "blk i k \<subseteq> blk i' k'" "blk i' k' - blk i k \<subseteq> free_set fa" "free_set fa' = free_set fa - blk i' k'"
    using sub fj unfolding join(1) [symmetric] eff(3) by blast+
  moreover have "buddy_of fa1 = buddy_of fa" by (intro ext) (simp add: buddy_of_def sp)
  ultimately show ?thesis
    using m eff(1,2,5) same_pool_trans [OF eff(4)] by (auto simp: merged_def sp)
qed

context frame_list
begin

lemma merge_buddies_run:
  assumes "buddy_inv \<alpha> fa (blk i k)" "k \<le> MAX_ORDER" "2 ^ k dvd unat (base_page fa) + i"
    "i + 2 ^ k \<le> length (pages fa)"
  shows "\<exists>fa' i' k'. merge_buddies L fa (pfn_of fa i) k k = Ok (fa', pfn_of fa i', k') \<and>
    merged \<alpha> fa i k fa' i' k'"
  using assms
proof (induction "MAX_ORDER - k" arbitrary: fa i k)
  case 0
  then have "merge_buddies L fa (pfn_of fa i) k k = Ok (fa, pfn_of fa i, k)"
    by (simp add: merge_buddies.simps)
  then show ?case using merged_refl [OF 0(2-5)] 0(1) by auto
next
  case (Suc n)
  then have k: "k < MAX_ORDER" by simp
  have wf: "fa_wf fa" and bo: "blocks_ok fa (blk i k)" using Suc.prems(1) by (auto simp: buddy_inv_def)
  let ?p = "buddy (pfn_of fa i) k"
  note bp = buddy_pfn [OF wf k Suc.prems(3,4)]
  consider (out) "\<not> (\<exists>j<length (pages fa). ?p = pfn_of fa j)"
    | (other) j where "j < length (pages fa)" "?p = pfn_of fa j" "\<not> free_block fa j k"
    | (free) j where "j < length (pages fa)" "?p = pfn_of fa j" "free_block fa j k" by blast
  then show ?case
  proof cases
    case out
    then have "merge_buddies L fa (pfn_of fa i) k k = Ok (fa, pfn_of fa i, k)"
      using in_pool [OF wf, of ?p] by (subst merge_buddies.simps) (auto simp: Let_def)
    moreover have "\<not> free_block fa j k" if "buddy_of fa i k j" for j
      using out bp [of j] that by (auto simp: free_block_def)
    ultimately show ?thesis using merged_refl [OF Suc.prems] by blast
  next
    case other
    then have "(case st fa j of Free q \<Rightarrow> unat q = k | _ \<Rightarrow> False) = False"
      by (auto simp: free_block_def split: frame_state.splits)
    moreover have "\<not> (?p < base_page fa \<or> ?p \<ge> base_page fa + total_pages fa)"
      using in_pool [OF wf, of ?p] other by blast
    ultimately have "merge_buddies L fa (pfn_of fa i) k k = Ok (fa, pfn_of fa i, k)"
      using get_frame_pfn_of [OF wf other(1)] other(2) by (subst merge_buddies.simps) (auto simp: Let_def)
    moreover have "\<not> free_block fa j' k" if "buddy_of fa i k j'" for j'
    proof
      assume f: "free_block fa j' k"
      then have "j' < length (pages fa)" by (simp add: free_block_def)
      then have "pfn_of fa j' = pfn_of fa j" using bp [of j'] that other(2) by simp
      then have "j' = j" using pfn_of_inj [OF wf \<open>j' < length (pages fa)\<close> other(1)] by blast
      then show False using f other(3) by simp
    qed
    ultimately show ?thesis using merged_refl [OF Suc.prems] by blast
  next
    case free
    have bud: "buddy_of fa i k j" using bp [OF free(1)] free(2) by simp
    note join = buddy_of_join [OF bud]
    obtain l where l: "remove_from_free_list L fa ?p k = Ok (with_list (put_state fa j Uninitialized) k l)"
      "buddy_inv \<alpha> (with_list (put_state fa j Uninitialized) k l) (blk i k \<union> blk j k)"
      using remove_from_free_list_run [OF Suc.prems(1) free(3)] free(2) by auto
    define fa1 where "fa1 = with_list (put_state fa j Uninitialized) k l"
    have sp: "base_page fa1 = base_page fa" "length (pages fa1) = length (pages fa)"
      by (simp_all add: fa1_def)
    have jl: "j + 2 ^ k \<le> length (pages fa)" using blocks_okD(3) [OF bo free_is_block [OF free(3)]] .
    have "\<exists>fa' i' k'. merge_buddies L fa1 (pfn_of fa1 (min i j)) (Suc k) (Suc k) =
        Ok (fa', pfn_of fa1 i', k') \<and> merged \<alpha> fa1 (min i j) (Suc k) fa' i' k'"
      using Suc.hyps(1) [of "Suc k" fa1 "min i j"] Suc.hyps(2) l(2) k join(1,2) join(4) [OF Suc.prems(4) jl]
      by (simp add: fa1_def)
    then obtain fa' i' k' where r: "merge_buddies L fa1 (pfn_of fa (min i j)) (Suc k) (Suc k) =
        Ok (fa', pfn_of fa i', k')" "merged \<alpha> fa1 (min i j) (Suc k) fa' i' k'"
      unfolding sp by blast
    have mn: "min (pfn_of fa i) ?p = pfn_of fa (min i j)"
      using min_pfn_of [OF wf start_less [OF Suc.prems(4)] free(1)] free(2) by simp
    have "\<not> (?p < base_page fa \<or> ?p \<ge> base_page fa + total_pages fa)"
      using in_pool [OF wf, of ?p] free by blast
    moreover have "case st fa j of Free q \<Rightarrow> unat q = k | _ \<Rightarrow> False"
      using free(3) by (auto simp: free_block_def)
    moreover have "get_frame fa ?p = Ok (pages fa ! j)" using get_frame_pfn_of [OF wf free(1)] free(2) by simp
    ultimately have "merge_buddies L fa (pfn_of fa i) k k = Ok (fa', pfn_of fa i', k')"
      using l(1) r(1) k mn by (subst merge_buddies.simps) (simp add: Let_def fa1_def)
    then show ?thesis using merged_step [OF bo free(3) bud fa1_def r(2)] by blast
  qed
qed

end

section \<open>Freeing\<close>

lemma coalesced_give:
  assumes "coalesced fa" "same_pool fa fa'" and bo: "blocks_ok fa' (blk i k)"
    and sub: "\<And>j l. free_block fa' j l \<Longrightarrow> free_block fa j l"
    and nb: "\<And>j. k < MAX_ORDER \<Longrightarrow> buddy_of fa i k j \<Longrightarrow> \<not> free_block fa' j k"
    and fb: "\<And>j l. free_block fa'' j l \<longleftrightarrow> free_block fa' j l \<or> j = i \<and> l = k"
    and sp: "same_pool fa' fa''"
  shows "coalesced fa''"
  unfolding coalesced_def
proof (intro allI impI notI; elim conjE)
  fix a m assume m: "m < MAX_ORDER" "2 ^ Suc m dvd unat (base_page fa'') + a"
    and f: "free_block fa'' a m" "free_block fa'' (a + 2 ^ m) m"
  have b: "base_page fa'' = base_page fa" using assms(2) sp by (simp add: same_pool_def)
  have bud: "buddy_of fa a m (a + 2 ^ m)" "buddy_of fa (a + 2 ^ m) m a"
    using m(2) b by (simp_all add: buddy_of_def)
  have "\<not> (free_block fa a m \<and> free_block fa (a + 2 ^ m) m)"
    using assms(1) m b by (auto simp: coalesced_def)
  then have "\<not> free_block fa' a m \<or> \<not> free_block fa' (a + 2 ^ m) m" using sub by blast
  then consider "a = i" "m = k" | "a + 2 ^ m = i" "m = k" using f fb by auto
  then show False
  proof cases
    case 1
    then show False using nb [of "a + 2 ^ m"] bud(1) m(1) f(2) fb [of "a + 2 ^ m" m] by auto
  next
    case 2
    then show False using nb [of a] bud(2) m(1) f(1) fb [of a m] by auto
  qed
qed

lemma unseal_effect:
  assumes inv: "buddy_inv \<alpha> fa {}" and ab: "allocated_block fa i k"
    and fa1: "fa1 = put_state fa i Uninitialized"
  shows "buddy_inv \<alpha> fa1 (blk i k)" "free_block fa1 j l \<longleftrightarrow> free_block fa j l"
    "allocated_block fa1 j l \<longleftrightarrow> allocated_block fa j l \<and> j \<noteq> i" "free_set fa1 = free_set fa"
    "same_pool fa fa1"
proof -
  have bo: "blocks_ok fa {}" and lo: "lists_ok \<alpha> fa" and wf: "fa_wf fa"
    using inv by (auto simp: buddy_inv_def)
  have i: "i < length (pages fa)" using ab by (simp add: allocated_block_def)
  have nf: "\<not> free_block fa i l" for l using ab by (auto simp: free_block_def allocated_block_def)
  show fb: "free_block fa1 j l \<longleftrightarrow> free_block fa j l" for j l
    using i nf by (auto simp: fa1 free_block_put)
  show "allocated_block fa1 j l \<longleftrightarrow> allocated_block fa j l \<and> j \<noteq> i"
    using i by (auto simp: fa1 allocated_block_put)
  show "free_set fa1 = free_set fa" by (rule set_eqI) (simp add: in_free_set fb)
  show "same_pool fa fa1" by (simp add: fa1 same_pool_def)
  have "lists_ok \<alpha> fa1" by (rule lists_ok_other [OF lo fb]) (simp add: fa1)
  then show "buddy_inv \<alpha> fa1 (blk i k)"
    using blocks_ok_take [OF bo allocated_is_block [OF ab]] wf by (simp add: fa1 buddy_inv_def)
qed

lemma unsealed_disjoint:
  assumes "buddy_inv \<alpha> fa {}" "allocated_block fa i k"
  shows "blk i k \<inter> free_set fa = {}"
proof -
  note e = unseal_effect [OF assms refl]
  have "blocks_ok (put_state fa i Uninitialized) (blk i k)" using e(1) by (simp add: buddy_inv_def)
  from free_set_bounds(2) [OF this] show ?thesis unfolding e(4) by blast
qed

context frame_list
begin

lemma free_frames_run:
  assumes inv: "buddy_inv \<alpha> fa {}" and i: "i < length (pages fa)" "st fa i = AllocatedHead info"
    and rc: "ref_count info \<le> 1" and k: "unat (al_order info) = k"
    and rg: "to_pfn (start_address rg) = pfn_of fa i"
  shows "\<exists>fa'. free_frames L fa rg = Ok fa' \<and> buddy_inv \<alpha> fa' {} \<and> same_pool fa fa' \<and>
    free_pages fa' = free_pages fa + push_bit k 1 \<and> free_set fa' = free_set fa \<union> blk i k \<and>
    (\<forall>j l. allocated_block fa' j l \<longleftrightarrow> allocated_block fa j l \<and> j \<noteq> i) \<and>
    (coalesced fa \<longrightarrow> coalesced fa')"
proof -
  have wf: "fa_wf fa" and bo: "blocks_ok fa {}" using inv by (auto simp: buddy_inv_def)
  have ab: "allocated_block fa i k" using i k by (simp add: allocated_block_def)
  note d = blocks_okD [OF bo allocated_is_block [OF ab]]
  define fa1 where "fa1 = put_state fa i Uninitialized"
  note e1 = unseal_effect [OF inv ab fa1_def]
  have sp1: "base_page fa1 = base_page fa" "length (pages fa1) = length (pages fa)"
    by (simp_all add: fa1_def)
  obtain fa2 a m where mb: "merge_buddies L fa1 (pfn_of fa i) k k = Ok (fa2, pfn_of fa a, m)"
    and mg: "merged \<alpha> fa1 i k fa2 a m"
    using merge_buddies_run [OF e1(1) d(1)] d(2,3) sp1 by auto
  have m: "buddy_inv \<alpha> fa2 (blk a m)" "same_pool fa1 fa2" "m \<le> MAX_ORDER"
    "2 ^ m dvd unat (base_page fa2) + a" "a + 2 ^ m \<le> length (pages fa2)"
    "free_set fa2 = free_set fa1 - blk a m" "blk i k \<subseteq> blk a m" "blk a m - blk i k \<subseteq> free_set fa1"
    "free_pages fa2 = free_pages fa1"
    using mg by (auto simp: merged_def same_pool_def)
  have wf2: "fa_wf fa2" and bo2: "blocks_ok fa2 (blk a m)" using m(1) by (auto simp: buddy_inv_def)
  have p2: "pfn_of fa a = pfn_of fa2 a" using m(2) sp1 by (simp add: same_pool_def)
  define fa3 where "fa3 = give_block L fa2 a m"
  note run3 = give_block_run [OF wf2 start_less [OF m(5)] m(3), of L, folded fa3_def]
  note e3 = give_block_effect [OF bo2 subset_refl m(3,5), of L, folded fa3_def]
  have inv3: "buddy_inv \<alpha> fa3 {}"
    using give_block_inv [OF m(1) subset_refl m(3-5)] by (simp add: fa3_def)
  have sp3: "same_pool fa2 fa3" "free_pages fa3 = free_pages fa2" by (simp_all add: fa3_def)
  have run: "free_frames L fa rg = Ok (fa3\<lparr>free_pages := free_pages fa3 + push_bit k 1\<rparr>)"
  proof -
    have "set_state fa (pfn_of fa i) Uninitialized = Ok fa1"
      using set_state_pfn_of [OF wf i(1)] by (simp add: fa1_def)
    moreover have "\<not> ref_count info > 1" using rc by simp
    ultimately show ?thesis
      using get_frame_pfn_of [OF wf i(1)] i(2) k mb run3
      by (simp add: free_frames_def rg Let_def p2 del: and_then_eq_Ok)
  qed
  have fs: "free_set fa3 = free_set fa \<union> blk i k"
    using m(6-8) e1(4) unfolding e3(3) by auto
  have co: "coalesced fa3" if "coalesced fa"
  proof (rule coalesced_give [OF that _ bo2 _ _ e3(1) sp3(1)])
    show "same_pool fa fa2" using same_pool_trans [OF e1(5) m(2)] .
    show "free_block fa j l" if "free_block fa2 j l" for j l
      using mg that by (auto simp: merged_def e1(2))
    show "\<not> free_block fa2 j m" if "m < MAX_ORDER" "buddy_of fa a m j" for j
    proof -
      have "buddy_of fa1 a m j" using that(2) by (simp add: buddy_of_def sp1)
      then show ?thesis using mg that(1) unfolding merged_def by blast
    qed
  qed
  have ab3: "allocated_block fa3 j l \<longleftrightarrow> allocated_block fa j l \<and> j \<noteq> i" for j l
    using mg by (simp add: e3(2) merged_def e1(3))
  have "same_pool fa fa3" using same_pool_trans [OF e1(5) same_pool_trans [OF m(2) sp3(1)]] .
  then show ?thesis
    using run inv3 fs co ab3 sp3(2) m(9)
    by (simp add: fa1_def same_pool_def coalesced_def)
qed

lemma free_frames_shared:
  assumes inv: "buddy_inv \<alpha> fa {}" and i: "i < length (pages fa)" "st fa i = AllocatedHead info"
    and rc: "ref_count info > 1" and rg: "to_pfn (start_address rg) = pfn_of fa i"
  shows "free_frames L fa rg =
    Ok (put_state fa i (AllocatedHead (info\<lparr>ref_count := ref_count info - 1\<rparr>)))"
proof -
  have wf: "fa_wf fa" using inv by (simp add: buddy_inv_def)
  show ?thesis
    using get_frame_pfn_of [OF wf i(1)] set_state_pfn_of [OF wf i(1)] i(2) rc
    by (simp add: free_frames_def rg)
qed

end

lemma rehead_inv:
  assumes inv: "buddy_inv \<alpha> fa H" and i: "i < length (pages fa)" "st fa i = AllocatedHead info"
    and same: "al_order info' = al_order info"
  shows "buddy_inv \<alpha> (put_state fa i (AllocatedHead info')) H"
    "free_block (put_state fa i (AllocatedHead info')) j l = free_block fa j l"
    "allocated_block (put_state fa i (AllocatedHead info')) j l = allocated_block fa j l"
    "free_set (put_state fa i (AllocatedHead info')) = free_set fa"
proof -
  let ?fa = "put_state fa i (AllocatedHead info')"
  show fb: "free_block ?fa j l = free_block fa j l" for j l
    using i by (auto simp: free_block_put) (auto simp: free_block_def)
  show ab: "allocated_block ?fa j l = allocated_block fa j l" for j l
    using i same by (auto simp: allocated_block_put) (auto simp: allocated_block_def)
  show "free_set ?fa = free_set fa" by (rule set_eqI) (simp add: in_free_set fb)
  have bo: "blocks_ok fa H" and lo: "lists_ok \<alpha> fa" and wf: "fa_wf fa"
    using inv by (auto simp: buddy_inv_def)
  have bl: "block ?fa j l = block fa j l" for j l by (simp add: block_def fb ab)
  have "blocks_ok ?fa H"
  proof (rule blocks_okI)
    fix j l assume "block ?fa j l"
    then show "l \<le> MAX_ORDER \<and> 2 ^ l dvd unat (base_page ?fa) + j \<and>
        j + 2 ^ l \<le> length (pages ?fa) \<and> blk j l \<inter> H = {}"
      using blocks_okD [OF bo, of j l] by (simp add: bl)
  next
    fix j l m n assume "block ?fa j l" "block ?fa m n" "j \<noteq> m"
    then show "blk j l \<inter> blk m n = {}" using blocks_disjoint [OF bo] by (simp add: bl)
  next
    fix j l t assume "allocated_block ?fa j l" and t: "0 < t" "t < (2::nat) ^ l"
    then have "st fa (j + t) = AllocatedTail (pfn_of fa j)" using tails_okD [OF bo _ t] by (simp add: ab)
    then show "st ?fa (j + t) = AllocatedTail (pfn_of ?fa j)" using i by auto
  qed
  moreover have "lists_ok \<alpha> ?fa" by (rule lists_ok_other [OF lo fb]) simp
  ultimately show "buddy_inv \<alpha> ?fa H" using wf by (simp add: buddy_inv_def)
qed

section \<open>The list operations on lists\<close>

definition list_ops_list :: "nat list list_ops" where
  "list_ops_list = \<lparr>ll_new = [], ll_push_front = (#),
     ll_pop_front = (\<lambda>l. case l of [] \<Rightarrow> None | x # xs \<Rightarrow> Some (x, xs)),
     ll_remove = (\<lambda>i l. if i \<in> set l then Some (remove1 i l) else None)\<rparr>"

interpretation list_frames: frame_list list_ops_list id
  by unfold_locales (auto simp: list_ops_list_def split: list.splits)

section \<open>Allocation and freeing\<close>

lemma region_of_block:
  assumes "fa_wf fa" "k \<le> MAX_ORDER" "i + 2 ^ k \<le> length (pages fa)"
  shows "to_pfn (start_address (new_region (pa (pfn_of fa i)) sz)) = pfn_of fa i"
    "unat (pa (pfn_of fa i)) = (unat (base_page fa) + i) * 4096"
    "unat (push_bit PAGE_SHIFT (push_bit k 1) :: usize) = 2 ^ k * 4096"
proof -
  have u: "unat (pfn_of fa i) = unat (base_page fa) + i" using assms by (intro unat_pfn_of) auto
  then have lt: "unat (pfn_of fa i) < 2 ^ 52" using assms by (simp add: fa_wf_def)
  show "to_pfn (start_address (new_region (pa (pfn_of fa i)) sz)) = pfn_of fa i"
    using to_pfn_pa [OF lt] by (simp add: new_region_def start_address_def)
  show "unat (pa (pfn_of fa i)) = (unat (base_page fa) + i) * 4096"
    using unat_pa [OF lt] u by simp
  have "push_bit PAGE_SHIFT (push_bit k 1) = (2 ^ (12 + k) :: usize)"
    by (simp add: PAGE_SHIFT_def push_bit_eq_mult power_add)
  moreover have "unat (2 ^ (12 + k) :: usize) = 2 ^ (12 + k)"
    using assms(2) by (intro unat_exp) (simp add: MAX_ORDER_def)
  ultimately show "unat (push_bit PAGE_SHIFT (push_bit k 1) :: usize) = 2 ^ k * 4096"
    by (simp only: power_add) simp
qed

lemma card_take:
  assumes "blocks_ok fa H" "blk i k \<subseteq> free_set fa"
  shows "card (free_set fa - blk i k) = card (free_set fa) - 2 ^ k" "2 ^ k \<le> card (free_set fa)"
  using assms card_Diff_subset [of "blk i k" "free_set fa"] free_set_bounds(3) [OF assms(1)]
    card_mono [of "free_set fa" "blk i k"] blk_simps(3,4) [of i k] by auto

lemma card_give:
  assumes "blocks_ok fa H" "blk i k \<inter> free_set fa = {}"
  shows "card (free_set fa \<union> blk i k) = card (free_set fa) + 2 ^ k"
  using assms card_Un_disjoint [of "free_set fa" "blk i k"] free_set_bounds(3) [OF assms(1)]
    blk_simps(3,4) [of i k] by (auto simp: Int_commute)

lemma card_free_set_bound:
  assumes "buddy_inv \<alpha> fa H" shows "card (free_set fa) < 2 ^ 52"
proof -
  have "card (free_set fa) \<le> length (pages fa)"
    using assms free_set_bounds(1) [of fa H] card_mono [of "{..<length (pages fa)}" "free_set fa"]
    by (auto simp: buddy_inv_def)
  then show ?thesis using assms by (auto simp: buddy_inv_def fa_wf_def)
qed

text \<open>C3. On a pool that satisfies the allocator invariant, with a free block of at least the
  requested order, \<open>alloc_frames\<close> succeeds. It returns a naturally aligned block of exactly
  \<open>2 ^ order\<close> frames, all of which were free; exactly these frames leave the free set, they
  become one new allocated block with reference count 1, every other allocated block is kept,
  and the invariant holds again (free lists, counter and full coalescing included).\<close>

theorem alloc_frames_correct:
  assumes L: "frame_list L \<alpha>" and inv: "allocator_inv \<alpha> fa" and order: "unat order \<le> MAX_ORDER"
    and avail: "unat order \<le> m" "free_block fa a m"
  shows "\<exists>fa' i rg. alloc_frames L fa order = (Ok rg, fa') \<and> allocator_inv \<alpha> fa' \<and>
    unat (start_address rg) = (unat (base_page fa) + i) * 4096 \<and>
    unat (rg_size rg) = 2 ^ unat order * 4096 \<and>
    2 ^ unat order dvd unat (base_page fa) + i \<and> blk i (unat order) \<subseteq> free_set fa \<and>
    free_set fa' = free_set fa - blk i (unat order) \<and>
    st fa' i = AllocatedHead \<lparr>ref_count = 1, al_order = order\<rparr> \<and>
    (\<forall>j l. allocated_block fa' j l \<longleftrightarrow> allocated_block fa j l \<or> j = i \<and> l = unat order)"
proof -
  have b: "buddy_inv \<alpha> fa {}" and co: "coalesced fa" and fp: "unat (free_pages fa) = card (free_set fa)"
    using inv by (auto simp: allocator_inv_def)
  have wf: "fa_wf fa" and bo: "blocks_ok fa {}" using b by (auto simp: buddy_inv_def)
  obtain fa' i c where r: "alloc_frames L fa order =
      (Ok (new_region (pa (pfn_of fa i)) (push_bit PAGE_SHIFT (push_bit (unat order) 1))), fa')"
    "buddy_inv \<alpha> fa' {}" "same_pool fa fa'" "free_pages fa' = free_pages fa - push_bit (unat order) 1"
    "unat order \<le> c" "free_block fa i c" "free_set fa' = free_set fa - blk i (unat order)"
    "st fa' i = AllocatedHead \<lparr>ref_count = 1, al_order = order\<rparr>"
    "\<forall>j l. allocated_block fa' j l \<longleftrightarrow> allocated_block fa j l \<or> j = i \<and> l = unat order"
    "\<And>j l. free_block fa' j l \<longleftrightarrow>
       free_block fa j l \<and> j \<noteq> i \<or> unat order \<le> l \<and> l < c \<and> j = i + 2 ^ l"
    using frame_list.alloc_frames_run [OF L b order avail] by blast
  note d = blocks_okD [OF bo free_is_block [OF r(6)]]
  have sub: "blk i (unat order) \<subseteq> free_set fa"
    using blk_mono [OF r(5)] free_block_subset [OF r(6)] by (rule order_trans)
  have al: "2 ^ unat order dvd unat (base_page fa) + i"
    using dvd_trans [OF le_imp_power_dvd [OF r(5)] d(2)] .
  have "unat (free_pages fa') = card (free_set fa')"
    unfolding r(4,7) using card_take [OF bo sub] push_bit_order [OF order] fp by (simp add: unat_sub_usize)
  moreover have "coalesced fa'" using coalesced_split [OF co r(3) d(1,2) r(10)] .
  ultimately have "allocator_inv \<alpha> fa'" using r(2) by (simp add: allocator_inv_def)
  moreover note region_of_block(2) [OF wf d(1,3)] region_of_block(3) [OF wf order, of i] d(3)
  moreover have "i + 2 ^ unat order \<le> length (pages fa)"
    using order_trans [OF add_left_mono [OF power_increasing [OF r(5), of "2 :: nat"]] d(3)] by simp
  ultimately show ?thesis
    using r(1,7-9) sub al
    by (intro exI [of _ fa'] exI [of _ i]
        exI [of _ "new_region (pa (pfn_of fa i)) (push_bit PAGE_SHIFT (push_bit (unat order) 1))"])
      (simp add: new_region_def start_address_def)
qed

text \<open>C30. \<open>alloc_frames\<close> on a pool that satisfies the allocator invariant fails exactly for an order above
  \<open>MAX_ORDER\<close>, with \<open>InvalidValue\<close>, and when no free block is large enough, with \<open>NoMemory\<close>, and leaves the allocator
  unchanged then. In every other case it succeeds.\<close>

theorem alloc_frames_errors:
  assumes L: "frame_list L \<alpha>" and inv: "allocator_inv \<alpha> fa"
  shows "if unat order > MAX_ORDER then alloc_frames L fa order = (Err InvalidValue, fa)
    else if \<exists>i k. unat order \<le> k \<and> free_block fa i k then \<exists>rg fa'. alloc_frames L fa order = (Ok rg, fa')
    else alloc_frames L fa order = (Err NoMemory, fa)"
proof (cases "unat order \<le> MAX_ORDER \<and> (\<exists>i k. unat order \<le> k \<and> free_block fa i k)")
  case True
  then obtain i k where k: "unat order \<le> k" "free_block fa i k" by blast
  have "buddy_inv \<alpha> fa {}" using inv by (simp add: allocator_inv_def)
  from frame_list.alloc_frames_run [OF L this _ k] True have "\<exists>rg fa'. alloc_frames L fa order = (Ok rg, fa')"
    by blast
  then show ?thesis using True by auto
next
  case False
  show ?thesis
  proof (cases "unat order > MAX_ORDER")
    case True
    then show ?thesis by (simp add: alloc_frames_def Let_def)
  next
    case order: False
    then have none: "\<not> (\<exists>i k. unat order \<le> k \<and> free_block fa i k)" using False by auto
    have "find_block L fa (unat order) = Ok None"
      using frame_list.find_block_run [OF L, of fa "{}" "unat order"] inv none by (auto simp: allocator_inv_def)
    then show ?thesis using order none by (simp add: alloc_frames_def Let_def)
  qed
qed

text \<open>C13. Dropping the last reference to an allocated block returns exactly its frames to the
  free set, leaves the other allocated blocks alone and re-establishes the invariant; in
  particular the freed block is coalesced as far as possible. Dropping any other reference
  changes only the reference count of the head frame.\<close>

theorem free_frames_correct:
  assumes L: "frame_list L \<alpha>" and inv: "allocator_inv \<alpha> fa"
    and i: "i < length (pages fa)" "st fa i = AllocatedHead info"
    and rg: "to_pfn (start_address rg) = pfn_of fa i"
  shows "if ref_count info > 1
    then free_frames L fa rg =
           Ok (put_state fa i (AllocatedHead (info\<lparr>ref_count := ref_count info - 1\<rparr>))) \<and>
         allocator_inv \<alpha> (put_state fa i (AllocatedHead (info\<lparr>ref_count := ref_count info - 1\<rparr>)))
    else \<exists>fa'. free_frames L fa rg = Ok fa' \<and> allocator_inv \<alpha> fa' \<and>
         blk i (unat (al_order info)) \<inter> free_set fa = {} \<and>
         free_set fa' = free_set fa \<union> blk i (unat (al_order info)) \<and>
         (\<forall>j l. allocated_block fa' j l \<longleftrightarrow> allocated_block fa j l \<and> j \<noteq> i)"
proof (cases "ref_count info > 1")
  case True
  have b: "buddy_inv \<alpha> fa {}" using inv by (simp add: allocator_inv_def)
  let ?info = "info\<lparr>ref_count := ref_count info - 1\<rparr>"
  note re = rehead_inv [OF b i, of ?info]
  have "allocator_inv \<alpha> (put_state fa i (AllocatedHead ?info))"
    using inv re by (simp add: allocator_inv_def coalesced_def)
  then show ?thesis using True frame_list.free_frames_shared [OF L b i True rg] by simp
next
  case False
  let ?k = "unat (al_order info)"
  have b: "buddy_inv \<alpha> fa {}" and co: "coalesced fa" and fp: "unat (free_pages fa) = card (free_set fa)"
    using inv by (auto simp: allocator_inv_def)
  have bo: "blocks_ok fa {}" using b by (auto simp: buddy_inv_def)
  obtain fa' where r: "free_frames L fa rg = Ok fa'" "buddy_inv \<alpha> fa' {}" "same_pool fa fa'"
    "free_pages fa' = free_pages fa + push_bit ?k 1" "free_set fa' = free_set fa \<union> blk i ?k"
    "\<forall>j l. allocated_block fa' j l \<longleftrightarrow> allocated_block fa j l \<and> j \<noteq> i" "coalesced fa \<longrightarrow> coalesced fa'"
    using frame_list.free_frames_run [OF L b i leI [OF False] refl rg] by auto
  have ab: "allocated_block fa i ?k" using i by (simp add: allocated_block_def)
  have k: "?k \<le> MAX_ORDER" using blocks_okD(1) [OF bo allocated_is_block [OF ab]] .
  have dis: "blk i ?k \<inter> free_set fa = {}" using unsealed_disjoint [OF b ab] .
  have "card (free_set fa') < 2 ^ 52" using card_free_set_bound [OF r(2)] .
  then have "unat (free_pages fa') = card (free_set fa')"
    unfolding r(4,5) using card_give [OF bo dis] push_bit_order [OF k] fp by (simp add: unat_add_usize)
  then show ?thesis using False r co dis by (auto simp: allocator_inv_def)
qed

section \<open>A pool of two frames\<close>

definition pool_free :: "nat list frame_allocator" where
  "pool_free = \<lparr>pages = [\<lparr>fr_state = Free 1, fr_pfn = 4\<rparr>, \<lparr>fr_state = Uninitialized, fr_pfn = 5\<rparr>],
     base_page = 4, total_pages = 2, free_pages = 2, free_lists = [[], [0]] @ replicate 9 []\<rparr>"

definition pool_used :: "nat list frame_allocator" where
  "pool_used = \<lparr>pages =
       [\<lparr>fr_state = AllocatedHead \<lparr>ref_count = 1, al_order = 1\<rparr>, fr_pfn = 4\<rparr>,
        \<lparr>fr_state = AllocatedTail 4, fr_pfn = 5\<rparr>],
     base_page = 4, total_pages = 2, free_pages = 0, free_lists = replicate 11 []\<rparr>"

lemma pool_free_blocks:
  "free_block pool_free i k \<longleftrightarrow> i = 0 \<and> k = 1" "\<not> allocated_block pool_free i k"
  by (auto simp: free_block_def allocated_block_def pool_free_def less_Suc_eq nth_Cons split: nat.splits)

lemma pool_used_blocks:
  "allocated_block pool_used i k \<longleftrightarrow> i = 0 \<and> k = 1" "\<not> free_block pool_used i k"
  by (auto simp: free_block_def allocated_block_def pool_used_def less_Suc_eq nth_Cons split: nat.splits)

lemma pool_free_set: "free_set pool_free = {0, 1}" "free_set pool_used = {}"
  by (auto simp: in_free_set pool_free_blocks pool_used_blocks blk_def)

lemma pool_free_inv: "allocator_inv id pool_free"
proof -
  have "fa_wf pool_free"
    by (simp add: fa_wf_def pool_free_def MAX_ORDER_def less_Suc_eq nth_Cons split: nat.splits)
  moreover have "blocks_ok pool_free {}"
    by (rule blocks_okI)
      (auto simp: block_def pool_free_blocks, auto simp: pool_free_def MAX_ORDER_def)
  moreover have "lists_ok id pool_free"
    unfolding lists_ok_def pool_free_blocks
    by (auto simp: pool_free_def MAX_ORDER_def nth_Cons nth_append numeral_2_eq_2 split: nat.splits)
  moreover have "coalesced pool_free" by (simp add: coalesced_def pool_free_blocks)
  moreover have "unat (free_pages pool_free) = card (free_set pool_free)"
    by (simp add: pool_free_set) (simp add: pool_free_def)
  ultimately show ?thesis by (simp add: allocator_inv_def buddy_inv_def)
qed

lemma pool_used_inv: "allocator_inv id pool_used"
proof -
  have "fa_wf pool_used"
    by (simp add: fa_wf_def pool_used_def MAX_ORDER_def less_Suc_eq nth_Cons split: nat.splits)
  moreover have "blocks_ok pool_used {}"
    by (rule blocks_okI)
      (auto simp: block_def pool_used_blocks, auto simp: pool_used_def MAX_ORDER_def less_2_cases_iff)
  moreover have "lists_ok id pool_used"
    by (simp add: lists_ok_def pool_used_blocks) (simp add: pool_used_def MAX_ORDER_def)
  moreover have "coalesced pool_used" by (simp add: coalesced_def pool_used_blocks)
  moreover have "unat (free_pages pool_used) = card (free_set pool_used)"
    by (simp add: pool_free_set) (simp add: pool_used_def)
  ultimately show ?thesis by (simp add: allocator_inv_def buddy_inv_def)
qed

theorem alloc_frames_correct_witness:
  "\<exists>fa' i rg. alloc_frames list_ops_list pool_free 0 = (Ok rg, fa') \<and> allocator_inv id fa' \<and>
     unat (rg_size rg) = 4096 \<and> free_set fa' = {0, 1} - blk i 0"
proof -
  have f: "free_block pool_free 0 1" by (simp add: pool_free_blocks)
  show ?thesis
    using alloc_frames_correct [OF list_frames.frame_list_axioms pool_free_inv, of 0 1 0] f
    by (auto simp: pool_free_set)
qed

theorem alloc_frames_errors_witness:
  "alloc_frames list_ops_list pool_free 2 = (Err NoMemory, pool_free) \<and>
   alloc_frames list_ops_list pool_free 11 = (Err InvalidValue, pool_free) \<and>
   (\<exists>rg fa'. alloc_frames list_ops_list pool_free 1 = (Ok rg, fa'))"
  using alloc_frames_errors [OF list_frames.frame_list_axioms pool_free_inv, of 2]
    alloc_frames_errors [OF list_frames.frame_list_axioms pool_free_inv, of 11]
    alloc_frames_errors [OF list_frames.frame_list_axioms pool_free_inv, of 1]
  by (simp add: pool_free_blocks MAX_ORDER_def)

theorem free_frames_correct_witness:
  "\<exists>fa'. free_frames list_ops_list pool_used (new_region 16384 8192) = Ok fa' \<and>
     allocator_inv id fa' \<and> free_set fa' = {0, 1}"
proof -
  have i: "0 < length (pages pool_used)" "st pool_used 0 = AllocatedHead \<lparr>ref_count = 1, al_order = 1\<rparr>"
    "to_pfn (start_address (new_region 16384 8192)) = pfn_of pool_used 0"
    by (simp_all add: pool_used_def to_pfn_def PAGE_SHIFT_def start_address_def new_region_def drop_bit_eq_div)
  then have "\<exists>fa'. free_frames list_ops_list pool_used (new_region 16384 8192) = Ok fa' \<and>
      allocator_inv id fa' \<and> free_set fa' = {} \<union> blk 0 1"
    using free_frames_correct [OF list_frames.frame_list_axioms pool_used_inv i]
    by (auto simp: pool_free_set)
  then show ?thesis by (simp add: blk_def numeral_2_eq_2 atLeastLessThanSuc insert_commute)
qed

section \<open>Queries\<close>

text \<open>C29. For every frame of an allocated block, head or tail, \<open>is_allocated_exclusive\<close>
  terminates and tells whether the block has exactly one reference, and \<open>is_allocated\<close>
  answers true.\<close>

theorem is_allocated_exclusive_correct:
  assumes inv: "buddy_inv \<alpha> fa {}" and i: "i < length (pages fa)" "st fa i = AllocatedHead info"
    and t: "t < 2 ^ unat (al_order info)"
  shows "is_allocated_exclusive fa (pfn_of fa (i + t)) = Some (Ok (ref_count info = 1)) \<and>
    is_allocated fa (pfn_of fa (i + t)) = Ok True"
proof -
  have wf: "fa_wf fa" and bo: "blocks_ok fa {}" using inv by (auto simp: buddy_inv_def)
  have ab: "allocated_block fa i (unat (al_order info))" using i by (simp add: allocated_block_def)
  have it: "i + t < length (pages fa)" using blocks_okD(3) [OF bo allocated_is_block [OF ab]] t by linarith
  have head: "is_allocated_exclusive fa (pfn_of fa i) = Some (Ok (ref_count info = 1))"
    using get_frame_pfn_of [OF wf i(1)] i(2) by (simp add: is_allocated_exclusive.simps [of fa "pfn_of fa i"])
  have tail: "st fa (i + t) = AllocatedTail (pfn_of fa i)" if "0 < t"
    using tails_okD [OF bo ab that t] .
  note g = get_frame_pfn_of [OF wf it]
  have "is_allocated_exclusive fa (pfn_of fa (i + t)) = Some (Ok (ref_count info = 1))"
  proof (cases "t = 0")
    case True
    then show ?thesis using head by simp
  next
    case False
    then show ?thesis
      by (subst is_allocated_exclusive.simps) (simp only: g tail outcome.simps frame_state.simps head neq0_conv)
  qed
  moreover have "is_allocated fa (pfn_of fa (i + t)) = Ok True"
    unfolding is_allocated_def g using tail i(2) by (cases "t = 0") simp_all
  ultimately show ?thesis by (rule conjI)
qed

theorem is_allocated_exclusive_correct_witness:
  "is_allocated_exclusive pool_used (pfn_of pool_used (0 + 1)) = Some (Ok True)"
proof -
  have "buddy_inv id pool_used {}" using pool_used_inv by (simp add: allocator_inv_def)
  moreover have "0 < length (pages pool_used)"
    "st pool_used 0 = AllocatedHead \<lparr>ref_count = 1, al_order = 1\<rparr>"
    by (simp_all add: pool_used_def)
  ultimately show ?thesis
    using is_allocated_exclusive_correct [of id pool_used 0 "\<lparr>ref_count = 1, al_order = 1\<rparr>" 1] by simp
qed

text \<open>\<open>free_frames\<close> resets only the head frame. The tail frames of a freed block keep their
  state, so \<open>is_allocated\<close> still answers true for a frame that is on a free list.\<close>

theorem freed_tail_is_allocated:
  "case free_frames list_ops_list pool_used (new_region 16384 8192) of
     Ok fa' \<Rightarrow> free_block fa' 0 1 \<and> is_allocated fa' 5 = Ok True
   | _ \<Rightarrow> False"
proof -
  have "free_frames list_ops_list pool_used (new_region 16384 8192) =
      Ok \<lparr>pages = [\<lparr>fr_state = Free 1, fr_pfn = 4\<rparr>, \<lparr>fr_state = AllocatedTail 4, fr_pfn = 5\<rparr>],
          base_page = 4, total_pages = 2, free_pages = 2, free_lists = (replicate 11 [])[1 := [0]]\<rparr>"
    by code_simp
  then show ?thesis
    by (simp add: free_block_def is_allocated_def get_frame_def pfn_to_slice_index_def)
qed

text \<open>\<open>init\<close> aligns the start of a free region to the largest block size but keeps its
  size: unless the start was aligned already, the region it then hands to the free lists ends
  beyond the free region, by the distance the start moved.\<close>

theorem align_free_region_overruns:
  assumes "align_free_region rg = Ok rg'" and "unat (address rg) + (2 ^ 22 - 1) < 2 ^ 64"
    and "unat (address rg) mod 2 ^ 22 \<noteq> 0" and "rg_size rg \<noteq> 0"
  shows "hi rg' = hi rg + (lo rg' - lo rg) \<and> lo rg < lo rg' \<and> \<not> bytes_of rg' \<subseteq> bytes_of rg"
proof -
  have p: "push_bit (MAX_ORDER + 12) 1 = (2 ^ 22 :: usize)"
    by (simp add: MAX_ORDER_def push_bit_eq_mult)
  have u: "unat (2 ^ 22 :: usize) = 2 ^ 22" by (simp add: unat_exp)
  have "is_power_of_two (2 ^ 22 :: usize)" by (rule is_power_of_two_exp) simp
  then obtain r where r: "align_up (address rg) (2 ^ 22) = Ok r"
    "unat r = round_up (2 ^ 22) (unat (address rg))"
    using align_up_Ok [of "2 ^ 22" "address rg"] assms(2) unfolding u by blast
  have rg': "rg' = rg\<lparr>address := r\<rparr>"
    using assms(1) r(1) unfolding align_free_region_def p start_address_def
    by (simp add: with_start_address_def)
  have "unat (address rg) < unat r"
  proof -
    have "unat (address rg) \<le> unat r" using round_up_ge [of "2 ^ 22" "unat (address rg)"] r(2) by simp
    moreover have "unat (address rg) \<noteq> unat r"
      using assms(3) round_up_dvd [of "2 ^ 22" "unat (address rg)"] unfolding r(2) by (metis dvd_imp_mod_0)
    ultimately show ?thesis by simp
  qed
  moreover have sz: "0 < unat (rg_size rg)" using assms(4) by (simp add: unat_gt_0)
  ultimately have lh: "lo rg < lo rg'" "hi rg' = hi rg + (lo rg' - lo rg)"
    by (simp_all add: rg' lo_def hi_def)
  have "hi rg \<le> hi rg' - 1" "hi rg' - 1 \<in> bytes_of rg'"
    using lh sz by (auto simp: bytes_of_def rg' lo_def hi_def)
  then have "\<not> bytes_of rg' \<subseteq> bytes_of rg" by (auto simp: bytes_of_def)
  then show ?thesis using lh by simp
qed

theorem align_free_region_overruns_witness:
  "align_free_region (new_region 0x1000 0x1000) = Ok (new_region 0x400000 0x1000) \<and>
   hi (new_region 0x400000 0x1000) =
     hi (new_region 0x1000 0x1000) + (lo (new_region 0x400000 0x1000) - lo (new_region 0x1000 0x1000))"
proof -
  have a: "align_free_region (new_region 0x1000 0x1000) = Ok (new_region 0x400000 0x1000)" by code_simp
  then show ?thesis
    using align_free_region_overruns [OF a] by (simp add: new_region_def)
qed

end
