(* ===== verification/VMArea.thy ===== *)
theory VMArea
  imports Region
begin

text \<open>
  Page permissions (\<open>libkernel/src/memory/permissions.rs\<close>) and virtual memory areas
  (\<open>libkernel/src/memory/proc_vm/vmarea.rs\<close>). The inode behind a file mapping is a value of
  the type parameter \<open>'i\<close>; equality of these values stands for \<open>Arc::ptr_eq\<close>. The assertions
  of the debug profile are not part of the model.
\<close>

section \<open>Permissions\<close>

record vma_permissions =
  vp_read :: bool
  vp_write :: bool
  vp_execute :: bool

definition vma_rw :: vma_permissions where
  "vma_rw = \<lparr>vp_read = True, vp_write = True, vp_execute = False\<rparr>"

definition vma_rx :: vma_permissions where
  "vma_rx = \<lparr>vp_read = True, vp_write = False, vp_execute = True\<rparr>"

definition vma_ro :: vma_permissions where
  "vma_ro = \<lparr>vp_read = True, vp_write = False, vp_execute = False\<rparr>"

record pte_permissions =
  pp_read :: bool
  pp_write :: bool
  pp_execute :: bool
  pp_user :: bool
  pp_cow :: bool

definition pte_from_vma :: "vma_permissions \<Rightarrow> pte_permissions" where
  "pte_from_vma v = \<lparr>pp_read = vp_read v, pp_write = vp_write v, pp_execute = vp_execute v,
     pp_user = True, pp_cow = False\<rparr>"

definition from_raw_bits :: "bool \<Rightarrow> bool \<Rightarrow> bool \<Rightarrow> bool \<Rightarrow> bool \<Rightarrow> pte_permissions" where
  "from_raw_bits r w x u c =
     \<lparr>pp_read = r, pp_write = w, pp_execute = x, pp_user = u, pp_cow = c\<rparr>"

definition pte_ro :: "bool \<Rightarrow> pte_permissions" where
  "pte_ro user = \<lparr>pp_read = True, pp_write = False, pp_execute = False, pp_user = user, pp_cow = False\<rparr>"

definition pte_rw :: "bool \<Rightarrow> pte_permissions" where
  "pte_rw user = \<lparr>pp_read = True, pp_write = True, pp_execute = False, pp_user = user, pp_cow = False\<rparr>"

definition pte_rx :: "bool \<Rightarrow> pte_permissions" where
  "pte_rx user = \<lparr>pp_read = True, pp_write = False, pp_execute = True, pp_user = user, pp_cow = False\<rparr>"

definition pte_rwx :: "bool \<Rightarrow> pte_permissions" where
  "pte_rwx user = \<lparr>pp_read = True, pp_write = True, pp_execute = True, pp_user = user, pp_cow = False\<rparr>"

definition into_cow :: "pte_permissions \<Rightarrow> pte_permissions" where
  "into_cow p = p\<lparr>pp_write := False, pp_cow := True\<rparr>"

definition from_cow :: "pte_permissions \<Rightarrow> pte_permissions" where
  "from_cow p = p\<lparr>pp_write := True, pp_cow := False\<rparr>"

section \<open>Areas\<close>

datatype access_kind = Read | Write | Execute

datatype fault_validation = Valid | NotPresent | AccessDenied

record 'i vma_file_read =
  fr_file_offset :: u64
  fr_page_offset :: usize
  fr_read_len :: usize
  fr_inode :: 'i

record 'i vm_file_mapping =
  fm_file :: 'i
  fm_offset :: u64
  fm_len :: u64

datatype 'i vma_kind = File "'i vm_file_mapping" | Anon

record 'i vmarea =
  vm_region :: region
  vm_kind :: "'i vma_kind"
  vm_permissions :: vma_permissions

definition new_file_kind :: "'i \<Rightarrow> u64 \<Rightarrow> u64 \<Rightarrow> 'i vma_kind" where
  "new_file_kind file offset len = File \<lparr>fm_file = file, fm_offset = offset, fm_len = len\<rparr>"

definition new_vmarea :: "region \<Rightarrow> 'i vma_kind \<Rightarrow> vma_permissions \<Rightarrow> 'i vmarea" where
  "new_vmarea r k p = \<lparr>vm_region = r, vm_kind = k, vm_permissions = p\<rparr>"

text \<open>The fields of an ELF program header after decoding by the \<open>object\<close> crate, and the flag bits
  the ELF specification fixes.\<close>

record program_header =
  p_flags :: u32
  p_vaddr :: u64
  p_memsz :: u64
  p_offset :: u64
  p_filesz :: u64

definition PF_X :: u32 where "PF_X = 1"
definition PF_W :: u32 where "PF_W = 2"
definition PF_R :: u32 where "PF_R = 4"

definition from_pheader :: "'i \<Rightarrow> program_header \<Rightarrow> 'i vmarea outcome" where
  "from_pheader f hdr =
     and_then (to_mappable_region (new_region (p_vaddr hdr) (p_memsz hdr))) (\<lambda>mr.
     Ok \<lparr>vm_region = mr_region mr,
         vm_kind = File \<lparr>fm_file = f,
           fm_offset = p_offset hdr - offset_from_page_start mr,
           fm_len = p_filesz hdr + offset_from_page_start mr\<rparr>,
         vm_permissions = \<lparr>vp_read = p_flags hdr AND PF_R \<noteq> 0, vp_write = p_flags hdr AND PF_W \<noteq> 0,
           vp_execute = p_flags hdr AND PF_X \<noteq> 0\<rparr>\<rparr>)"

definition vma_contains_address :: "'i vmarea \<Rightarrow> usize \<Rightarrow> bool" where
  "vma_contains_address v a = contains_address (vm_region v) a"

definition validate_fault :: "'i vmarea \<Rightarrow> usize \<Rightarrow> access_kind \<Rightarrow> fault_validation" where
  "validate_fault v a kind =
     (if \<not> vma_contains_address v a then NotPresent
      else if (case kind of Read \<Rightarrow> vp_read (vm_permissions v)
                 | Write \<Rightarrow> vp_write (vm_permissions v)
                 | Execute \<Rightarrow> vp_execute (vm_permissions v))
           then Valid else AccessDenied)"

definition resolve_fault :: "'i vmarea \<Rightarrow> usize \<Rightarrow> 'i vma_file_read option" where
  "resolve_fault v faulting_addr =
     (case vm_kind v of
        Anon \<Rightarrow> None
      | File mapping \<Rightarrow>
          let vma_start_addr = start_address (vm_region v);
              vaddr = vma_start_addr;
              off = fm_offset mapping;
              filesz = fm_len mapping;
              vaddr_page_offset = vaddr AND PAGE_MASK;
              map_start_vaddr = page_aligned vma_start_addr;
              map_start_foffset = off - vaddr_page_offset;
              fault_page_vaddr = page_aligned faulting_addr;
              fault_page_offset_in_map = saturating_sub fault_page_vaddr map_start_vaddr;
              file_offset_for_page_start = map_start_foffset + fault_page_offset_in_map;
              page_write_offset =
                (if fault_page_vaddr = map_start_vaddr then vaddr_page_offset else 0);
              read_start_file_offset = max file_offset_for_page_start off;
              read_end_file_offset = off + filesz;
              read_len = saturating_sub read_end_file_offset read_start_file_offset;
              final_read_len = min read_len (PAGE_SIZE - page_write_offset)
          in if final_read_len = 0 then None
             else Some \<lparr>fr_file_offset = read_start_file_offset,
                        fr_page_offset = page_write_offset,
                        fr_read_len = final_read_len, fr_inode = fm_file mapping\<rparr>)"

definition can_merge_with :: "'i vmarea \<Rightarrow> 'i vmarea \<Rightarrow> bool" where
  "can_merge_with v other =
     (if vm_permissions v \<noteq> vm_permissions other then False
      else case (vm_kind v, vm_kind other) of
        (Anon, Anon) \<Rightarrow> True
      | (File self_map, File other_map) \<Rightarrow>
          fm_file self_map = fm_file other_map \<and>
          fm_offset other_map = fm_offset self_map + rg_size (vm_region v)
      | _ \<Rightarrow> False)"

definition clone_with_new_region :: "'i vmarea \<Rightarrow> region \<Rightarrow> 'i vmarea" where
  "clone_with_new_region v r = v\<lparr>vm_region := r\<rparr>"

definition is_file_backed :: "'i vmarea \<Rightarrow> bool" where
  "is_file_backed v = (case vm_kind v of File _ \<Rightarrow> True | Anon \<Rightarrow> False)"

definition shrink_to :: "'i vmarea \<Rightarrow> region \<Rightarrow> 'i vmarea" where
  "shrink_to v r =
     (let new_vma = clone_with_new_region v r
      in case vm_kind v of
           File m \<Rightarrow>
             let start_offset = start_address r - start_address (vm_region v);
                 new_sz = min (saturating_sub (fm_len m) start_offset) (rg_size r)
             in if new_sz = 0 then new_vma\<lparr>vm_kind := Anon\<rparr>
                else new_vma\<lparr>vm_kind := File \<lparr>fm_file = fm_file m,
                       fm_offset = fm_offset m + start_offset, fm_len = new_sz\<rparr>\<rparr>
         | Anon \<Rightarrow> new_vma)"

section \<open>What an area backs\<close>

text \<open>The file position that supplies the byte at address \<open>b\<close> of an area, \<open>None\<close> where the byte is
  demand-zeroed; and the position a fault resolution reads the byte from.\<close>

definition backing :: "'i vmarea \<Rightarrow> nat \<Rightarrow> ('i \<times> nat) option" where
  "backing v b =
     (case vm_kind v of
        Anon \<Rightarrow> None
      | File m \<Rightarrow> if lo (vm_region v) \<le> b \<and> b < lo (vm_region v) + unat (fm_len m)
                  then Some (fm_file m, unat (fm_offset m) + (b - lo (vm_region v))) else None)"

definition read_source :: "'i vma_file_read option \<Rightarrow> nat \<Rightarrow> ('i \<times> nat) option" where
  "read_source r b =
     (case r of
        None \<Rightarrow> None
      | Some rd \<Rightarrow>
          if unat (fr_page_offset rd) \<le> b mod 4096 \<and>
             b mod 4096 < unat (fr_page_offset rd) + unat (fr_read_len rd)
          then Some (fr_inode rd, unat (fr_file_offset rd) + (b mod 4096 - unat (fr_page_offset rd)))
          else None)"

text \<open>A file mapping whose data does not run past the end of the 64-bit file offsets, and whose
  offset admits the page-aligned start.\<close>

definition vma_wf :: "'i vmarea \<Rightarrow> bool" where
  "vma_wf v \<longleftrightarrow> wf_region (vm_region v) \<and> rg_size (vm_region v) \<noteq> 0 \<and>
     (case vm_kind v of Anon \<Rightarrow> True
      | File m \<Rightarrow> unat (fm_offset m) + unat (fm_len m) + hi (vm_region v) < 2 ^ 64 \<and>
                  lo (vm_region v) mod 4096 \<le> unat (fm_offset m))"

section \<open>Fault resolution\<close>

lemma page_mask_offset: "unat (a AND PAGE_MASK) = unat a mod 4096"
  using unat_page_offset [of a] by (simp add: page_offset_def)

lemma page_aligned_eq_iff: "page_aligned a = page_aligned b \<longleftrightarrow> unat a div 4096 = unat b div 4096"
  by (auto simp: word_unat_eq_iff unat_page_aligned round_down_def)

text \<open>The bytes the read supplies, from its page offset \<open>P\<close>, its start \<open>S\<close> and the end of the data.\<close>

lemma read_source_File:
  assumes k: "vm_kind v = File m"
    and P: "P = (if page_aligned a = page_aligned (start_address (vm_region v))
                 then start_address (vm_region v) AND PAGE_MASK else 0)"
    and S: "S = max (fm_offset m - (start_address (vm_region v) AND PAGE_MASK) +
               saturating_sub (page_aligned a) (page_aligned (start_address (vm_region v)))) (fm_offset m)"
  shows "read_source (resolve_fault v a) b =
    (if unat P \<le> b mod 4096 \<and>
        b mod 4096 < unat P + min (unat (fm_offset m + fm_len m) - unat S) (unat (PAGE_SIZE - P))
     then Some (fm_file m, unat S + (b mod 4096 - unat P)) else None)"
proof -
  let ?R = "min (saturating_sub (fm_offset m + fm_len m) S) (PAGE_SIZE - P)"
  have u: "unat ?R = min (unat (fm_offset m + fm_len m) - unat S) (unat (PAGE_SIZE - P))"
    by (simp add: unat_min_word unat_saturating_sub)
  have r: "resolve_fault v a = (if ?R = 0 then None
      else Some \<lparr>fr_file_offset = S, fr_page_offset = P, fr_read_len = ?R, fr_inode = fm_file m\<rparr>)"
    unfolding resolve_fault_def k P S by (simp only: Let_def vma_kind.case)
  show ?thesis
  proof (cases "?R = 0")
    case True
    then have "unat ?R = 0" by simp
    then show ?thesis unfolding r if_P [OF True] u [symmetric] by (simp add: read_source_def)
  next
    case False
    show ?thesis unfolding r if_not_P [OF False] u [symmetric]
      by (simp only: read_source_def option.case vma_file_read.simps)
  qed
qed

text \<open>The values on the first page and on the later pages of the mapping.\<close>

lemma resolve_fault_values:
  assumes wf: "vma_wf v" and k: "vm_kind v = File m" and a: "a \<ge> start_address (vm_region v)"
    "a < end_address (vm_region v)"
    and P: "P = (if page_aligned a = page_aligned (start_address (vm_region v))
                 then start_address (vm_region v) AND PAGE_MASK else 0)"
    and S: "S = max (fm_offset m - (start_address (vm_region v) AND PAGE_MASK) +
               saturating_sub (page_aligned a) (page_aligned (start_address (vm_region v)))) (fm_offset m)"
  shows "unat (fm_offset m + fm_len m) = unat (fm_offset m) + unat (fm_len m)"
    "unat (PAGE_SIZE - P) = 4096 - unat P"
    "unat P = (if unat a div 4096 = lo (vm_region v) div 4096 then lo (vm_region v) mod 4096 else 0)"
    "unat S + lo (vm_region v) = unat (fm_offset m) + (unat a div 4096 * 4096 + unat P)"
proof -
  let ?s = "start_address (vm_region v)" and ?lo = "lo (vm_region v)"
  have lo: "unat ?s = ?lo" by (simp add: start_address_def lo_def)
  have hi: "unat (end_address (vm_region v)) = hi (vm_region v)"
    using wf by (simp add: vma_wf_def wf_region_def hi_def end_address_def unat_add_usize)
  have ua: "?lo \<le> unat a" "unat a < hi (vm_region v)"
    using a by (simp_all add: word_le_nat_alt word_less_nat_alt lo hi)
  have w: "unat (fm_offset m) + unat (fm_len m) + hi (vm_region v) < 2 ^ 64"
    "?lo mod 4096 \<le> unat (fm_offset m)"
    using wf k by (auto simp: vma_wf_def)
  show "unat (fm_offset m + fm_len m) = unat (fm_offset m) + unat (fm_len m)"
    using w by (simp add: unat_add_usize)
  show P': "unat P = (if unat a div 4096 = ?lo div 4096 then ?lo mod 4096 else 0)"
    unfolding P by (simp add: page_aligned_eq_iff lo page_mask_offset)
  have "unat P < 4096" unfolding P' by simp
  then show "unat (PAGE_SIZE - P) = 4096 - unat P"
    by (subst unat_sub_usize) simp_all
  let ?d = "saturating_sub (page_aligned a) (page_aligned ?s)"
  have d: "unat ?d = unat a div 4096 * 4096 - ?lo div 4096 * 4096"
    by (simp add: unat_saturating_sub unat_page_aligned round_down_def lo)
  have x: "unat (fm_offset m - (?s AND PAGE_MASK)) = unat (fm_offset m) - ?lo mod 4096"
    using w(2) by (subst unat_sub_usize) (simp_all add: page_mask_offset lo)
  have pg: "?lo div 4096 * 4096 + ?lo mod 4096 = ?lo" "unat a div 4096 * 4096 \<le> unat a"
    "?lo div 4096 \<le> unat a div 4096"
    using ua(1) by (simp_all add: div_le_mono)
  have y: "unat (fm_offset m - (?s AND PAGE_MASK) + ?d) =
      unat (fm_offset m) - ?lo mod 4096 + (unat a div 4096 * 4096 - ?lo div 4096 * 4096)"
  proof -
    have "unat (fm_offset m) - ?lo mod 4096 + (unat a div 4096 * 4096 - ?lo div 4096 * 4096) < 2 ^ 64"
      using w ua pg by linarith
    then show ?thesis by (subst unat_add_usize) (simp_all only: x d)
  qed
  have S': "unat S = max (unat (fm_offset m) - ?lo mod 4096 +
      (unat a div 4096 * 4096 - ?lo div 4096 * 4096)) (unat (fm_offset m))"
    unfolding S by (simp only: unat_max_word y)
  show "unat S + ?lo = unat (fm_offset m) + (unat a div 4096 * 4096 + unat P)"
  proof (cases "unat a div 4096 = ?lo div 4096")
    case True
    then show ?thesis using w(2) pg unfolding S' P' by simp
  next
    case False
    then have "?lo div 4096 * 4096 + 4096 \<le> unat a div 4096 * 4096" using pg(3) by simp
    moreover have "?lo mod 4096 < 4096" by simp
    ultimately show ?thesis using False w(2) pg(1) unfolding S' P' max_def by auto
  qed
qed

text \<open>C34. Resolving a fault at an address of an area yields a read that supplies every byte of
  the faulting page that belongs to the area from exactly the file position the mapping assigns
  to it, and leaves precisely the bytes beyond the file data to be zero-filled; for anonymous
  areas there is no read.\<close>

theorem resolve_fault_correct:
  assumes wf: "vma_wf v" and a: "vma_contains_address v a"
    and b: "b \<in> bytes_of (vm_region v)" "b div 4096 = unat a div 4096"
  shows "read_source (resolve_fault v a) b = backing v b"
proof (cases "vm_kind v")
  case Anon
  then show ?thesis by (simp add: resolve_fault_def backing_def read_source_def)
next
  case (File m)
  have a': "a \<ge> start_address (vm_region v)" "a < end_address (vm_region v)"
    using a by (auto simp: vma_contains_address_def contains_address_def)
  let ?P = "if page_aligned a = page_aligned (start_address (vm_region v))
            then start_address (vm_region v) AND PAGE_MASK else 0"
  let ?S = "max (fm_offset m - (start_address (vm_region v) AND PAGE_MASK) +
    saturating_sub (page_aligned a) (page_aligned (start_address (vm_region v)))) (fm_offset m)"
  note v = resolve_fault_values [OF wf File a' refl [of ?P] refl [of ?S]]
  note r = read_source_File [OF File refl [of ?P] refl [of ?S], of b]
  define P S where "P = unat ?P" and "S = unat ?S"
  let ?lo = "lo (vm_region v)" and ?off = "unat (fm_offset m)"
  have bb: "?lo \<le> b" "b = unat a div 4096 * 4096 + b mod 4096"
    using b by (auto simp: bytes_of_def) (metis div_mult_mod_eq)
  have S: "S + ?lo = ?off + (unat a div 4096 * 4096 + P)" using v(4) unfolding P_def S_def .
  have Pv: "P = (if unat a div 4096 = ?lo div 4096 then ?lo mod 4096 else 0)"
    unfolding P_def by (rule v(3))
  have P: "P \<le> b mod 4096"
  proof (cases "unat a div 4096 = ?lo div 4096")
    case True
    then have "?lo = unat a div 4096 * 4096 + ?lo mod 4096" by (metis div_mult_mod_eq)
    moreover have "P = ?lo mod 4096" using Pv True by simp
    ultimately show ?thesis using bb by linarith
  qed (simp add: Pv)
  have pos: "S + (b mod 4096 - P) = ?off + (b - ?lo)" using S P bb by linarith
  have "b mod 4096 < P + min (?off + unat (fm_len m) - S) (4096 - P) \<longleftrightarrow> b < ?lo + unat (fm_len m)"
    using S P bb by (auto simp: min_def)
  then show ?thesis
    unfolding r v(1,2) P_def [symmetric] S_def [symmetric] pos backing_def File
    using P bb(1) by simp
qed

definition text_vma :: "nat vmarea" where
  "text_vma = new_vmarea (new_region 0x400000 0x3000) (new_file_kind 7 0x1000 0x1800) vma_rx"

lemma text_vma_wf: "vma_wf text_vma"
  by (simp add: vma_wf_def text_vma_def new_vmarea_def new_file_kind_def new_region_def wf_region_def
      hi_def lo_def)

theorem resolve_fault_correct_witness:
  "read_source (resolve_fault text_vma 0x401234) 0x401010 = Some (7, 0x2010)"
proof -
  have "vma_contains_address text_vma 0x401234" by code_simp
  moreover have "0x401010 \<in> bytes_of (vm_region text_vma)"
    by (simp add: text_vma_def new_vmarea_def new_region_def bytes_of_def lo_def hi_def)
  moreover have "backing text_vma 0x401010 = Some (7, 0x2010)"
    by (simp add: backing_def text_vma_def new_vmarea_def new_file_kind_def new_region_def lo_def)
  moreover have "(0x401010 :: nat) div 4096 = unat (0x401234 :: usize) div 4096" by simp
  ultimately show ?thesis using resolve_fault_correct [OF text_vma_wf] by metis
qed

section \<open>Shrinking\<close>

text \<open>Shrinking an area to a sub-region keeps, for every byte of the sub-region, the
  permissions and the file position that backs it, also where the file data ends inside or
  before the sub-region; the result is again well formed.\<close>

theorem shrink_to_correct:
  assumes wf: "vma_wf v" and r: "contains (vm_region v) r" "wf_region r" "rg_size r \<noteq> 0"
    and al: "lo (vm_region v) mod 4096 = 0" "lo r mod 4096 = 0"
  shows "vm_region (shrink_to v r) = r \<and> vm_permissions (shrink_to v r) = vm_permissions v \<and>
    vma_wf (shrink_to v r) \<and> (\<forall>b\<in>bytes_of r. backing (shrink_to v r) b = backing v b)"
proof -
  let ?v = "vm_region v"
  have sub: "lo ?v \<le> lo r" "hi r \<le> hi ?v"
    using r(1,2) wf by (auto simp: contains_def vma_wf_def wf_region_def word_le_nat_alt start_address_def
        end_address_def lo_def hi_def unat_add_usize)
  show ?thesis
  proof (cases "vm_kind v")
    case Anon
    then show ?thesis
      using r by (simp add: shrink_to_def clone_with_new_region_def vma_wf_def backing_def Let_def)
  next
    case (File m)
    define ow where "ow = start_address r - start_address ?v"
    define zw where "zw = min (saturating_sub (fm_len m) ow) (rg_size r)"
    have o: "unat ow = lo r - lo ?v"
      using sub(1) by (simp add: ow_def unat_sub_usize start_address_def lo_def)
    have z: "unat zw = min (unat (fm_len m) - (lo r - lo ?v)) (hi r - lo r)"
      by (simp add: zw_def unat_min_word unat_saturating_sub o) (simp add: hi_def lo_def)
    have w: "unat (fm_offset m) + unat (fm_len m) + hi ?v < 2 ^ 64" using wf File by (simp add: vma_wf_def)
    have lt: "unat (fm_offset m) + (lo r - lo ?v) < 2 ^ 64" using w sub lo_le_hi [of r] by linarith
    have f: "unat (fm_offset m + ow) = unat (fm_offset m) + (lo r - lo ?v)"
      using lt by (subst unat_add_usize) (simp_all only: o)
    show ?thesis
    proof (cases "zw = 0")
      case True
      then have s: "shrink_to v r = v\<lparr>vm_region := r, vm_kind := Anon\<rparr>"
        by (simp add: shrink_to_def File clone_with_new_region_def Let_def zw_def ow_def)
      have z0: "unat (fm_len m) - (lo r - lo ?v) = 0 \<or> hi r - lo r = 0"
        using z True by (simp add: min_def split: if_splits)
      have "backing v b = None" if "b \<in> bytes_of r" for b
        using that z0 sub(1) by (auto simp: backing_def File bytes_of_def)
      then show ?thesis using s r by (simp add: vma_wf_def backing_def)
    next
      case False
      then have s: "shrink_to v r = v\<lparr>vm_region := r, vm_kind := File \<lparr>fm_file = fm_file m,
          fm_offset = fm_offset m + ow, fm_len = zw\<rparr>\<rparr>"
        by (simp add: shrink_to_def File clone_with_new_region_def Let_def zw_def ow_def)
      have "backing (shrink_to v r) b = backing v b" if "b \<in> bytes_of r" for b
      proof -
        have b: "lo r \<le> b" "b < hi r" using that by (simp_all add: bytes_of_def)
        then have "b < lo r + unat zw \<longleftrightarrow> b < lo ?v + unat (fm_len m)"
          using sub unfolding z by (simp add: min_def) linarith
        then show ?thesis using b(1) sub(1) unfolding s by (simp add: backing_def File f)
      qed
      moreover have "unat (fm_offset m) + (lo r - lo ?v) + unat zw + hi r < 2 ^ 64"
      proof -
        have "unat zw \<le> unat (fm_len m) - (lo r - lo ?v)" using z by simp
        moreover have "0 < unat zw" using False by (simp add: unat_gt_0)
        ultimately show ?thesis using w sub by linarith
      qed
      then have "vma_wf (shrink_to v r)" using r(2,3) al(2) unfolding s by (simp add: vma_wf_def f)
      ultimately show ?thesis using s by simp
    qed
  qed
qed

theorem shrink_to_correct_witness:
  "backing (shrink_to text_vma (new_region 0x401000 0x1000)) 0x401234 = backing text_vma 0x401234"
proof -
  have c: "contains (vm_region text_vma) (new_region 0x401000 0x1000)" by code_simp
  have b: "0x401234 \<in> bytes_of (new_region 0x401000 0x1000)"
    by (simp add: bytes_of_def hi_def lo_def new_region_def)
  show ?thesis
    using shrink_to_correct [OF text_vma_wf c] b
    by (simp add: wf_region_def hi_def lo_def text_vma_def new_vmarea_def new_region_def)
qed

end
