(* ===== verification/BTree.thy ===== *)
theory BTree
  imports Prelude
begin

text \<open>
  The part of \<open>alloc::collections::BTreeMap\<close> the kernel uses: a map with ordered keys, as the
  list of its entries in key order. \<open>range(..=k).next_back()\<close>, \<open>range(..k).next_back()\<close> and
  \<open>range(k..)\<close> are \<open>bt_last_le\<close>, \<open>bt_last_lt\<close> and \<open>bt_from\<close>.
\<close>

type_synonym ('k, 'v) btree = "('k \<times> 'v) list"

definition bt_ok :: "('k::linorder, 'v) btree \<Rightarrow> bool" where
  "bt_ok m \<longleftrightarrow> sorted_wrt (<) (map fst m)"

fun bt_insert :: "'k::linorder \<Rightarrow> 'v \<Rightarrow> ('k, 'v) btree \<Rightarrow> ('k, 'v) btree" where
  "bt_insert k v [] = [(k, v)]"
| "bt_insert k v ((k', v') # m) =
     (if k < k' then (k, v) # (k', v') # m
      else if k = k' then (k, v) # m
      else (k', v') # bt_insert k v m)"

definition bt_get :: "('k, 'v) btree \<Rightarrow> 'k \<Rightarrow> 'v option" where
  "bt_get m k = map_of m k"

definition bt_remove :: "'k \<Rightarrow> ('k, 'v) btree \<Rightarrow> ('k, 'v) btree" where
  "bt_remove k m = filter (\<lambda>e. fst e \<noteq> k) m"

definition last_entry :: "'a list \<Rightarrow> 'a option" where
  "last_entry xs = (if xs = [] then None else Some (last xs))"

definition bt_last_le :: "('k::linorder, 'v) btree \<Rightarrow> 'k \<Rightarrow> ('k \<times> 'v) option" where
  "bt_last_le m k = last_entry (filter (\<lambda>e. fst e \<le> k) m)"

definition bt_last_lt :: "('k::linorder, 'v) btree \<Rightarrow> 'k \<Rightarrow> ('k \<times> 'v) option" where
  "bt_last_lt m k = last_entry (filter (\<lambda>e. fst e < k) m)"

definition bt_from :: "('k::linorder, 'v) btree \<Rightarrow> 'k \<Rightarrow> ('k, 'v) btree" where
  "bt_from m k = filter (\<lambda>e. k \<le> fst e) m"

section \<open>Laws\<close>

lemma set_bt_insert: "bt_ok m \<Longrightarrow> set (bt_insert k v m) = insert (k, v) {e \<in> set m. fst e \<noteq> k}"
  by (induction k v m rule: bt_insert.induct) (auto simp: bt_ok_def)

lemma bt_ok_insert: "bt_ok m \<Longrightarrow> bt_ok (bt_insert k v m)"
  by (induction k v m rule: bt_insert.induct) (auto simp: bt_ok_def set_bt_insert [unfolded bt_ok_def])

lemma set_bt_remove: "set (bt_remove k m) = {e \<in> set m. fst e \<noteq> k}"
  by (auto simp: bt_remove_def)

lemma bt_ok_filter: "bt_ok m \<Longrightarrow> bt_ok (filter P m)"
  by (induction m) (auto simp: bt_ok_def)

lemma bt_ok_remove: "bt_ok m \<Longrightarrow> bt_ok (bt_remove k m)"
  by (simp add: bt_remove_def bt_ok_filter)

lemma bt_ok_distinct: "bt_ok m \<Longrightarrow> distinct (map fst m)"
  unfolding bt_ok_def by (metis strict_sorted_iff)

lemma bt_get_Some: "bt_ok m \<Longrightarrow> bt_get m k = Some v \<longleftrightarrow> (k, v) \<in> set m"
  unfolding bt_get_def by (metis bt_ok_distinct map_of_SomeD map_of_is_SomeI)

lemma bt_get_None: "bt_get m k = None \<longleftrightarrow> k \<notin> fst ` set m"
  by (simp add: bt_get_def map_of_eq_None_iff)

lemma bt_get_insert: "bt_get (bt_insert k v m) j = (if j = k then Some v else bt_get m j)"
  by (induction k v m rule: bt_insert.induct) (auto simp: bt_get_def)

lemma last_entry_filter:
  assumes ok: "bt_ok m" and some: "last_entry (filter P m) = Some e"
  shows "e \<in> set m" "P e" "\<And>x. x \<in> set m \<Longrightarrow> P x \<Longrightarrow> fst x \<le> fst e"
proof -
  have ne: "filter P m \<noteq> []" and e: "e = last (filter P m)"
    using some by (auto simp: last_entry_def split: if_splits)
  have "e \<in> set (filter P m)" unfolding e by (rule last_in_set [OF ne])
  then show "e \<in> set m" "P e" by auto
  fix x assume x: "x \<in> set m" "P x"
  have "sorted_wrt (<) (map fst (filter P m))" using bt_ok_filter [OF ok] by (simp add: bt_ok_def)
  moreover have split: "filter P m = butlast (filter P m) @ [e]" using ne e by simp
  ultimately have sorted: "sorted_wrt (<) (map fst (butlast (filter P m)) @ [fst e])"
    by (metis list.simps(8,9) map_append)
  have "x \<in> set (filter P m)" using x by simp
  then have "x \<in> set (butlast (filter P m) @ [e])" using split by simp
  then show "fst x \<le> fst e" using sorted by (auto simp: sorted_wrt_append)
qed

lemma last_entry_None: "last_entry (filter P m) = None \<longleftrightarrow> (\<forall>x\<in>set m. \<not> P x)"
  by (auto simp: last_entry_def filter_empty_conv)

end
