(* ===== verification/MemoryMap.thy ===== *)
theory MemoryMap
  imports VMArea BTree
begin

text \<open>
  The map of a process's virtual memory areas
  (\<open>libkernel/src/memory/proc_vm/memory_map/mod.rs\<close>) and the process VM with its program break
  (\<open>libkernel/src/memory/proc_vm/mod.rs\<close>). Both are generic in the page-table implementation,
  the trait \<open>UserAddressSpace\<close>; it is a parameter, the record \<open>as_ops\<close> of the four trait methods
  the code calls. An operation returns its outcome and the map it leaves behind, also on errors.
\<close>

definition MMAP_BASE :: usize where "MMAP_BASE = 0x400000000000"

record 'as as_ops =
  as_new :: "'as outcome"
  as_unmap_range :: "region \<Rightarrow> 'as \<Rightarrow> usize list outcome \<times> 'as"
  as_protect_range :: "region \<Rightarrow> pte_permissions \<Rightarrow> 'as \<Rightarrow> unit outcome \<times> 'as"
  as_protect_and_clone_region ::
    "region \<Rightarrow> pte_permissions \<Rightarrow> 'as \<Rightarrow> 'as \<Rightarrow> unit outcome \<times> 'as \<times> 'as"

record ('i, 'as) memory_map =
  vmas :: "(usize, 'i vmarea) btree"
  address_space :: 'as

datatype address_request = Any | Hint usize | Fixed usize bool

abbreviation vma_start :: "'i vmarea \<Rightarrow> usize" where
  "vma_start v \<equiv> start_address (vm_region v)"

abbreviation vma_end :: "'i vmarea \<Rightarrow> usize" where
  "vma_end v \<equiv> end_address (vm_region v)"

section \<open>Construction and lookup\<close>

definition new_memory_map :: "'as as_ops \<Rightarrow> ('i, 'as) memory_map outcome" where
  "new_memory_map A = and_then (as_new A) (\<lambda>s. Ok \<lparr>vmas = [], address_space = s\<rparr>)"

definition with_addr_spc :: "'as \<Rightarrow> ('i, 'as) memory_map" where
  "with_addr_spc s = \<lparr>vmas = [], address_space = s\<rparr>"

definition from_vmas :: "'as as_ops \<Rightarrow> 'i vmarea list \<Rightarrow> ('i, 'as) memory_map outcome" where
  "from_vmas A vs =
     (let m = fold (\<lambda>v m. bt_insert (vma_start v) v m) vs []
      in and_then (as_new A) (\<lambda>s. Ok \<lparr>vmas = m, address_space = s\<rparr>))"

definition find_vma :: "('i, 'as) memory_map \<Rightarrow> usize \<Rightarrow> 'i vmarea option" where
  "find_vma mm addr =
     (case bt_last_le (vmas mm) addr of
        Some (_, vma) \<Rightarrow> if vma_contains_address vma addr then Some vma else None
      | None \<Rightarrow> None)"

definition is_region_free :: "('i, 'as) memory_map \<Rightarrow> region \<Rightarrow> bool" where
  "is_region_free mm r =
     (if (case bt_last_le (vmas mm) (start_address r) of
            Some (_, prev_vma) \<Rightarrow> vma_end prev_vma > start_address r
          | None \<Rightarrow> False)
      then False
      else case bt_from (vmas mm) (start_address r) of
             (next_vma_start, _) # _ \<Rightarrow> \<not> next_vma_start < end_address r
           | [] \<Rightarrow> True)"

text \<open>The loop of \<open>find_free_region\<close> over the areas in reverse order.\<close>

fun find_gap :: "(usize \<times> 'i vmarea) list \<Rightarrow> usize \<Rightarrow> usize \<Rightarrow> region option" where
  "find_gap [] last_vma_end len =
     (if last_vma_end \<ge> len then Some (new_region (last_vma_end - len) len) else None)"
| "find_gap ((_, vma) # es) last_vma_end len =
     (if last_vma_end \<ge> vma_end vma \<and> last_vma_end - vma_end vma \<ge> len
      then Some (new_region (last_vma_end - len) len)
      else find_gap es (vma_start vma) len)"

definition find_free_region :: "('i, 'as) memory_map \<Rightarrow> usize \<Rightarrow> region option" where
  "find_free_region mm len = find_gap (rev (vmas mm)) MMAP_BASE len"

section \<open>Removing and inserting areas\<close>

definition fixup_pg_tables ::
  "'as as_ops \<Rightarrow> ('i, 'as) memory_map \<Rightarrow> region \<Rightarrow> 'i vmarea \<Rightarrow> 'i vmarea option \<Rightarrow>
   usize list outcome \<times> ('i, 'as) memory_map" where
  "fixup_pg_tables A mm fixup_region old_vma new_vma =
     (let unmap = (\<lambda>r. let (res, s) = as_unmap_range A r (address_space mm)
                       in (res, mm\<lparr>address_space := s\<rparr>))
      in case intersection fixup_region (vm_region old_vma) of
        Ok (Some r) \<Rightarrow>
          (case new_vma of
             Some nv \<Rightarrow>
               if is_file_backed old_vma \<or> is_file_backed nv then unmap r
               else if vm_permissions nv \<noteq> vm_permissions old_vma
                    then let (res, s) = as_protect_range A r (pte_from_vma (vm_permissions nv))
                                          (address_space mm)
                         in (and_then res (\<lambda>_. Ok []), mm\<lparr>address_space := s\<rparr>)
                    else (Ok [], mm)
           | None \<Rightarrow> unmap r)
      | Ok None \<Rightarrow> (Ok [], mm)
      | Err e \<Rightarrow> (Err e, mm) | Panic \<Rightarrow> (Panic, mm) | Diverge \<Rightarrow> (Diverge, mm))"

text \<open>What \<open>unmap_region\<close> puts back for an area it has taken out: the parts outside the hole.\<close>

definition put_remainders ::
  "region \<Rightarrow> 'i vmarea \<Rightarrow> (usize, 'i vmarea) btree \<Rightarrow> (usize, 'i vmarea) btree" where
  "put_remainders r v m =
     (let unmap_start = start_address r; unmap_end = end_address r in
      if vma_start v < unmap_start \<and> vma_end v > unmap_end
      then let left_vma = clone_with_new_region v
                 (new_region (vma_start v) (unmap_start - vma_start v));
               right_vma = clone_with_new_region v
                 (new_region unmap_end (vma_end v - unmap_end))
           in bt_insert (vma_start right_vma) right_vma (bt_insert (vma_start left_vma) left_vma m)
      else
        let m1 = (if vma_start v < unmap_start
                  then let nv = clone_with_new_region v
                             (new_region (vma_start v) (unmap_start - vma_start v))
                       in bt_insert (vma_start nv) nv m
                  else m)
        in if vma_end v > unmap_end
           then let nv = clone_with_new_region v (new_region unmap_end (vma_end v - unmap_end));
                    nv' = (case vm_kind nv of
                             File mapping \<Rightarrow>
                               nv\<lparr>vm_kind := File (mapping\<lparr>fm_offset :=
                                    fm_offset mapping + (unmap_end - vma_start v)\<rparr>)\<rparr>
                           | Anon \<Rightarrow> nv)
                in bt_insert (vma_start nv') nv' m1
           else m1)"

definition affected_vmas :: "(usize, 'i vmarea) btree \<Rightarrow> region \<Rightarrow> 'i vmarea list" where
  "affected_vmas m r =
     (case bt_last_lt m (start_address r) of
        Some (_, v) \<Rightarrow> if vma_end v > start_address r then [v] else []
      | None \<Rightarrow> []) @
     takeWhile (\<lambda>v. vma_start v < end_address r) (map snd (bt_from m (start_address r)))"

fun unmap_affected ::
  "'as as_ops \<Rightarrow> region \<Rightarrow> 'i vmarea option \<Rightarrow> 'i vmarea list \<Rightarrow> usize list \<Rightarrow>
   ('i, 'as) memory_map \<Rightarrow> usize list outcome \<times> ('i, 'as) memory_map" where
  "unmap_affected A r rep [] pages mm = (Ok pages, mm)"
| "unmap_affected A r rep (v # vs) pages mm =
     (case bt_get (vmas mm) (vma_start v) of
        None \<Rightarrow> (Panic, mm)
      | Some _ \<Rightarrow>
          st_then (fixup_pg_tables A (mm\<lparr>vmas := bt_remove (vma_start v) (vmas mm)\<rparr>) r v rep)
            (\<lambda>ps mm1. unmap_affected A r rep vs (pages @ ps)
                        (mm1\<lparr>vmas := put_remainders r v (vmas mm1)\<rparr>)))"

definition unmap_region ::
  "'as as_ops \<Rightarrow> ('i, 'as) memory_map \<Rightarrow> region \<Rightarrow> 'i vmarea option \<Rightarrow>
   usize list outcome \<times> ('i, 'as) memory_map" where
  "unmap_region A mm r rep =
     (let affected = affected_vmas (vmas mm) r
      in if affected = [] then (Ok [], mm) else unmap_affected A r rep affected [] mm)"

text \<open>The two merge steps of \<open>insert_and_merge\<close>.\<close>

definition merge_next ::
  "(usize, 'i vmarea) btree \<Rightarrow> 'i vmarea \<Rightarrow> ('i vmarea \<times> (usize, 'i vmarea) btree) outcome" where
  "merge_next m v =
     (case bt_get m (vma_end v) of
        Some next_vma \<Rightarrow>
          if can_merge_with v next_vma
          then (case bt_get m (vma_start next_vma) of
                  None \<Rightarrow> Panic
                | Some removed \<Rightarrow>
                    and_then (expand_by (vm_region v) (rg_size (vm_region removed))) (\<lambda>r.
                      Ok (v\<lparr>vm_region := r\<rparr>, bt_remove (vma_start next_vma) m)))
          else Ok (v, m)
      | None \<Rightarrow> Ok (v, m))"

definition merge_prev ::
  "(usize, 'i vmarea) btree \<Rightarrow> 'i vmarea \<Rightarrow> (usize, 'i vmarea) btree outcome" where
  "merge_prev m v =
     (case bt_last_lt m (vma_start v) of
        Some (key, prev_vma) \<Rightarrow>
          if vma_end prev_vma = vma_start v \<and> can_merge_with prev_vma v
          then and_then (expand_by (vm_region prev_vma) (rg_size (vm_region v))) (\<lambda>r.
                 Ok (bt_insert key (prev_vma\<lparr>vm_region := r\<rparr>) m))
          else Ok (bt_insert (vma_start v) v m)
      | None \<Rightarrow> Ok (bt_insert (vma_start v) v m))"

text \<open>The result of \<open>unmap_region\<close> is ignored, errors included.\<close>

definition insert_and_merge ::
  "'as as_ops \<Rightarrow> ('i, 'as) memory_map \<Rightarrow> 'i vmarea \<Rightarrow> unit outcome \<times> ('i, 'as) memory_map" where
  "insert_and_merge A mm v =
     (case unmap_region A mm (vm_region v) (Some v) of
        (Panic, mm1) \<Rightarrow> (Panic, mm1)
      | (Diverge, mm1) \<Rightarrow> (Diverge, mm1)
      | (_, mm1) \<Rightarrow>
          (case and_then (merge_next (vmas mm1) v) (\<lambda>(v', m). merge_prev m v') of
             Ok m \<Rightarrow> (Ok (), mm1\<lparr>vmas := m\<rparr>)
           | Err e \<Rightarrow> (Err e, mm1) | Panic \<Rightarrow> (Panic, mm1) | Diverge \<Rightarrow> (Diverge, mm1)))"

section \<open>The system-call operations\<close>

definition round_len :: "usize \<Rightarrow> usize" where
  "round_len len = (if len AND PAGE_MASK \<noteq> 0 then (len AND NOT PAGE_MASK) + PAGE_SIZE else len)"

definition choose_region ::
  "('i, 'as) memory_map \<Rightarrow> address_request \<Rightarrow> usize \<Rightarrow> region outcome" where
  "choose_region mm req len =
     (case req of
        Any \<Rightarrow> ok_or (find_free_region mm len) NoMemory
      | Hint a \<Rightarrow>
          let a' = (if \<not> is_page_aligned a then page_aligned a else a); r = new_region a' len
          in if is_region_free mm r then Ok r else ok_or (find_free_region mm len) NoMemory
      | Fixed a permit_overlap \<Rightarrow>
          if \<not> is_page_aligned a then Err InvalidValue
          else let r = new_region a len
               in if \<not> permit_overlap \<and> \<not> is_region_free mm r then Err InvalidValue else Ok r)"

definition mmap ::
  "'as as_ops \<Rightarrow> ('i, 'as) memory_map \<Rightarrow> address_request \<Rightarrow> usize \<Rightarrow> vma_permissions \<Rightarrow>
   'i vma_kind \<Rightarrow> usize outcome \<times> ('i, 'as) memory_map" where
  "mmap A mm req len perms kind =
     (if len = 0 then (Err InvalidValue, mm)
      else st_then (choose_region mm req (round_len len), mm) (\<lambda>r mm0.
             st_then (insert_and_merge A mm0 (new_vmarea r kind perms)) (\<lambda>_ mm1.
               (Ok (start_address r), mm1))))"

definition munmap ::
  "'as as_ops \<Rightarrow> ('i, 'as) memory_map \<Rightarrow> region \<Rightarrow> usize list outcome \<times> ('i, 'as) memory_map" where
  "munmap A mm rg =
     (if \<not> region_is_page_aligned rg then (Err InvalidValue, mm)
      else if rg_size rg = 0 then (Err InvalidValue, mm)
      else st_then (align_to_page_boundary rg, mm) (\<lambda>r mm0. unmap_region A mm0 r None))"

definition protect ::
  "'as as_ops \<Rightarrow> ('i, 'as) memory_map \<Rightarrow> region \<Rightarrow> vma_permissions \<Rightarrow>
   unit outcome \<times> ('i, 'as) memory_map" where
  "protect A mm r p =
     (let (res, s) = as_protect_range A r (pte_from_vma p) (address_space mm)
      in (res, mm\<lparr>address_space := s\<rparr>))"

definition insert_optional ::
  "'as as_ops \<Rightarrow> ('i, 'as) memory_map \<Rightarrow> 'i vmarea \<Rightarrow> region option \<Rightarrow>
   unit outcome \<times> ('i, 'as) memory_map" where
  "insert_optional A mm v part =
     (case part of Some r \<Rightarrow> insert_and_merge A mm (shrink_to v r) | None \<Rightarrow> (Ok (), mm))"

definition mprotect ::
  "'as as_ops \<Rightarrow> ('i, 'as) memory_map \<Rightarrow> region \<Rightarrow> vma_permissions \<Rightarrow>
   unit outcome \<times> ('i, 'as) memory_map" where
  "mprotect A mm protect_region new_perms =
     (if \<not> region_is_page_aligned protect_region then (Err InvalidValue, mm)
      else if rg_size protect_region = 0 then (Err InvalidValue, mm)
      else case find_vma mm (start_address protect_region) of
        None \<Rightarrow> (Err NoMemory, mm)
      | Some found \<Rightarrow>
          (case bt_get (vmas mm) (vma_start found) of
             None \<Rightarrow> (Panic, mm)
           | Some affected \<Rightarrow>
               let mm1 = mm\<lparr>vmas := bt_remove (vma_start found) (vmas mm)\<rparr> in
               if vm_region affected = protect_region
               then st_then (insert_and_merge A mm1 (affected\<lparr>vm_permissions := new_perms\<rparr>))
                      (\<lambda>_ mm2. protect A mm2 protect_region new_perms)
               else if contains (vm_region affected) protect_region
               then st_then (punch_hole (vm_region affected) protect_region, mm1)
                      (\<lambda>(left, right) mm2.
                    let new_vma = (shrink_to affected protect_region)\<lparr>vm_permissions := new_perms\<rparr> in
                    st_then (insert_optional A mm2 affected left) (\<lambda>_ mm3.
                    st_then (protect A mm3 protect_region new_perms) (\<lambda>_ mm4.
                    st_then (insert_and_merge A mm4 new_vma) (\<lambda>_ mm5.
                    insert_optional A mm5 affected right))))
               else (Err NoMemory, mm1)))"

text \<open>The loop of \<open>clone_as_cow\<close>. It may leave the parent's page tables changed on an error.\<close>

fun clone_regions ::
  "'as as_ops \<Rightarrow> 'i vmarea list \<Rightarrow> 'as \<Rightarrow> 'as \<Rightarrow> unit outcome \<times> 'as \<times> 'as" where
  "clone_regions A [] parent child = (Ok (), parent, child)"
| "clone_regions A (v # vs) parent child =
     (let p = pte_from_vma (vm_permissions v);
          p' = (if pp_write p then into_cow p else p)
      in st_then (align_to_page_boundary (vm_region v), parent, child) (\<lambda>r (s, t).
         st_then (as_protect_and_clone_region A r p' s t) (\<lambda>_ (s', t').
         clone_regions A vs s' t')))"

definition clone_as_cow ::
  "'as as_ops \<Rightarrow> ('i, 'as) memory_map \<Rightarrow> ('i, 'as) memory_map outcome \<times> ('i, 'as) memory_map" where
  "clone_as_cow A mm =
     (case as_new A of
        Ok new_as \<Rightarrow>
          (case clone_regions A (map snd (vmas mm)) (address_space mm) new_as of
             (Ok _, parent, child) \<Rightarrow>
               (Ok \<lparr>vmas = vmas mm, address_space = child\<rparr>, mm\<lparr>address_space := parent\<rparr>)
           | (Err e, parent, _) \<Rightarrow> (Err e, mm\<lparr>address_space := parent\<rparr>)
           | (Panic, parent, _) \<Rightarrow> (Panic, mm\<lparr>address_space := parent\<rparr>)
           | (Diverge, parent, _) \<Rightarrow> (Diverge, mm\<lparr>address_space := parent\<rparr>))
      | Err e \<Rightarrow> (Err e, mm) | Panic \<Rightarrow> (Panic, mm) | Diverge \<Rightarrow> (Diverge, mm))"

definition vma_count :: "('i, 'as) memory_map \<Rightarrow> nat" where
  "vma_count mm = length (vmas mm)"

section \<open>The process VM\<close>

definition BRK_PERMISSIONS :: vma_permissions where "BRK_PERMISSIONS = vma_rw"

record ('i, 'as) process_vm =
  mm_map :: "('i, 'as) memory_map"
  brk :: region

definition from_vma_and_address_space ::
  "'as as_ops \<Rightarrow> 'i vmarea \<Rightarrow> 'as \<Rightarrow> ('i, 'as) process_vm outcome" where
  "from_vma_and_address_space A v s =
     (case insert_and_merge A (with_addr_spc s) v of
        (Ok _, mm) \<Rightarrow> and_then (align_up (vma_end v) PAGE_SIZE) (\<lambda>a.
                        Ok \<lparr>mm_map = mm, brk = new_region a 0\<rparr>)
      | (Err e, _) \<Rightarrow> Err e | (Panic, _) \<Rightarrow> Panic | (Diverge, _) \<Rightarrow> Diverge)"

definition from_vma :: "'as as_ops \<Rightarrow> 'i vmarea \<Rightarrow> ('i, 'as) process_vm outcome" where
  "from_vma A v =
     and_then (new_memory_map A) (\<lambda>mm0.
       case insert_and_merge A mm0 v of
         (Ok _, mm) \<Rightarrow> and_then (align_up (vma_end v) PAGE_SIZE) (\<lambda>a.
                         Ok \<lparr>mm_map = mm, brk = new_region a 0\<rparr>)
       | (Err e, _) \<Rightarrow> Err e | (Panic, _) \<Rightarrow> Panic | (Diverge, _) \<Rightarrow> Diverge)"

definition from_map :: "('i, 'as) memory_map \<Rightarrow> usize \<Rightarrow> ('i, 'as) process_vm outcome" where
  "from_map m b = and_then (align_up b PAGE_SIZE) (\<lambda>a. Ok \<lparr>mm_map = m, brk = new_region a 0\<rparr>)"

definition empty_process_vm :: "'as as_ops \<Rightarrow> ('i, 'as) process_vm outcome" where
  "empty_process_vm A = and_then (new_memory_map A) (\<lambda>m. Ok \<lparr>mm_map = m, brk = empty_region\<rparr>)"

definition find_vma_for_fault ::
  "('i, 'as) process_vm \<Rightarrow> usize \<Rightarrow> access_kind \<Rightarrow> 'i vmarea option outcome" where
  "find_vma_for_fault vm addr kind =
     (case find_vma (mm_map vm) addr of
        None \<Rightarrow> Ok None
      | Some v \<Rightarrow> (case validate_fault v addr kind of
            Valid \<Rightarrow> Ok (Some v) | NotPresent \<Rightarrow> Panic | AccessDenied \<Rightarrow> Ok None))"

definition current_brk :: "('i, 'as) process_vm \<Rightarrow> usize" where
  "current_brk vm = end_address (brk vm)"

definition in_map ::
  "('i, 'as) process_vm \<Rightarrow> 'a outcome \<times> ('i, 'as) memory_map \<Rightarrow> 'a outcome \<times> ('i, 'as) process_vm" where
  "in_map vm r = (fst r, vm\<lparr>mm_map := snd r\<rparr>)"

definition resize_brk ::
  "'as as_ops \<Rightarrow> ('i, 'as) process_vm \<Rightarrow> usize \<Rightarrow> usize outcome \<times> ('i, 'as) process_vm" where
  "resize_brk A vm new_end_addr =
     (let brk_start = start_address (brk vm); current_end = end_address (brk vm) in
      if new_end_addr < brk_start then (Err InvalidValue, vm)
      else
        st_then (align_up new_end_addr PAGE_SIZE, vm) (\<lambda>new_end_addr_aligned vm.
        st_then (from_start_end_address brk_start new_end_addr_aligned, vm) (\<lambda>new_brk_region vm.
        if new_end_addr_aligned = current_end then (Ok new_end_addr, vm)
        else if new_end_addr_aligned > current_end
        then st_then (in_map vm (mmap A (mm_map vm) (Fixed current_end False)
                                   (new_end_addr_aligned - current_end) BRK_PERMISSIONS Anon))
               (\<lambda>_ vm. (Ok new_end_addr, vm\<lparr>brk := new_brk_region\<rparr>))
        else st_then (from_start_end_address new_end_addr_aligned current_end, vm) (\<lambda>r vm.
             st_then (in_map vm (munmap A (mm_map vm) r)) (\<lambda>_ vm.
             (Ok new_end_addr, vm\<lparr>brk := new_brk_region\<rparr>))))))"

definition vm_clone_as_cow ::
  "'as as_ops \<Rightarrow> ('i, 'as) process_vm \<Rightarrow> ('i, 'as) process_vm outcome \<times> ('i, 'as) process_vm" where
  "vm_clone_as_cow A vm =
     st_then (in_map vm (clone_as_cow A (mm_map vm))) (\<lambda>m vm1.
       (Ok \<lparr>mm_map = m, brk = brk vm1\<rparr>, vm1))"

end
