(* ===== verification/MemoryMapProps.thy ===== *)
theory MemoryMapProps
  imports MemoryMap
begin

text \<open>
  Correctness of the memory map: the invariant on its areas, the view of an address space as a
  function from addresses to the permissions and the backing file of the area that contains
  them, and the effect of every operation on this view.
\<close>

section \<open>The invariant and the view\<close>

abbreviation vbytes :: "'i vmarea \<Rightarrow> nat set" where
  "vbytes v \<equiv> bytes_of (vm_region v)"

definition page_region_ok :: "region \<Rightarrow> bool" where
  "page_region_ok r \<longleftrightarrow> wf_region r \<and> rg_size r \<noteq> 0 \<and> 4096 dvd lo r \<and> 4096 dvd hi r"

definition areas_ok :: "(usize, 'i vmarea) btree \<Rightarrow> bool" where
  "areas_ok m \<longleftrightarrow> bt_ok m \<and>
     (\<forall>e\<in>set m. fst e = vma_start (snd e) \<and> page_region_ok (vm_region (snd e))) \<and>
     (\<forall>e\<in>set m. \<forall>e'\<in>set m. e \<noteq> e' \<longrightarrow> vbytes (snd e) \<inter> vbytes (snd e') = {})"

definition vma_at :: "(usize, 'i vmarea) btree \<Rightarrow> nat \<Rightarrow> 'i vmarea option" where
  "vma_at m a = List.find (\<lambda>v. a \<in> vbytes v) (map snd m)"

definition attr :: "'i vmarea \<Rightarrow> vma_permissions \<times> 'i option" where
  "attr v = (vm_permissions v, case vm_kind v of Anon \<Rightarrow> None | File m \<Rightarrow> Some (fm_file m))"

definition attr_at :: "(usize, 'i vmarea) btree \<Rightarrow> nat \<Rightarrow> (vma_permissions \<times> 'i option) option" where
  "attr_at m a = map_option attr (vma_at m a)"

lemma page_region_okD:
  assumes "page_region_ok r"
  shows "lo r < hi r" "unat (end_address r) = hi r" "unat (start_address r) = lo r" "lo r \<in> bytes_of r"
    "hi r < 2 ^ 64"
proof -
  show "lo r < hi r" using assms by (simp add: page_region_ok_def lo_def hi_def unat_gt_0)
  then show "lo r \<in> bytes_of r" by (simp add: bytes_of_def)
  show "unat (end_address r) = hi r" "hi r < 2 ^ 64"
    using assms by (auto simp: page_region_ok_def wf_region_def end_address_def hi_def unat_add_usize)
  show "unat (start_address r) = lo r" by (simp add: start_address_def lo_def)
qed

lemma areas_okD:
  assumes "areas_ok m" "(k, v) \<in> set m"
  shows "k = vma_start v" "page_region_ok (vm_region v)"
  using assms by (auto simp: areas_ok_def)

lemma areas_disjoint:
  "areas_ok m \<Longrightarrow> e \<in> set m \<Longrightarrow> e' \<in> set m \<Longrightarrow> e \<noteq> e' \<Longrightarrow> vbytes (snd e) \<inter> vbytes (snd e') = {}"
  unfolding areas_ok_def by blast

lemma vma_at_None: "vma_at m a = None \<longleftrightarrow> (\<forall>v\<in>snd ` set m. a \<notin> vbytes v)"
  by (auto simp: vma_at_def find_None_iff)

lemma vma_at_SomeD: "vma_at m a = Some v \<Longrightarrow> v \<in> snd ` set m \<and> a \<in> vbytes v"
  unfolding vma_at_def find_Some_iff by (metis length_map nth_mem set_map)

lemma vma_at_Some:
  assumes ok: "areas_ok m"
  shows "vma_at m a = Some v \<longleftrightarrow> v \<in> snd ` set m \<and> a \<in> vbytes v"
proof
  assume v: "v \<in> snd ` set m \<and> a \<in> vbytes v"
  then obtain w where w: "vma_at m a = Some w" using vma_at_None [of m a] by (cases "vma_at m a") auto
  from vma_at_SomeD [OF w] have w': "w \<in> snd ` set m" "a \<in> vbytes w" by auto
  obtain e e' where e: "e \<in> set m" "e' \<in> set m" "snd e = v" "snd e' = w" using v w'(1) by auto
  have "e = e'"
  proof (rule ccontr)
    assume "e \<noteq> e'"
    from areas_disjoint [OF ok e(1,2) this] have "vbytes v \<inter> vbytes w = {}" unfolding e(3,4) .
    then show False using v w'(2) by blast
  qed
  then show "vma_at m a = Some v" using w e by simp
qed (rule vma_at_SomeD)

text \<open>Inserting an area at a free place and removing one.\<close>

lemma areas_insert:
  assumes ok: "areas_ok m" and v: "page_region_ok (vm_region v)"
    and dis: "\<And>w. w \<in> snd ` set m \<Longrightarrow> vbytes w \<inter> vbytes v = {}"
  shows "areas_ok (bt_insert (vma_start v) v m)"
    "set (bt_insert (vma_start v) v m) = insert (vma_start v, v) (set m)"
    "vma_at (bt_insert (vma_start v) v m) a = (if a \<in> vbytes v then Some v else vma_at m a)"
proof -
  have bt: "bt_ok m" using ok by (simp add: areas_ok_def)
  have "fst e \<noteq> vma_start v" if "e \<in> set m" for e
  proof
    assume eq: "fst e = vma_start v"
    have e: "fst e = vma_start (snd e)" "page_region_ok (vm_region (snd e))"
      using ok that by (simp_all add: areas_ok_def)
    have "lo (vm_region (snd e)) = lo (vm_region v)" using e(1) eq by (simp add: lo_def start_address_def)
    then have "lo (vm_region v) \<in> vbytes (snd e) \<inter> vbytes v"
      using page_region_okD(4) [OF e(2)] page_region_okD(4) [OF v] by simp
    then show False using dis [of "snd e"] that by auto
  qed
  then show set: "set (bt_insert (vma_start v) v m) = insert (vma_start v, v) (set m)"
    using set_bt_insert [OF bt] by auto
  show ok': "areas_ok (bt_insert (vma_start v) v m)"
    unfolding areas_ok_def set
  proof (intro conjI ballI impI)
    show "bt_ok (bt_insert (vma_start v) v m)" using bt_ok_insert [OF bt] .
  next
    fix e assume "e \<in> insert (vma_start v, v) (set m)"
    then show "fst e = vma_start (snd e)" "page_region_ok (vm_region (snd e))"
      using ok v by (auto simp: areas_ok_def)
  next
    fix e e' assume "e \<in> insert (vma_start v, v) (set m)" "e' \<in> insert (vma_start v, v) (set m)" "e \<noteq> e'"
    then show "vbytes (snd e) \<inter> vbytes (snd e') = {}"
      using areas_disjoint [OF ok, of e e'] dis [of "snd e"] dis [of "snd e'"] by auto
  qed
  show "vma_at (bt_insert (vma_start v) v m) a = (if a \<in> vbytes v then Some v else vma_at m a)"
  proof (cases "vma_at (bt_insert (vma_start v) v m) a")
    case None
    then have n: "\<forall>w\<in>snd ` insert (vma_start v, v) (set m). a \<notin> vbytes w"
      using vma_at_None [of "bt_insert (vma_start v) v m" a] set by simp
    then have "vma_at m a = None" using vma_at_None [of m a] by blast
    then show ?thesis using None n by simp
  next
    case (Some w)
    then have "w \<in> snd ` insert (vma_start v, v) (set m)" "a \<in> vbytes w"
      using vma_at_Some [OF ok'] set by auto
    then show ?thesis using Some vma_at_Some [OF ok, of a w] dis [of w] by auto
  qed
qed

lemma areas_remove:
  assumes ok: "areas_ok m" and v: "(k, v) \<in> set m"
  shows "areas_ok (bt_remove k m)" "set (bt_remove k m) = set m - {(k, v)}"
    "vma_at (bt_remove k m) a = (if a \<in> vbytes v then None else vma_at m a)"
    "\<And>w. w \<in> snd ` set (bt_remove k m) \<Longrightarrow> vbytes w \<inter> vbytes v = {}"
proof -
  have bt: "bt_ok m" using ok by (simp add: areas_ok_def)
  have uniq: "e = (k, v)" if "e \<in> set m" "fst e = k" for e
    using bt_get_Some [OF bt, of k "snd e"] bt_get_Some [OF bt, of k v] v that by (cases e) auto
  have iff: "fst e \<noteq> k \<longleftrightarrow> e \<noteq> (k, v)" if "e \<in> set m" for e
    using uniq [OF that] by (metis fst_conv)
  show set: "set (bt_remove k m) = set m - {(k, v)}" unfolding set_bt_remove using iff by blast
  show ok': "areas_ok (bt_remove k m)"
    using ok bt_ok_remove [OF bt] unfolding areas_ok_def set by blast
  show dis: "vbytes w \<inter> vbytes v = {}" if w: "w \<in> snd ` set (bt_remove k m)" for w
  proof -
    obtain e where e: "e \<in> set (bt_remove k m)" "snd e = w" using w by auto
    from e(1) have "e \<in> set m" "e \<noteq> (k, v)" unfolding set by blast+
    from areas_disjoint [OF ok this(1) v this(2)] show ?thesis by (simp add: e(2))
  qed
  show "vma_at (bt_remove k m) a = (if a \<in> vbytes v then None else vma_at m a)"
  proof (cases "vma_at (bt_remove k m) a")
    case None
    then have n: "\<forall>w\<in>snd ` (set m - {(k, v)}). a \<notin> vbytes w"
      using vma_at_None [of "bt_remove k m" a] set by simp
    show ?thesis
    proof (cases "a \<in> vbytes v")
      case False
      have "a \<notin> vbytes (snd e)" if "e \<in> set m" for e
        using n False that by (cases "e = (k, v)") auto
      then have "\<forall>w\<in>snd ` set m. a \<notin> vbytes w" by blast
      then show ?thesis using False None vma_at_None [of m a] by simp
    qed (simp add: None)
  next
    case (Some w)
    then have w: "w \<in> snd ` set (bt_remove k m)" "a \<in> vbytes w" using vma_at_Some [OF ok'] by auto
    then have "vma_at m a = Some w" using vma_at_Some [OF ok, of a w] set by auto
    then show ?thesis using Some dis [OF w(1)] w(2) by auto
  qed
qed

section \<open>Making a hole\<close>

lemma span_region:
  assumes "unat a < unat b" "4096 dvd unat a" "4096 dvd unat b"
  shows "page_region_ok (new_region a (b - a))" "bytes_of (new_region a (b - a)) = {unat a..<unat b}"
    "start_address (new_region a (b - a)) = a"
proof -
  have "unat (b - a) = unat b - unat a" using assms(1) by (simp add: unat_sub_usize)
  then have h: "lo (new_region a (b - a)) = unat a" "hi (new_region a (b - a)) = unat b"
    using assms(1) by (simp_all add: lo_def hi_def new_region_def)
  show "bytes_of (new_region a (b - a)) = {unat a..<unat b}" by (simp add: bytes_of_def h)
  have "unat b < 2 ^ 64" by simp
  moreover have "b - a \<noteq> 0" using assms(1) by auto
  ultimately show "page_region_ok (new_region a (b - a))"
    using assms(2,3) h by (simp add: page_region_ok_def wf_region_def) (simp add: new_region_def)
  show "start_address (new_region a (b - a)) = a" by (simp add: new_region_def start_address_def)
qed

abbreviation insert_vma :: "'i vmarea \<Rightarrow> (usize, 'i vmarea) btree \<Rightarrow> (usize, 'i vmarea) btree" where
  "insert_vma v m \<equiv> bt_insert (vma_start v) v m"

text \<open>Both branches of the code put back a left and a right part, whichever exist. They differ in
  the file offset of the right part only.\<close>

lemma put_remainders_parts:
  "\<exists>lv rv. vm_region lv = new_region (vma_start v) (start_address r - vma_start v) \<and> attr lv = attr v \<and>
     vm_region rv = new_region (end_address r) (vma_end v - end_address r) \<and> attr rv = attr v \<and>
     put_remainders r v m =
       (let m1 = (if vma_start v < start_address r then insert_vma lv m else m)
        in if end_address r < vma_end v then insert_vma rv m1 else m1)"
proof -
  define lv where "lv = clone_with_new_region v (new_region (vma_start v) (start_address r - vma_start v))"
  define nv where "nv = clone_with_new_region v (new_region (end_address r) (vma_end v - end_address r))"
  define rv where "rv = (if vma_start v < start_address r \<and> vma_end v > end_address r then nv
    else case vm_kind nv of
      File mapping \<Rightarrow> nv\<lparr>vm_kind := File (mapping\<lparr>fm_offset :=
         fm_offset mapping + (end_address r - vma_start v)\<rparr>)\<rparr>
    | Anon \<Rightarrow> nv)"
  have nv: "vm_region nv = new_region (end_address r) (vma_end v - end_address r)" "attr nv = attr v"
    "vm_kind nv = vm_kind v"
    by (simp_all add: nv_def clone_with_new_region_def attr_def)
  have lv: "vm_region lv = new_region (vma_start v) (start_address r - vma_start v)" "attr lv = attr v"
    by (simp_all add: lv_def clone_with_new_region_def attr_def)
  have rv: "vm_region rv = new_region (end_address r) (vma_end v - end_address r)" "attr rv = attr v"
    using nv by (simp_all add: rv_def attr_def split: vma_kind.split)
  have "put_remainders r v m =
      (let m1 = (if vma_start v < start_address r then insert_vma lv m else m)
       in if end_address r < vma_end v then insert_vma rv m1 else m1)"
  proof (cases "vma_start v < start_address r \<and> vma_end v > end_address r")
    case True
    then have "rv = nv" by (simp add: rv_def)
    then show ?thesis using True unfolding put_remainders_def Let_def nv_def [symmetric] lv_def [symmetric] by simp
  next
    case False
    have r1: "rv = (case vm_kind nv of
        File mapping \<Rightarrow> nv\<lparr>vm_kind := File (mapping\<lparr>fm_offset :=
           fm_offset mapping + (end_address r - vma_start v)\<rparr>)\<rparr>
      | Anon \<Rightarrow> nv)"
      unfolding rv_def by (rule if_not_P [OF False])
    show ?thesis
      unfolding put_remainders_def Let_def nv_def [symmetric] lv_def [symmetric] r1
      by (rule if_not_P [OF False])
  qed
  then show ?thesis using lv rv by blast
qed

lemma attr_at_insert:
  assumes "areas_ok m" "page_region_ok (vm_region v)"
    "\<And>w. w \<in> snd ` set m \<Longrightarrow> vbytes w \<inter> vbytes v = {}"
  shows "attr_at (insert_vma v m) a = (if a \<in> vbytes v then Some (attr v) else attr_at m a)"
  using areas_insert(3) [OF assms] by (simp add: attr_at_def)

lemma put_remainders_effect:
  assumes ok: "areas_ok m" and r: "page_region_ok r" and v: "page_region_ok (vm_region v)"
    and dis: "\<And>w. w \<in> snd ` set m \<Longrightarrow> vbytes w \<inter> vbytes v = {}"
    and ov: "lo r < hi (vm_region v)" "lo (vm_region v) < hi r"
  shows "areas_ok (put_remainders r v m) \<and> set m \<subseteq> set (put_remainders r v m) \<and>
    (\<forall>a. attr_at (put_remainders r v m) a =
      (if a \<in> vbytes v - bytes_of r then Some (attr v) else attr_at m a))"
proof -
  obtain lv rv where lv: "vm_region lv = new_region (vma_start v) (start_address r - vma_start v)" "attr lv = attr v"
    and rv: "vm_region rv = new_region (end_address r) (vma_end v - end_address r)" "attr rv = attr v"
    and eq: "put_remainders r v m =
       (let m1 = (if vma_start v < start_address r then insert_vma lv m else m)
        in if end_address r < vma_end v then insert_vma rv m1 else m1)"
    using put_remainders_parts by blast
  note u = page_region_okD(2,3) [OF r] page_region_okD(2,3) [OF v]
  have al: "4096 dvd lo r" "4096 dvd hi r" "4096 dvd lo (vm_region v)" "4096 dvd hi (vm_region v)"
    using r v by (auto simp: page_region_ok_def)
  have L: "page_region_ok (vm_region lv)" "vbytes lv = {lo (vm_region v)..<lo r}"
    if "lo (vm_region v) < lo r"
    using span_region [of "vma_start v" "start_address r"] that al unfolding lv(1) by (simp_all add: u)
  have R: "page_region_ok (vm_region rv)" "vbytes rv = {hi r..<hi (vm_region v)}"
    if "hi r < hi (vm_region v)"
    using span_region [of "end_address r" "vma_end v"] that al unfolding rv(1) by (simp_all add: u)
  have vb: "vbytes v = {lo (vm_region v)..<hi (vm_region v)}" "bytes_of r = {lo r..<hi r}"
    by (simp_all add: bytes_of_def)
  have lr: "lo r < hi r" using page_region_okD(1) [OF r] .
  define m1 where "m1 = (if vma_start v < start_address r then insert_vma lv m else m)"
  have c1: "vma_start v < start_address r \<longleftrightarrow> lo (vm_region v) < lo r"
    and c2: "end_address r < vma_end v \<longleftrightarrow> hi r < hi (vm_region v)"
    by (simp_all add: word_less_nat_alt u)
  have s1: "areas_ok m1 \<and> set m \<subseteq> set m1 \<and> (\<forall>w\<in>snd ` set m1. vbytes w \<inter> {hi r..<hi (vm_region v)} = {}) \<and>
      (\<forall>a. attr_at m1 a = (if a \<in> {lo (vm_region v)..<lo r} then Some (attr v) else attr_at m a))"
  proof (cases "lo (vm_region v) < lo r")
    case True
    have d: "vbytes w \<inter> vbytes lv = {}" if "w \<in> snd ` set m" for w
      using dis [OF that] L(2) [OF True] ov unfolding vb by auto
    note ins = areas_insert [OF ok L(1) [OF True] d] attr_at_insert [OF ok L(1) [OF True] d]
    have "vbytes w \<inter> {hi r..<hi (vm_region v)} = {}" if "w \<in> snd ` set (insert_vma lv m)" for w
    proof -
      have "w = lv \<or> w \<in> snd ` set m" using that ins(2) by auto
      then show ?thesis
      proof
        assume "w = lv"
        then show ?thesis using L(2) [OF True] lr by auto
      next
        assume "w \<in> snd ` set m"
        from dis [OF this] show ?thesis using ov(2) unfolding vb by auto
      qed
    qed
    moreover have "m1 = insert_vma lv m" using True by (simp add: m1_def c1)
    moreover have "attr_at (insert_vma lv m) a =
        (if a \<in> {lo (vm_region v)..<lo r} then Some (attr v) else attr_at m a)" for a
      using ins(4) [of a] unfolding L(2) [OF True] lv(2) .
    ultimately show ?thesis using ins(1,2) by (simp only:) blast
  next
    case False
    have "vbytes w \<inter> {hi r..<hi (vm_region v)} = {}" if "w \<in> snd ` set m" for w
      using dis [OF that] ov(2) unfolding vb by auto
    then show ?thesis using False ok by (simp add: m1_def c1)
  qed
  have A: "attr_at m1 a = (if a \<in> {lo (vm_region v)..<lo r} then Some (attr v) else attr_at m a)" for a
    using s1 by blast
  have eq': "put_remainders r v m = (if hi r < hi (vm_region v) then insert_vma rv m1 else m1)"
    unfolding eq m1_def [symmetric] Let_def c2 ..
  show ?thesis
  proof (cases "hi r < hi (vm_region v)")
    case True
    have d: "vbytes w \<inter> vbytes rv = {}" if "w \<in> snd ` set m1" for w
      using s1 that unfolding R(2) [OF True] by blast
    have ok1: "areas_ok m1" using s1 by blast
    note ins = areas_insert [OF ok1 R(1) [OF True] d] attr_at_insert [OF ok1 R(1) [OF True] d]
    have e: "attr_at (insert_vma rv m1) a =
        (if a \<in> {hi r..<hi (vm_region v)} then Some (attr v) else attr_at m1 a)" for a
      using ins(4) [of a] unfolding R(2) [OF True] rv(2) .
    have "attr_at (insert_vma rv m1) a =
        (if a \<in> vbytes v - bytes_of r then Some (attr v) else attr_at m a)" for a
      unfolding e A vb using ov lr True by auto
    moreover have "set m \<subseteq> set (insert_vma rv m1)" using ins(2) s1 by blast
    ultimately show ?thesis using ins(1) unfolding eq' if_P [OF True] by blast
  next
    case False
    have "attr_at m1 a = (if a \<in> vbytes v - bytes_of r then Some (attr v) else attr_at m a)" for a
      unfolding A vb using ov lr False by auto
    then show ?thesis using s1 unfolding eq' if_not_P [OF False] by blast
  qed
qed

text \<open>The areas \<open>unmap_region\<close> visits are those that overlap the hole.\<close>

lemma takeWhile_sorted:
  "bt_ok m \<Longrightarrow> takeWhile (\<lambda>e. fst e < x) m = filter (\<lambda>e. fst e < x) m"
proof (induction m)
  case (Cons e m)
  then have ok: "bt_ok m" and le: "\<forall>e'\<in>set m. fst e < fst e'" by (auto simp: bt_ok_def)
  have "filter (\<lambda>e. fst e < x) m = []" if "\<not> fst e < x"
    using le that by (auto simp: filter_empty_conv)
  then show ?case using Cons.IH [OF ok] by simp
qed simp

lemma affected_vmas_eq:
  assumes ok: "areas_ok m"
  shows "affected_vmas m r =
    (case bt_last_lt m (start_address r) of
       Some (_, v) \<Rightarrow> if vma_end v > start_address r then [v] else []
     | None \<Rightarrow> []) @
    map snd (filter (\<lambda>e. start_address r \<le> fst e \<and> fst e < end_address r) m)"
proof -
  let ?f = "bt_from m (start_address r)"
  have "bt_ok ?f" using ok by (simp add: areas_ok_def bt_from_def bt_ok_filter)
  note tw = takeWhile_sorted [OF this, of "end_address r"]
  have "takeWhile (\<lambda>v. vma_start v < end_address r) (map snd ?f) =
      map snd (takeWhile (\<lambda>e. vma_start (snd e) < end_address r) ?f)"
    by (simp add: takeWhile_map o_def)
  also have "takeWhile (\<lambda>e. vma_start (snd e) < end_address r) ?f = takeWhile (\<lambda>e. fst e < end_address r) ?f"
    using ok by (intro takeWhile_cong) (auto simp: bt_from_def areas_ok_def)
  also have "\<dots> = filter (\<lambda>e. start_address r \<le> fst e \<and> fst e < end_address r) m"
    unfolding tw by (simp add: bt_from_def conj_commute)
  finally show ?thesis by (simp add: affected_vmas_def)
qed

definition overlap :: "'i vmarea \<Rightarrow> region \<Rightarrow> bool" where
  "overlap v r \<longleftrightarrow> lo r < hi (vm_region v) \<and> lo (vm_region v) < hi r"

text \<open>Of two areas, the one with the smaller start ends before the other begins.\<close>

lemma areas_ordered:
  assumes ok: "areas_ok m" and e: "e \<in> set m" "e' \<in> set m" "fst e < fst e'"
  shows "hi (vm_region (snd e)) \<le> lo (vm_region (snd e'))"
proof -
  have p: "fst e = vma_start (snd e)" "page_region_ok (vm_region (snd e))"
    "fst e' = vma_start (snd e')" "page_region_ok (vm_region (snd e'))"
    using ok e by (auto simp: areas_ok_def)
  have lt: "lo (vm_region (snd e)) < lo (vm_region (snd e'))"
    using e(3) p page_region_okD(3) [OF p(2)] page_region_okD(3) [OF p(4)] by (simp add: word_less_nat_alt)
  have "vbytes (snd e) \<inter> vbytes (snd e') = {}" using areas_disjoint [OF ok e(1,2)] e(3) by auto
  then have "lo (vm_region (snd e')) \<notin> vbytes (snd e)" using page_region_okD(4) [OF p(4)] by blast
  then show ?thesis using lt by (simp add: bytes_of_def)
qed

lemma set_affected_vmas:
  assumes ok: "areas_ok m" and r: "page_region_ok r"
  shows "set (affected_vmas m r) = {v \<in> snd ` set m. overlap v r}" "distinct (affected_vmas m r)"
proof -
  have bt: "bt_ok m" using ok by (simp add: areas_ok_def)
  let ?s = "start_address r" and ?in = "filter (\<lambda>e. start_address r \<le> fst e \<and> fst e < end_address r) m"
  have p: "fst e = vma_start (snd e)" "page_region_ok (vm_region (snd e))" if "e \<in> set m" for e
    using ok that by (auto simp: areas_ok_def)
  have u: "unat (fst e) = lo (vm_region (snd e))" "unat (vma_end (snd e)) = hi (vm_region (snd e))"
    "lo (vm_region (snd e)) < hi (vm_region (snd e))" if "e \<in> set m" for e
    using p [OF that] page_region_okD(1-3) [OF p(2) [OF that]] by simp_all
  note ur = page_region_okD(1-3) [OF r]
  have inn: "e \<in> set ?in \<longleftrightarrow> e \<in> set m \<and> ?s \<le> fst e \<and> overlap (snd e) r" for e
    using u [of e] ur by (auto simp: overlap_def word_le_nat_alt word_less_nat_alt)
  have below: "e \<in> set m \<and> fst e < ?s \<and> overlap (snd e) r \<longleftrightarrow>
      bt_last_lt m ?s = Some e \<and> vma_end (snd e) > ?s" for e
  proof
    assume a: "e \<in> set m \<and> fst e < ?s \<and> overlap (snd e) r"
    then obtain f where f: "bt_last_lt m ?s = Some f"
      using last_entry_None [of "\<lambda>e. fst e < ?s" m] by (cases "bt_last_lt m ?s") (auto simp: bt_last_lt_def)
    note lf = last_entry_filter [OF bt f [unfolded bt_last_lt_def]]
    have "fst e \<le> fst f" using lf(3) a by blast
    have "e = f"
    proof (rule ccontr)
      assume "e \<noteq> f"
      then have "fst e \<noteq> fst f" using a lf(1) bt_get_Some [OF bt]
        by (metis option.inject prod.collapse)
      then have "fst e < fst f" using \<open>fst e \<le> fst f\<close> by simp
      from areas_ordered [OF ok _ lf(1) this] a have "hi (vm_region (snd e)) \<le> lo (vm_region (snd f))" by blast
      moreover have "lo (vm_region (snd f)) < lo r"
        using lf(2) u(1) [OF lf(1)] ur(3) by (simp add: word_less_nat_alt)
      ultimately show False using a by (simp add: overlap_def)
    qed
    then show "bt_last_lt m ?s = Some e \<and> vma_end (snd e) > ?s"
      using f a u(2) [of e] ur(3) by (auto simp: overlap_def word_less_nat_alt)
  next
    assume a: "bt_last_lt m ?s = Some e \<and> vma_end (snd e) > ?s"
    then have f: "last_entry (filter (\<lambda>e. fst e < ?s) m) = Some e" by (simp add: bt_last_lt_def)
    note lf = last_entry_filter [OF bt f]
    show "e \<in> set m \<and> fst e < ?s \<and> overlap (snd e) r"
      using lf(1,2) a u [OF lf(1)] ur by (auto simp: overlap_def word_less_nat_alt)
  qed
  define pre where "pre = (case bt_last_lt m ?s of
      Some (_, v) \<Rightarrow> if vma_end v > ?s then [v] else [] | None \<Rightarrow> [])"
  have pre: "set pre = snd ` {e \<in> set m. fst e < ?s \<and> overlap (snd e) r}" "distinct pre"
  proof -
    show "distinct pre" by (simp add: pre_def split: option.split)
    have "{e \<in> set m. fst e < ?s \<and> overlap (snd e) r} =
        (case bt_last_lt m ?s of None \<Rightarrow> {} | Some e \<Rightarrow> if vma_end (snd e) > ?s then {e} else {})"
      using below by (auto split: option.split)
    then show "set pre = snd ` {e \<in> set m. fst e < ?s \<and> overlap (snd e) r}"
      by (auto simp: pre_def split: option.split)
  qed
  have eq: "affected_vmas m r = pre @ map snd ?in" using affected_vmas_eq [OF ok] by (simp add: pre_def)
  have "set (map snd ?in) = snd ` {e \<in> set m. ?s \<le> fst e \<and> overlap (snd e) r}"
    using inn by auto
  moreover have "{e \<in> set m. fst e < ?s \<and> overlap (snd e) r} \<union> {e \<in> set m. ?s \<le> fst e \<and> overlap (snd e) r} =
      {e \<in> set m. overlap (snd e) r}"
    by (auto simp: not_le)
  moreover have "snd ` {e \<in> set m. overlap (snd e) r} = {v \<in> snd ` set m. overlap v r}" by force
  ultimately show "set (affected_vmas m r) = {v \<in> snd ` set m. overlap v r}"
    unfolding eq set_append pre(1) by (simp only: image_Un [symmetric])
  have inj: "inj_on snd (set m)" using p(1) by (intro inj_onI) (metis prod.collapse)
  have "distinct m" using bt_ok_distinct [OF bt] by (simp add: distinct_map)
  then have "distinct (map snd ?in)" using inj by (auto simp: distinct_map intro: inj_on_subset)
  moreover have "set pre \<inter> set (map snd ?in) = {}"
  proof -
    have k: "a = vma_start b" if "(a, b) \<in> set m" for a b using p(1) [OF that] by simp
    show ?thesis unfolding pre(1) using k by (auto simp: not_less [symmetric]) metis
  qed
  ultimately show "distinct (affected_vmas m r)" unfolding eq using pre(2) by simp
qed

section \<open>Unmapping\<close>

text \<open>
  What the map relies on of the page tables below it. \<open>mapped s\<close> is the set of addresses with a page-table
  entry and \<open>limit\<close> the end of the user address space. On page-aligned regions below \<open>limit\<close> the two operations
  succeed; unmapping removes exactly the entries of the region and protecting keeps all of them. The
  arm64 page tables satisfy this interface (theory \<open>MemoryMapArm64\<close>).
\<close>

locale user_address_space =
  fixes A :: "'as as_ops" and as_ok :: "'as \<Rightarrow> bool" and mapped :: "'as \<Rightarrow> nat set" and limit :: nat
  assumes unmap_range_ok: "as_ok s \<Longrightarrow> page_region_ok r \<Longrightarrow> hi r \<le> limit \<Longrightarrow>
      \<exists>ps s'. as_unmap_range A r s = (Ok ps, s') \<and> as_ok s' \<and> mapped s' = mapped s - bytes_of r"
    and protect_range_ok: "as_ok s \<Longrightarrow> page_region_ok r \<Longrightarrow> hi r \<le> limit \<Longrightarrow>
      \<exists>s'. as_protect_range A r p s = (Ok (), s') \<and> as_ok s' \<and> mapped s' = mapped s"
    and mmap_base_below: "unat MMAP_BASE \<le> limit"

text \<open>All areas lie below \<open>limit\<close>.\<close>

definition below :: "nat \<Rightarrow> (usize, 'i vmarea) btree \<Rightarrow> bool" where
  "below limit m \<longleftrightarrow> (\<forall>a. attr_at m a \<noteq> None \<longrightarrow> a < limit)"

lemma below_area:
  assumes "areas_ok m" "below limit m" "(k, v) \<in> set m"
  shows "hi (vm_region v) \<le> limit"
proof -
  note p = areas_okD(2) [OF assms(1,3)]
  have "hi (vm_region v) - 1 \<in> vbytes v" using page_region_okD(1) [OF p] by (auto simp: bytes_of_def)
  moreover have "v \<in> snd ` set m" using assms(3) by force
  ultimately have "attr_at m (hi (vm_region v) - 1) \<noteq> None"
    using vma_at_Some [OF assms(1), of "hi (vm_region v) - 1" v] by (simp add: attr_at_def)
  then have "hi (vm_region v) - 1 < limit" using assms(2) by (simp add: below_def)
  then show ?thesis by simp
qed

lemma below_sub: "below limit m \<Longrightarrow> (\<And>a. attr_at m' a \<noteq> None \<Longrightarrow> attr_at m a \<noteq> None) \<Longrightarrow> below limit m'"
  unfolding below_def by blast

text \<open>The consistency of a map with its page tables: every entry belongs to an area.\<close>

definition mm_ok :: "('as \<Rightarrow> bool) \<Rightarrow> ('as \<Rightarrow> nat set) \<Rightarrow> nat \<Rightarrow> ('i, 'as) memory_map \<Rightarrow> bool" where
  "mm_ok as_ok mapped limit mm \<longleftrightarrow> areas_ok (vmas mm) \<and> as_ok (address_space mm) \<and> below limit (vmas mm) \<and>
     mapped (address_space mm) \<subseteq> {a. attr_at (vmas mm) a \<noteq> None}"

lemma mm_okD:
  assumes "mm_ok as_ok mapped limit mm"
  shows "areas_ok (vmas mm)" "as_ok (address_space mm)" "below limit (vmas mm)"
    "mapped (address_space mm) \<subseteq> {a. attr_at (vmas mm) a \<noteq> None}"
  using assms by (simp_all add: mm_ok_def)

lemma page_region_intersection:
  assumes r: "page_region_ok r" and q: "page_region_ok q"
  shows "(\<exists>i. intersection r q = Ok (Some i) \<and> page_region_ok i \<and> bytes_of i = bytes_of r \<inter> bytes_of q \<and>
      hi i \<le> hi q) \<or> intersection r q = Ok None \<and> bytes_of r \<inter> bytes_of q = {}"
proof -
  obtain x where x: "intersection r q = Ok x" "opt_bytes x = bytes_of r \<inter> bytes_of q"
    "\<And>i. x = Some i \<Longrightarrow> lo i = max (lo r) (lo q) \<and> hi i = min (hi r) (hi q) \<and> lo i < hi i \<and> wf_region i"
    using intersection_Ok [of r q] r q unfolding page_region_ok_def by blast
  show ?thesis
  proof (cases x)
    case None
    then show ?thesis using x by simp
  next
    case (Some i)
    note i = x(3) [OF Some]
    have "rg_size i \<noteq> 0" using i by (auto simp: lo_def hi_def)
    moreover have "4096 dvd lo i" "4096 dvd hi i" using i r q by (auto simp: page_region_ok_def max_def min_def)
    ultimately show ?thesis using x(1,2) i Some by (simp add: page_region_ok_def)
  qed
qed

context user_address_space
begin

lemma fixup_run:
  assumes r: "page_region_ok r" and v: "page_region_ok (vm_region v)" "hi (vm_region v) \<le> limit"
    and s: "as_ok (address_space mm)"
  shows "\<exists>ps s. fixup_pg_tables A mm r v rep = (Ok ps, mm\<lparr>address_space := s\<rparr>) \<and> as_ok s \<and>
    mapped s \<subseteq> mapped (address_space mm) \<and>
    (rep = None \<longrightarrow> mapped s = mapped (address_space mm) - (bytes_of r \<inter> vbytes v))"
  using page_region_intersection [OF r v(1)]
proof
  assume "\<exists>i. intersection r (vm_region v) = Ok (Some i) \<and> page_region_ok i \<and>
    bytes_of i = bytes_of r \<inter> vbytes v \<and> hi i \<le> hi (vm_region v)"
  then obtain i where i: "intersection r (vm_region v) = Ok (Some i)" "page_region_ok i"
    "bytes_of i = bytes_of r \<inter> vbytes v" "hi i \<le> limit" using v(2) by force
  obtain ps t where u: "as_unmap_range A i (address_space mm) = (Ok ps, t)" "as_ok t"
    "mapped t = mapped (address_space mm) - (bytes_of r \<inter> vbytes v)"
    using unmap_range_ok [OF s i(2,4)] unfolding i(3) by blast
  show ?thesis
  proof (cases rep)
    case None
    then have "fixup_pg_tables A mm r v rep = (Ok ps, mm\<lparr>address_space := t\<rparr>)"
      using u(1) i(1) by (simp add: fixup_pg_tables_def)
    then show ?thesis using u(2,3) by blast
  next
    case (Some nv)
    obtain t' where p: "as_protect_range A i (pte_from_vma (vm_permissions nv)) (address_space mm) = (Ok (), t')"
      "as_ok t'" "mapped t' = mapped (address_space mm)" using protect_range_ok [OF s i(2,4)] by blast
    have same: "mm\<lparr>address_space := address_space mm\<rparr> = mm" by simp
    consider "is_file_backed v \<or> is_file_backed nv" | "\<not> (is_file_backed v \<or> is_file_backed nv)"
      "vm_permissions nv \<noteq> vm_permissions v" | "\<not> (is_file_backed v \<or> is_file_backed nv)"
      "vm_permissions nv = vm_permissions v" by blast
    then show ?thesis
    proof cases
      case 1 then show ?thesis using u i(1) Some by (auto simp: fixup_pg_tables_def)
    next
      case 2 then show ?thesis using p i(1) Some by (auto simp: fixup_pg_tables_def)
    next
      case 3
      then have "fixup_pg_tables A mm r v rep = (Ok [], mm\<lparr>address_space := address_space mm\<rparr>)"
        using i(1) Some by (simp add: fixup_pg_tables_def)
      then show ?thesis using s Some by blast
    qed
  qed
next
  assume n: "intersection r (vm_region v) = Ok None \<and> bytes_of r \<inter> vbytes v = {}"
  then have "fixup_pg_tables A mm r v rep = (Ok [], mm\<lparr>address_space := address_space mm\<rparr>)"
    by (simp add: fixup_pg_tables_def)
  then show ?thesis using s n by blast
qed

lemma unmap_affected_run:
  assumes r: "page_region_ok r"
  shows "areas_ok (vmas mm) \<Longrightarrow> below limit (vmas mm) \<Longrightarrow> as_ok (address_space mm) \<Longrightarrow> distinct vs \<Longrightarrow>
    (\<forall>v\<in>set vs. (vma_start v, v) \<in> set (vmas mm) \<and> overlap v r) \<Longrightarrow>
    \<exists>ps mm'. unmap_affected A r rep vs pages mm = (Ok ps, mm') \<and> areas_ok (vmas mm') \<and>
      (\<forall>a. attr_at (vmas mm') a =
        (if \<exists>v\<in>set vs. a \<in> vbytes v \<inter> bytes_of r then None else attr_at (vmas mm) a)) \<and>
      as_ok (address_space mm') \<and> mapped (address_space mm') \<subseteq> mapped (address_space mm) \<and>
      (rep = None \<longrightarrow> mapped (address_space mm') =
        mapped (address_space mm) - {a. \<exists>v\<in>set vs. a \<in> vbytes v \<inter> bytes_of r})"
proof (induction vs arbitrary: mm pages)
  case (Cons v vs)
  let ?m = "vmas mm"
  have v: "(vma_start v, v) \<in> set ?m" "overlap v r" using Cons.prems(5) by auto
  note ok = Cons.prems(1)
  have pv: "page_region_ok (vm_region v)" using areas_okD [OF ok v(1)] by simp
  have get: "bt_get ?m (vma_start v) = Some v"
    using bt_get_Some [of ?m] ok v(1) by (simp add: areas_ok_def)
  define m0 where "m0 = bt_remove (vma_start v) ?m"
  note rm = areas_remove [OF ok v(1), folded m0_def]
  obtain ps s where fx: "fixup_pg_tables A (mm\<lparr>vmas := m0\<rparr>) r v rep =
      (Ok ps, mm\<lparr>vmas := m0, address_space := s\<rparr>)" "as_ok s" "mapped s \<subseteq> mapped (address_space mm)"
      "rep = None \<longrightarrow> mapped s = mapped (address_space mm) - (bytes_of r \<inter> vbytes v)"
    using fixup_run [OF r pv below_area [OF ok Cons.prems(2) v(1)], of "mm\<lparr>vmas := m0\<rparr>" rep] Cons.prems(3)
    by auto
  define m1 where "m1 = put_remainders r v m0"
  have pr: "areas_ok m1" "set m0 \<subseteq> set m1"
    "attr_at m1 a = (if a \<in> vbytes v - bytes_of r then Some (attr v) else attr_at m0 a)" for a
    using put_remainders_effect [OF rm(1) r pv rm(4)] v(2) by (auto simp: m1_def overlap_def)
  have A1: "attr_at ?m a = Some (attr v)" if "a \<in> vbytes v" for a
    using vma_at_Some [OF ok, of a v] v(1) that by (force simp: attr_at_def)
  have A0: "attr_at m0 a = (if a \<in> vbytes v then None else attr_at ?m a)" for a
    using rm(3) [of a] by (simp add: attr_at_def)
  have at: "attr_at m1 a = (if a \<in> vbytes v \<inter> bytes_of r then None else attr_at ?m a)" for a
    unfolding pr(3) A0 using A1 [of a] by simp
  have bl: "below limit m1" by (rule below_sub [OF Cons.prems(2)]) (metis at)
  have mem: "\<forall>w\<in>set vs. (vma_start w, w) \<in> set m1 \<and> overlap w r"
  proof
    fix w assume w: "w \<in> set vs"
    then have "w \<noteq> v" "(vma_start w, w) \<in> set ?m" "overlap w r" using Cons.prems(4,5) by auto
    then show "(vma_start w, w) \<in> set m1 \<and> overlap w r" using rm(2) pr(2) by blast
  qed
  let ?n = "mm\<lparr>address_space := s, vmas := m1\<rparr>"
  obtain ps' mm' where u: "unmap_affected A r rep vs (pages @ ps) ?n = (Ok ps', mm')"
    "areas_ok (vmas mm')" "\<forall>a. attr_at (vmas mm') a =
        (if \<exists>v\<in>set vs. a \<in> vbytes v \<inter> bytes_of r then None else attr_at m1 a)"
    "as_ok (address_space mm')" "mapped (address_space mm') \<subseteq> mapped s"
    "rep = None \<longrightarrow> mapped (address_space mm') = mapped s - {a. \<exists>v\<in>set vs. a \<in> vbytes v \<inter> bytes_of r}"
    using Cons.IH [of ?n "pages @ ps"] Cons.prems(4) pr(1) bl fx(2) mem by auto
  have "unmap_affected A r rep (v # vs) pages mm = (Ok ps', mm')"
    using u(1) by (simp add: get fx(1) m0_def [symmetric] m1_def)
  moreover have "rep = None \<longrightarrow> mapped (address_space mm') =
      mapped (address_space mm) - {a. \<exists>w\<in>set (v # vs). a \<in> vbytes w \<inter> bytes_of r}"
    using u(6) fx(4) by auto
  ultimately show ?case using u(2-5) fx(3) at by (intro exI conjI) auto
qed auto

lemma unmap_region_run:
  assumes ok: "areas_ok (vmas mm)" "below limit (vmas mm)" "as_ok (address_space mm)" and r: "page_region_ok r"
  shows "\<exists>ps mm'. unmap_region A mm r rep = (Ok ps, mm') \<and> areas_ok (vmas mm') \<and>
    (\<forall>a. attr_at (vmas mm') a = (if a \<in> bytes_of r then None else attr_at (vmas mm) a)) \<and>
    as_ok (address_space mm') \<and> mapped (address_space mm') \<subseteq> mapped (address_space mm) \<and>
    (rep = None \<longrightarrow> mapped (address_space mm') =
      mapped (address_space mm) - (bytes_of r \<inter> {a. attr_at (vmas mm) a \<noteq> None}))"
proof -
  let ?vs = "affected_vmas (vmas mm) r"
  note aff = set_affected_vmas [OF ok(1) r]
  have mem: "(vma_start v, v) \<in> set (vmas mm)" if "v \<in> snd ` set (vmas mm)" for v
    using ok(1) that by (auto simp: areas_ok_def)
  obtain ps mm' where u: "unmap_affected A r rep ?vs [] mm = (Ok ps, mm')" "areas_ok (vmas mm')"
    "\<forall>a. attr_at (vmas mm') a =
      (if \<exists>v\<in>set ?vs. a \<in> vbytes v \<inter> bytes_of r then None else attr_at (vmas mm) a)"
    "as_ok (address_space mm')" "mapped (address_space mm') \<subseteq> mapped (address_space mm)"
    "rep = None \<longrightarrow> mapped (address_space mm') =
      mapped (address_space mm) - {a. \<exists>v\<in>set ?vs. a \<in> vbytes v \<inter> bytes_of r}"
    using unmap_affected_run [OF r ok aff(2), of rep "[]"] aff(1) mem by auto
  have cov: "(\<exists>v\<in>set ?vs. a \<in> vbytes v \<inter> bytes_of r) \<longleftrightarrow> a \<in> bytes_of r \<and> attr_at (vmas mm) a \<noteq> None" for a
  proof (cases "a \<in> bytes_of r \<and> vma_at (vmas mm) a \<noteq> None")
    case True
    then obtain v where v: "v \<in> snd ` set (vmas mm)" "a \<in> vbytes v" "a \<in> bytes_of r"
      using vma_at_SomeD by blast
    then have "v \<in> set ?vs" unfolding aff(1) by (auto simp: overlap_def bytes_of_def)
    then show ?thesis using v True by (auto simp: attr_at_def)
  next
    case False
    then show ?thesis using vma_at_None [of "vmas mm" a] unfolding aff(1) by (auto simp: attr_at_def)
  qed
  then have "attr_at (vmas mm') a = (if a \<in> bytes_of r then None else attr_at (vmas mm) a)" for a
    using u(3) by (cases "attr_at (vmas mm) a") simp_all
  moreover have "rep = None \<longrightarrow> mapped (address_space mm') =
      mapped (address_space mm) - (bytes_of r \<inter> {a. attr_at (vmas mm) a \<noteq> None})"
    using u(6) unfolding cov by auto
  moreover have "unmap_region A mm r rep = (Ok ps, mm')" using u(1) by (auto simp: unmap_region_def Let_def)
  ultimately show ?thesis using u(2,4,5) by blast
qed

end

section \<open>Inserting and merging\<close>

lemma can_merge_attr: "can_merge_with v w \<Longrightarrow> attr v = attr w"
  by (auto simp: can_merge_with_def attr_def split: if_splits vma_kind.splits)

lemma expand_run:
  assumes v: "page_region_ok r" and w: "page_region_ok r'" and adj: "hi r = lo r'"
  shows "\<exists>x. expand_by r (rg_size r') = Ok x \<and> page_region_ok x \<and> lo x = lo r \<and> hi x = hi r' \<and>
    start_address x = start_address r"
proof -
  have sz: "unat (rg_size r') = hi r' - lo r'" "lo r' \<le> hi r'" by (simp_all add: hi_def lo_def)
  have "4096 dvd unat (rg_size r')" using w sz by (simp add: page_region_ok_def)
  then have "unat (rg_size r' AND PAGE_MASK) = 0" by (simp add: page_mask_offset)
  then have m: "rg_size r' AND PAGE_MASK = 0" using unat_eq_zero by blast
  let ?x = "r\<lparr>rg_size := rg_size r + rg_size r'\<rparr>"
  have h: "unat (rg_size r) + unat (rg_size r') = hi r' - lo r" "lo r \<le> hi r"
    using sz adj by (simp_all add: hi_def lo_def)
  have lt: "hi r' < 2 ^ 64" using page_region_okD(5) [OF w] .
  have s: "unat (rg_size r + rg_size r') = hi r' - lo r"
    using h lt by (subst unat_add_usize) linarith+
  have l: "lo ?x = lo r" by (simp add: lo_def)
  have "hi ?x = lo r + (hi r' - lo r)" by (simp add: hi_def lo_def s)
  then have hx: "hi ?x = hi r'" using h(2) adj sz(2) by simp
  have "unat (rg_size r + rg_size r') \<noteq> 0"
    using s page_region_okD(1) [OF v] page_region_okD(1) [OF w] adj by simp
  then have "rg_size r + rg_size r' \<noteq> 0" by auto
  then have "page_region_ok ?x" using v w l hx lt by (simp add: page_region_ok_def wf_region_def)
  then show ?thesis using m l hx by (intro exI [of _ ?x]) (simp add: expand_by_def start_address_def)
qed

definition clear_of :: "(usize, 'i vmarea) btree \<Rightarrow> 'i vmarea \<Rightarrow> bool" where
  "clear_of m v \<longleftrightarrow> (\<forall>w\<in>snd ` set m. vbytes w \<inter> vbytes v = {})"

definition overlay :: "(usize, 'i vmarea) btree \<Rightarrow> 'i vmarea \<Rightarrow> nat \<Rightarrow>
    (vma_permissions \<times> 'i option) option" where
  "overlay m v a = (if a \<in> vbytes v then Some (attr v) else attr_at m a)"

lemma attr_at_insert_overlay:
  assumes "areas_ok m" "page_region_ok (vm_region v)" "clear_of m v"
  shows "areas_ok (insert_vma v m)" "attr_at (insert_vma v m) a = overlay m v a"
proof -
  have d: "vbytes w \<inter> vbytes v = {}" if "w \<in> snd ` set m" for w
    using assms(3) that unfolding clear_of_def by blast
  show "areas_ok (insert_vma v m)" using areas_insert(1) [OF assms(1,2) d] .
  show "attr_at (insert_vma v m) a = overlay m v a"
    unfolding overlay_def using attr_at_insert [OF assms(1,2) d] .
qed

lemma merge_next_run:
  assumes ok: "areas_ok m" and v: "page_region_ok (vm_region v)" and cl: "clear_of m v"
  shows "\<exists>v' m'. merge_next m v = Ok (v', m') \<and> areas_ok m' \<and> page_region_ok (vm_region v') \<and>
    clear_of m' v' \<and> (\<forall>a. overlay m' v' a = overlay m v a)"
proof (cases "\<exists>w. bt_get m (vma_end v) = Some w \<and> can_merge_with v w")
  case False
  then have "merge_next m v = Ok (v, m)" by (auto simp: merge_next_def split: option.split)
  then show ?thesis using ok v cl by blast
next
  case True
  then obtain w where w: "bt_get m (vma_end v) = Some w" "can_merge_with v w" by blast
  have bt: "bt_ok m" using ok by (simp add: areas_ok_def)
  have mem: "(vma_end v, w) \<in> set m" using bt_get_Some [OF bt] w(1) by simp
  note aw = areas_okD [OF ok mem]
  have adj: "hi (vm_region v) = lo (vm_region w)"
    using aw page_region_okD(2) [OF v] page_region_okD(3) [OF aw(2)] by simp
  obtain x where x: "expand_by (vm_region v) (rg_size (vm_region w)) = Ok x" "page_region_ok x"
    "lo x = lo (vm_region v)" "hi x = hi (vm_region w)" "start_address x = vma_start v"
    using expand_run [OF v aw(2) adj] by blast
  define v' m' where "v' = v\<lparr>vm_region := x\<rparr>" and "m' = bt_remove (vma_end v) m"
  note rm = areas_remove [OF ok mem, folded m'_def]
  have run: "merge_next m v = Ok (v', m')"
    using w x(1) aw(1) by (simp add: merge_next_def v'_def m'_def)
  have vb: "vbytes v' = vbytes v \<union> vbytes w"
    using x adj page_region_okD(1) [OF v] page_region_okD(1) [OF aw(2)]
    by (auto simp: v'_def bytes_of_def)
  have at: "attr v' = attr v" "attr w = attr v" using can_merge_attr [OF w(2)] by (simp_all add: v'_def attr_def)
  have "u \<in> snd ` set m" if "u \<in> snd ` set m'" for u using that rm(2) by auto
  then have "clear_of m' v'" using rm(4) cl unfolding clear_of_def vb by blast
  moreover have "overlay m' v' a = overlay m v a" for a
  proof -
    have "attr_at m a = Some (attr w)" if "a \<in> vbytes w"
      using vma_at_Some [OF ok, of a w] mem that by (force simp: attr_at_def)
    then show ?thesis using rm(3) [of a] at unfolding overlay_def vb by (auto simp: attr_at_def)
  qed
  ultimately show ?thesis using run rm(1) x(2) by (auto simp: v'_def)
qed

lemma bt_insert_remove: "bt_ok m \<Longrightarrow> bt_insert k v (bt_remove k m) = bt_insert k v m"
proof (induction m)
  case (Cons e m)
  obtain j w where e: "e = (j, w)" by (cases e)
  have ok: "bt_ok m" and lt: "\<forall>e'\<in>set m. j < fst e'" using Cons.prems by (auto simp: bt_ok_def e)
  have fl: "filter (\<lambda>e. fst e \<noteq> k) m = m" if "k \<le> j"
  proof -
    have "\<forall>e'\<in>set m. fst e' \<noteq> k" using lt that by auto
    then show ?thesis by (rule filter_True)
  qed
  have skip: "bt_insert k v m = (k, v) # m" if "k \<le> j" using lt that by (cases m) auto
  show ?case
  proof (cases "k \<le> j")
    case True
    then show ?thesis using fl skip by (auto simp: e bt_remove_def)
  next
    case False
    then show ?thesis using Cons.IH [OF ok] by (auto simp: e bt_remove_def)
  qed
qed (simp add: bt_remove_def)

lemma merge_prev_run:
  assumes ok: "areas_ok m" and v: "page_region_ok (vm_region v)" and cl: "clear_of m v"
  shows "\<exists>m'. merge_prev m v = Ok m' \<and> areas_ok m' \<and> (\<forall>a. attr_at m' a = overlay m v a)"
proof (cases "\<exists>k p. bt_last_lt m (vma_start v) = Some (k, p) \<and> vma_end p = vma_start v \<and> can_merge_with p v")
  case False
  then have "merge_prev m v = Ok (insert_vma v m)" by (auto simp: merge_prev_def split: option.split)
  then show ?thesis using attr_at_insert_overlay [OF ok v cl] by blast
next
  case True
  then obtain k p where p: "bt_last_lt m (vma_start v) = Some (k, p)" "vma_end p = vma_start v" "can_merge_with p v"
    by blast
  have bt: "bt_ok m" using ok by (simp add: areas_ok_def)
  have mem: "(k, p) \<in> set m" using last_entry_filter(1) [OF bt p(1) [unfolded bt_last_lt_def]] .
  note ap = areas_okD [OF ok mem]
  have adj: "hi (vm_region p) = lo (vm_region v)"
    using p(2) page_region_okD(2) [OF ap(2)] page_region_okD(3) [OF v] by simp
  obtain x where x: "expand_by (vm_region p) (rg_size (vm_region v)) = Ok x" "page_region_ok x"
    "lo x = lo (vm_region p)" "hi x = hi (vm_region v)" "start_address x = vma_start p"
    using expand_run [OF ap(2) v adj] by blast
  define p' m0 where "p' = p\<lparr>vm_region := x\<rparr>" and "m0 = bt_remove k m"
  note rm = areas_remove [OF ok mem, folded m0_def]
  have st: "vma_start p' = k" using x(5) ap(1) by (simp add: p'_def)
  have run: "merge_prev m v = Ok (insert_vma p' m0)"
    using p x(1) st bt_insert_remove [OF bt, of k p'] by (simp add: merge_prev_def p'_def m0_def)
  have vb: "vbytes p' = vbytes p \<union> vbytes v"
    using x adj page_region_okD(1) [OF v] page_region_okD(1) [OF ap(2)] by (auto simp: p'_def bytes_of_def)
  have at: "attr p' = attr v" "attr p = attr v" using can_merge_attr [OF p(3)] by (simp_all add: p'_def attr_def)
  have "u \<in> snd ` set m" if "u \<in> snd ` set m0" for u using that rm(2) by auto
  then have cl': "clear_of m0 p'" using rm(4) cl unfolding clear_of_def vb by blast
  have pp: "page_region_ok (vm_region p')" using x(2) by (simp add: p'_def)
  have "overlay m0 p' a = overlay m v a" for a
  proof -
    have "attr_at m a = Some (attr p)" if "a \<in> vbytes p"
      using vma_at_Some [OF ok, of a p] mem that by (force simp: attr_at_def)
    then show ?thesis using rm(3) [of a] at unfolding overlay_def vb by (auto simp: attr_at_def)
  qed
  then show ?thesis using run attr_at_insert_overlay [OF rm(1) pp cl'] by auto
qed

context user_address_space
begin

lemma insert_and_merge_run:
  assumes ok: "areas_ok (vmas mm)" "below limit (vmas mm)" "as_ok (address_space mm)"
    and v: "page_region_ok (vm_region v)"
  shows "\<exists>mm'. insert_and_merge A mm v = (Ok (), mm') \<and> areas_ok (vmas mm') \<and>
    (\<forall>a. attr_at (vmas mm') a = overlay (vmas mm) v a) \<and>
    as_ok (address_space mm') \<and> mapped (address_space mm') \<subseteq> mapped (address_space mm)"
proof -
  obtain ps mm1 where u: "unmap_region A mm (vm_region v) (Some v) = (Ok ps, mm1)" "areas_ok (vmas mm1)"
    "\<forall>a. attr_at (vmas mm1) a = (if a \<in> vbytes v then None else attr_at (vmas mm) a)"
    "as_ok (address_space mm1)" "mapped (address_space mm1) \<subseteq> mapped (address_space mm)"
    using unmap_region_run [OF ok v, of "Some v"] by blast
  have "clear_of (vmas mm1) v" unfolding clear_of_def
  proof
    fix w assume w: "w \<in> snd ` set (vmas mm1)"
    have "a \<notin> vbytes w" if "a \<in> vbytes v" for a
    proof -
      have "attr_at (vmas mm1) a = None" using u(3) that by simp
      then have "vma_at (vmas mm1) a = None" by (simp add: attr_at_def)
      then show ?thesis using vma_at_None [of "vmas mm1" a] w by blast
    qed
    then show "vbytes w \<inter> vbytes v = {}" by blast
  qed
  from merge_next_run [OF u(2) v this] obtain v' m' where n: "merge_next (vmas mm1) v = Ok (v', m')"
    "areas_ok m'" "page_region_ok (vm_region v')" "clear_of m' v'" "\<forall>a. overlay m' v' a = overlay (vmas mm1) v a"
    by blast
  from merge_prev_run [OF n(2-4)] obtain m2 where p: "merge_prev m' v' = Ok m2" "areas_ok m2"
    "\<forall>a. attr_at m2 a = overlay m' v' a" by blast
  have "insert_and_merge A mm v = (Ok (), mm1\<lparr>vmas := m2\<rparr>)"
    using u(1) n(1) p(1) by (simp add: insert_and_merge_def)
  moreover have "attr_at m2 a = overlay (vmas mm) v a" for a
    using p(3) n(5) u(3) by (simp add: overlay_def)
  ultimately show ?thesis using p(2) u(4,5) by auto
qed

end

section \<open>Lookup and free regions\<close>

lemma areas_word:
  assumes "areas_ok m" "e \<in> set m"
  shows "fst e = vma_start (snd e)" "page_region_ok (vm_region (snd e))"
    "unat (fst e) = lo (vm_region (snd e))" "unat (vma_end (snd e)) = hi (vm_region (snd e))"
    "lo (vm_region (snd e)) < hi (vm_region (snd e))"
proof -
  show p: "fst e = vma_start (snd e)" "page_region_ok (vm_region (snd e))"
    using assms by (auto simp: areas_ok_def)
  show "unat (fst e) = lo (vm_region (snd e))" "unat (vma_end (snd e)) = hi (vm_region (snd e))"
    "lo (vm_region (snd e)) < hi (vm_region (snd e))"
    using p(1) page_region_okD(1-3) [OF p(2)] by simp_all
qed

lemma bt_ok_fst_inj: "bt_ok m \<Longrightarrow> e \<in> set m \<Longrightarrow> e' \<in> set m \<Longrightarrow> fst e = fst e' \<Longrightarrow> e = e'"
  using bt_get_Some [of m] by (metis option.inject prod.collapse)

text \<open>An area that starts at or below \<open>a\<close> and reaches beyond it is the last such area.\<close>

lemma last_le_contains:
  assumes ok: "areas_ok m" and e: "e \<in> set m" "fst e \<le> a" "unat a < hi (vm_region (snd e))"
  shows "bt_last_le m a = Some e"
proof -
  have bt: "bt_ok m" using ok by (simp add: areas_ok_def)
  obtain f where f: "bt_last_le m a = Some f"
    using last_entry_None [of "\<lambda>e. fst e \<le> a" m] e by (cases "bt_last_le m a") (auto simp: bt_last_le_def)
  note lf = last_entry_filter [OF bt f [unfolded bt_last_le_def]]
  have "fst e \<le> fst f" using lf(3) e(1,2) .
  moreover have "\<not> fst e < fst f"
  proof
    assume "fst e < fst f"
    from areas_ordered [OF ok e(1) lf(1) this] have "hi (vm_region (snd e)) \<le> unat (fst f)"
      using areas_word(3) [OF ok lf(1)] by simp
    then show False using lf(2) e(3) by (simp add: word_le_nat_alt)
  qed
  ultimately have "fst e = fst f" by simp
  then show ?thesis using bt_ok_fst_inj [OF bt e(1) lf(1)] f by simp
qed

lemma find_vma_eq:
  assumes ok: "areas_ok (vmas mm)"
  shows "find_vma mm a = vma_at (vmas mm) (unat a)"
proof (cases "vma_at (vmas mm) (unat a)")
  case (Some v)
  then obtain e where e: "e \<in> set (vmas mm)" "snd e = v" "unat a \<in> vbytes v" using vma_at_SomeD by blast
  note w = areas_word [OF ok e(1)]
  have le: "fst e \<le> a" "unat a < hi (vm_region (snd e))"
    using e(2,3) w(3) by (auto simp: bytes_of_def word_le_nat_alt)
  have "vma_contains_address v a"
    using le w e(2) by (auto simp: vma_contains_address_def contains_address_def word_less_nat_alt)
  then show ?thesis
    using last_le_contains [OF ok e(1) le] Some e(2) by (cases e) (simp add: find_vma_def)
next
  case None
  show ?thesis
  proof (cases "bt_last_le (vmas mm) a")
    case (Some e)
    have bt: "bt_ok (vmas mm)" using ok by (simp add: areas_ok_def)
    have mem: "e \<in> set (vmas mm)" using last_entry_filter(1) [OF bt Some [unfolded bt_last_le_def]] .
    note w = areas_word [OF ok mem]
    have "unat a \<notin> vbytes (snd e)" using None vma_at_None [of "vmas mm" "unat a"] mem by blast
    then have "\<not> vma_contains_address (snd e) a"
      using w by (auto simp: vma_contains_address_def contains_address_def bytes_of_def word_less_nat_alt word_le_nat_alt)
    then show ?thesis using Some None by (cases e) (simp add: find_vma_def)
  qed (simp add: find_vma_def None)
qed

definition region_free :: "(usize, 'i vmarea) btree \<Rightarrow> region \<Rightarrow> bool" where
  "region_free m r \<longleftrightarrow> (\<forall>a\<in>bytes_of r. attr_at m a = None)"

lemma region_free_iff: "region_free m r \<longleftrightarrow> (\<forall>e\<in>set m. vbytes (snd e) \<inter> bytes_of r = {})"
  using vma_at_None [of m] by (auto simp: region_free_def attr_at_def)

lemma is_region_free_iff:
  assumes ok: "areas_ok (vmas mm)" and r: "page_region_ok r"
  shows "is_region_free mm r \<longleftrightarrow> region_free (vmas mm) r"
proof -
  let ?m = "vmas mm" and ?s = "start_address r"
  have bt: "bt_ok ?m" using ok by (simp add: areas_ok_def)
  note ur = page_region_okD(1-3) [OF r]
  have ov: "vbytes (snd e) \<inter> bytes_of r = {} \<longleftrightarrow> hi (vm_region (snd e)) \<le> lo r \<or> hi r \<le> lo (vm_region (snd e))"
    if "e \<in> set ?m" for e
    using areas_word(5) [OF ok that] ur(1) by (auto simp: bytes_of_def)
  have prev: "(case bt_last_le ?m ?s of Some (_, p) \<Rightarrow> vma_end p > ?s | None \<Rightarrow> False) \<longleftrightarrow>
      (\<exists>e\<in>set ?m. fst e \<le> ?s \<and> lo r < hi (vm_region (snd e)))"
  proof
    assume "case bt_last_le ?m ?s of Some (_, p) \<Rightarrow> vma_end p > ?s | None \<Rightarrow> False"
    then obtain e where e: "bt_last_le ?m ?s = Some e" "vma_end (snd e) > ?s"
      by (auto split: option.splits)
    note lf = last_entry_filter [OF bt e(1) [unfolded bt_last_le_def]]
    show "\<exists>e\<in>set ?m. fst e \<le> ?s \<and> lo r < hi (vm_region (snd e))"
      using lf(1,2) e(2) areas_word(4) [OF ok lf(1)] ur(3) by (auto simp: word_less_nat_alt)
  next
    assume "\<exists>e\<in>set ?m. fst e \<le> ?s \<and> lo r < hi (vm_region (snd e))"
    then obtain e where e: "e \<in> set ?m" "fst e \<le> ?s" "lo r < hi (vm_region (snd e))" by blast
    have "bt_last_le ?m ?s = Some e" using last_le_contains [OF ok e(1,2)] e(3) ur(3) by simp
    then show "case bt_last_le ?m ?s of Some (_, p) \<Rightarrow> vma_end p > ?s | None \<Rightarrow> False"
      using e(3) areas_word(4) [OF ok e(1)] ur(3) by (cases e) (simp add: word_less_nat_alt)
  qed
  have nxt: "(case bt_from ?m ?s of (k, _) # _ \<Rightarrow> \<not> k < end_address r | [] \<Rightarrow> True) \<longleftrightarrow>
      (\<forall>e\<in>set ?m. ?s \<le> fst e \<longrightarrow> hi r \<le> lo (vm_region (snd e)))"
  proof -
    have so: "bt_ok (bt_from ?m ?s)" by (simp add: bt_from_def bt_ok_filter [OF bt])
    have mem: "e \<in> set (bt_from ?m ?s) \<longleftrightarrow> e \<in> set ?m \<and> ?s \<le> fst e" for e by (auto simp: bt_from_def)
    show ?thesis
    proof (cases "bt_from ?m ?s")
      case Nil
      then show ?thesis using mem by auto
    next
      case (Cons f fs)
      then have f: "f \<in> set ?m" "?s \<le> fst f" using mem [of f] by auto
      have le: "fst f \<le> fst e" if "e \<in> set ?m" "?s \<le> fst e" for e
        using mem [of e] that so Cons by (auto simp: bt_ok_def less_imp_le)
      have "(\<forall>e\<in>set ?m. ?s \<le> fst e \<longrightarrow> hi r \<le> lo (vm_region (snd e))) \<longleftrightarrow> hi r \<le> lo (vm_region (snd f))"
      proof
        assume "hi r \<le> lo (vm_region (snd f))"
        moreover have "lo (vm_region (snd f)) \<le> lo (vm_region (snd e))" if "e \<in> set ?m" "?s \<le> fst e" for e
          using le [OF that] areas_word(3) [OF ok that(1)] areas_word(3) [OF ok f(1)] by (simp add: word_le_nat_alt)
        ultimately show "\<forall>e\<in>set ?m. ?s \<le> fst e \<longrightarrow> hi r \<le> lo (vm_region (snd e))"
          using order_trans by blast
      qed (use f in blast)
      then show ?thesis
        using Cons areas_word(3) [OF ok f(1)] ur(2) by (cases f) (simp add: word_less_nat_alt not_less)
    qed
  qed
  have "region_free ?m r \<longleftrightarrow>
      \<not> (\<exists>e\<in>set ?m. fst e \<le> ?s \<and> lo r < hi (vm_region (snd e))) \<and>
      (\<forall>e\<in>set ?m. ?s \<le> fst e \<longrightarrow> hi r \<le> lo (vm_region (snd e)))"
  proof -
    have "vbytes (snd e) \<inter> bytes_of r = {} \<longleftrightarrow>
        \<not> (fst e \<le> ?s \<and> lo r < hi (vm_region (snd e))) \<and> (?s \<le> fst e \<longrightarrow> hi r \<le> lo (vm_region (snd e)))"
      if "e \<in> set ?m" for e
      unfolding ov [OF that] using areas_word(3,5) [OF ok that] ur by (auto simp: word_le_nat_alt)
    then show ?thesis unfolding region_free_iff by blast
  qed
  then show ?thesis unfolding is_region_free_def prev [symmetric] nxt [symmetric] by simp
qed

lemma find_gap_run:
  assumes "areas_ok (es @ hs)" "\<forall>e\<in>set hs. unat lim \<le> lo (vm_region (snd e))"
    "4096 dvd unat lim" "find_gap (rev es) lim len = Some r" "4096 dvd unat len" "len \<noteq> 0"
  shows "page_region_ok r \<and> rg_size r = len \<and> region_free (es @ hs) r"
  using assms
proof (induction es arbitrary: hs lim rule: rev_induct)
  case Nil
  then have r: "r = new_region (lim - len) (lim - (lim - len))" and le: "len \<le> lim" by (auto split: if_splits)
  have u: "unat (lim - len) = unat lim - unat len" "unat len \<le> unat lim" "0 < unat len"
    using le Nil.prems(6) by (simp_all add: unat_sub_usize word_le_nat_alt unat_gt_0)
  have sp: "page_region_ok r" "bytes_of r = {unat lim - unat len..<unat lim}"
    using span_region [of "lim - len" lim] u Nil.prems(3,5) unfolding r by (simp_all add: dvd_diff_nat)
  show ?case
    using sp Nil.prems(2) r by (auto simp: region_free_iff bytes_of_def [of "vm_region _"] new_region_def)
next
  case (snoc x es)
  have x: "x \<in> set ((es @ [x]) @ hs)" by simp
  note w = areas_word [OF snoc.prems(1) x]
  have before: "hi (vm_region (snd e)) \<le> lo (vm_region (snd x))" if "e \<in> set es" for e
  proof -
    have "fst e < fst x" using snoc.prems(1) that by (auto simp: areas_ok_def bt_ok_def sorted_wrt_append)
    then show ?thesis using areas_ordered [OF snoc.prems(1) _ x] that by simp
  qed
  have after: "lo (vm_region (snd x)) \<le> lo (vm_region (snd e))" if "e \<in> set hs" for e
  proof -
    have "fst x < fst e" using snoc.prems(1) that by (auto simp: areas_ok_def bt_ok_def sorted_wrt_append)
    then show ?thesis using areas_ordered [OF snoc.prems(1) x, of e] that w(5) by simp
  qed
  show ?case
  proof (cases "lim \<ge> vma_end (snd x) \<and> lim - vma_end (snd x) \<ge> len")
    case True
    then have r: "r = new_region (lim - len) (lim - (lim - len))"
      using snoc.prems(4) by (cases x) simp
    have g: "hi (vm_region (snd x)) + unat len \<le> unat lim"
    proof -
      have le: "hi (vm_region (snd x)) \<le> unat lim" "unat len \<le> unat (lim - vma_end (snd x))"
        using True w(4) by (simp_all add: word_le_nat_alt)
      have "unat (lim - vma_end (snd x)) = unat lim - hi (vm_region (snd x))"
        using le(1) w(4) by (subst unat_sub_usize) simp_all
      then show ?thesis using le by linarith
    qed
    have u: "unat (lim - len) = unat lim - unat len" "unat len \<le> unat lim" "0 < unat len"
      using g snoc.prems(6) by (simp_all add: unat_sub_usize unat_gt_0)
    have sp: "page_region_ok r" "bytes_of r = {unat lim - unat len..<unat lim}"
      using span_region [of "lim - len" lim] u snoc.prems(3,5) unfolding r by (simp_all add: dvd_diff_nat)
    have "vbytes (snd e) \<inter> bytes_of r = {}" if e: "e \<in> set ((es @ [x]) @ hs)" for e
    proof -
      consider "e \<in> set es" | "e = x" | "e \<in> set hs" using e by auto
      then show ?thesis
      proof cases
        case 1
        then show ?thesis using before [of e] g w(5) unfolding sp(2) by (auto simp: bytes_of_def)
      next
        case 2
        then show ?thesis using g unfolding sp(2) by (auto simp: bytes_of_def)
      next
        case 3
        then show ?thesis using snoc.prems(2) unfolding sp(2) by (auto simp: bytes_of_def)
      qed
    qed
    then show ?thesis using sp r by (simp add: region_free_iff new_region_def)
  next
    case False
    have "find_gap (rev es) (vma_start (snd x)) len = Some r" using snoc.prems(4) False by (cases x) auto
    moreover have "unat (vma_start (snd x)) = lo (vm_region (snd x))" using w(1,3) by simp
    moreover have "4096 dvd lo (vm_region (snd x))" using w(2) by (simp add: page_region_ok_def)
    ultimately show ?thesis
      using snoc.IH [of "x # hs" "vma_start (snd x)"] snoc.prems(1,5,6) after by simp
  qed
qed

lemma find_free_region_run:
  assumes "areas_ok (vmas mm)" "find_free_region mm len = Some r" "4096 dvd unat len" "len \<noteq> 0"
  shows "page_region_ok r \<and> rg_size r = len \<and> region_free (vmas mm) r"
proof -
  have "4096 dvd unat MMAP_BASE" by (simp add: MMAP_BASE_def)
  then show ?thesis
    using find_gap_run [of "vmas mm" "[]" MMAP_BASE len r] assms by (simp add: find_free_region_def)
qed

lemma find_gap_limit:
  "find_gap (rev es) lim len = Some r \<Longrightarrow> hi r \<le> unat lim \<or> (\<exists>e\<in>set es. hi r \<le> unat (vma_start (snd e)))"
proof (induction es arbitrary: lim rule: rev_induct)
  case Nil
  then have "r = new_region (lim - len) len" "len \<le> lim" by (auto split: if_splits)
  then show ?case by (simp add: hi_def new_region_def unat_sub_usize word_le_nat_alt)
next
  case (snoc x es)
  show ?case
  proof (cases "lim \<ge> vma_end (snd x) \<and> lim - vma_end (snd x) \<ge> len")
    case True
    then have r: "r = new_region (lim - len) len" using snoc.prems by (cases x) simp
    have "len \<le> lim" using True word_sub_le [of "vma_end (snd x)" lim] by (meson order_trans)
    then show ?thesis using r by (simp add: hi_def new_region_def unat_sub_usize word_le_nat_alt)
  next
    case False
    then have "find_gap (rev es) (vma_start (snd x)) len = Some r" using snoc.prems by (cases x) auto
    then show ?thesis using snoc.IH by fastforce
  qed
qed

text \<open>When the search finds nothing, no free region of that length ends at or below the limit.\<close>

lemma find_gap_complete:
  assumes "areas_ok (es @ hs)" "find_gap (rev es) lim len = None"
    "page_region_ok q" "rg_size q = len" "hi q \<le> unat lim"
  shows "\<exists>e\<in>set es. vbytes (snd e) \<inter> bytes_of q \<noteq> {}"
  using assms
proof (induction es arbitrary: hs lim rule: rev_induct)
  case Nil
  have "unat len \<le> hi q" using Nil.prems(4) by (simp add: hi_def)
  then show ?case using Nil.prems(2,5) by (simp add: word_le_nat_alt split: if_splits)
next
  case (snoc x es)
  have x: "x \<in> set ((es @ [x]) @ hs)" by simp
  note w = areas_word [OF snoc.prems(1) x] and q = page_region_okD(1) [OF snoc.prems(3)]
  have size: "hi q = lo q + unat len" using snoc.prems(4) by (simp add: hi_def lo_def)
  have none: "\<not> (lim \<ge> vma_end (snd x) \<and> lim - vma_end (snd x) \<ge> len)"
    "find_gap (rev es) (vma_start (snd x)) len = None" using snoc.prems(2) by (cases x; auto split: if_splits)+
  consider "hi q \<le> lo (vm_region (snd x))" | "vbytes (snd x) \<inter> bytes_of q \<noteq> {}" | "hi (vm_region (snd x)) \<le> lo q"
    using w(5) q by (auto simp: bytes_of_def) linarith
  then show ?case
  proof cases
    case 1
    then have "hi q \<le> unat (vma_start (snd x))" using w(1,3) by simp
    then show ?thesis using snoc.IH [of "x # hs" "vma_start (snd x)"] snoc.prems(1,3,4) none(2) by fastforce
  next
    case 3
    have le: "hi (vm_region (snd x)) + unat len \<le> unat lim" using 3 size snoc.prems(5) by simp
    then have "vma_end (snd x) \<le> lim" using w(4) by (simp add: word_le_nat_alt)
    moreover have "len \<le> lim - vma_end (snd x)"
      using le w(4) calculation by (simp add: word_le_nat_alt unat_sub_usize)
    ultimately show ?thesis using none(1) by simp
  qed auto
qed

section \<open>The system-call operations\<close>

text \<open>C27. Looking up an address finds exactly the area that contains it.\<close>

theorem find_vma_correct:
  assumes "areas_ok (vmas mm)"
  shows "find_vma mm a = Some v \<longleftrightarrow> v \<in> snd ` set (vmas mm) \<and> unat a \<in> vbytes v"
  using find_vma_eq [OF assms, of a] vma_at_Some [OF assms, of "unat a" v] by simp

lemma round_up_not_dvd:
  assumes "\<not> d dvd x" "0 < d" shows "round_up d x = round_down d x + d"
proof -
  have "x = x div d * d + x mod d" "x mod d \<noteq> 0" "x mod d < d" using assms by (simp_all add: dvd_eq_mod_eq_0)
  then have "x + (d - 1) = Suc (x div d) * d + (x mod d - 1)" by simp
  moreover have "(Suc (x div d) * d + (x mod d - 1)) div d = Suc (x div d)"
    using \<open>x mod d < d\<close> assms(2) by (metis add.commute div_less div_mult_self1 less_imp_diff_less plus_nat.add_0 not_less0)
  ultimately show ?thesis by (simp only: round_up_def round_down_def) simp
qed

lemma round_len_run:
  assumes "unat len + 4095 < 2 ^ 64" "len \<noteq> 0"
  shows "unat (round_len len) = round_up 4096 (unat len)" "4096 dvd unat (round_len len)" "round_len len \<noteq> 0"
proof -
  have down: "unat (len AND NOT PAGE_MASK) = round_down 4096 (unat len)"
    using unat_page_aligned [of len] by (simp add: page_aligned_def)
  have off: "unat (len AND PAGE_MASK) = unat len mod 4096" by (rule page_mask_offset)
  show r: "unat (round_len len) = round_up 4096 (unat len)"
  proof (cases "unat len mod 4096 = 0")
    case True
    then have "len AND PAGE_MASK = 0" using off unat_eq_zero by metis
    then show ?thesis using True by (simp add: round_len_def round_up_id dvd_eq_mod_eq_0)
  next
    case False
    then have ne: "len AND PAGE_MASK \<noteq> 0" using off by (metis unat_0)
    have up: "round_up 4096 (unat len) = round_down 4096 (unat len) + 4096"
      using False by (intro round_up_not_dvd) (simp_all add: dvd_eq_mod_eq_0)
    then have "round_down 4096 (unat len) + 4096 < 2 ^ 64"
      using assms(1) round_up_le [of 4096 "unat len"] by linarith
    then have "unat ((len AND NOT PAGE_MASK) + PAGE_SIZE) = round_down 4096 (unat len) + 4096"
      by (subst unat_add_usize) (simp_all only: down unat_PAGE_SIZE)
    then show ?thesis using ne up by (simp add: round_len_def)
  qed
  show "4096 dvd unat (round_len len)" unfolding r by simp
  have "0 < unat len" using assms(2) by (simp add: unat_gt_0)
  then have "0 < unat (round_len len)" unfolding r using round_up_ge [of 4096 "unat len"] by linarith
  then show "round_len len \<noteq> 0" by auto
qed

lemma new_region_ok:
  assumes "4096 dvd unat a" "4096 dvd unat n" "n \<noteq> 0" "unat a + unat n < 2 ^ 64"
  shows "page_region_ok (new_region a n)"
  using assms by (simp add: page_region_ok_def wf_region_def hi_def lo_def new_region_def)

definition request_fits :: "address_request \<Rightarrow> usize \<Rightarrow> bool" where
  "request_fits req n = (case req of Any \<Rightarrow> True | Hint a \<Rightarrow> unat a + unat n < 2 ^ 64
     | Fixed a _ \<Rightarrow> unat a + unat n < 2 ^ 64)"

text \<open>When a request may be refused: no free region of the length ends at or below \<open>MMAP_BASE\<close>, or the fixed
  address is not page aligned or in use.\<close>

definition no_room :: "(usize, 'i vmarea) btree \<Rightarrow> usize \<Rightarrow> bool" where
  "no_room m n \<longleftrightarrow> (\<forall>q. page_region_ok q \<and> rg_size q = n \<and> hi q \<le> unat MMAP_BASE \<longrightarrow> \<not> region_free m q)"

definition refused :: "(usize, 'i vmarea) btree \<Rightarrow> address_request \<Rightarrow> usize \<Rightarrow> kernel_error \<Rightarrow> bool" where
  "refused m req n e = (case req of
     Any \<Rightarrow> e = NoMemory \<and> no_room m n
   | Hint a \<Rightarrow> e = NoMemory \<and> no_room m n \<and> \<not> region_free m (new_region (page_aligned a) n)
   | Fixed a overlap_ok \<Rightarrow> e = InvalidValue \<and>
       (\<not> 4096 dvd unat a \<or> \<not> overlap_ok \<and> \<not> region_free m (new_region a n)))"

lemma find_free_region_None:
  assumes "areas_ok (vmas mm)" "find_free_region mm n = None"
  shows "no_room (vmas mm) n"
  using find_gap_complete [of "vmas mm" "[]" MMAP_BASE n] assms
  by (auto simp: no_room_def find_free_region_def region_free_iff)

lemma choose_region_run:
  assumes ok: "areas_ok (vmas mm)" and n: "4096 dvd unat n" "n \<noteq> 0" and fits: "request_fits req n"
  shows "(\<exists>r. choose_region mm req n = Ok r \<and> page_region_ok r \<and> rg_size r = n \<and>
      (case req of Any \<Rightarrow> region_free (vmas mm) r
       | Hint a \<Rightarrow> region_free (vmas mm) r \<and>
           (region_free (vmas mm) (new_region (page_aligned a) n) \<longrightarrow> r = new_region (page_aligned a) n)
       | Fixed a overlap_ok \<Rightarrow> r = new_region a n \<and> (overlap_ok \<or> region_free (vmas mm) r))) \<or>
    (\<exists>e. choose_region mm req n = Err e \<and> refused (vmas mm) req n e)"
proof -
  have find: "(\<exists>r. ok_or (find_free_region mm n) NoMemory = Ok r \<and> page_region_ok r \<and> rg_size r = n \<and>
      region_free (vmas mm) r) \<or> (\<exists>e. ok_or (find_free_region mm n) NoMemory = Err e \<and> e = NoMemory \<and> no_room (vmas mm) n)"
    using find_free_region_run [OF ok _ n] find_free_region_None [OF ok] by (cases "find_free_region mm n") auto
  show ?thesis
  proof (cases req)
    case Any
    then show ?thesis using find by (auto simp: choose_region_def refused_def)
  next
    case (Hint a)
    have al: "(if \<not> is_page_aligned a then page_aligned a else a) = page_aligned a"
    proof (cases "is_page_aligned a")
      case True
      then have "unat (page_aligned a) = unat a" by (simp add: unat_page_aligned is_page_aligned_iff round_down_id)
      then show ?thesis by (simp add: word_unat_eq_iff)
    qed simp
    let ?r = "new_region (page_aligned a) n"
    have "unat (page_aligned a) \<le> unat a" by (simp add: unat_page_aligned round_down_le)
    then have "unat (page_aligned a) + unat n < 2 ^ 64" using fits Hint by (simp add: request_fits_def)
    moreover have "4096 dvd unat (page_aligned a)" by (simp add: unat_page_aligned)
    ultimately have r: "page_region_ok ?r" using n by (intro new_region_ok)
    show ?thesis
      using find is_region_free_iff [OF ok r] r Hint al by (auto simp: choose_region_def Let_def new_region_def refused_def)
  next
    case (Fixed a ov)
    show ?thesis
    proof (cases "is_page_aligned a")
      case True
      then have r: "page_region_ok (new_region a n)"
        using fits n Fixed by (intro new_region_ok) (auto simp: request_fits_def is_page_aligned_iff)
      then show ?thesis
        using is_region_free_iff [OF ok r] Fixed True by (auto simp: choose_region_def Let_def new_region_def refused_def)
    qed (simp add: choose_region_def Fixed refused_def is_page_aligned_iff)
  qed
qed

lemma choose_any_below:
  assumes "areas_ok (vmas mm)" "below lim (vmas mm)" "unat MMAP_BASE \<le> lim" "find_free_region mm n = Some r"
  shows "hi r \<le> lim"
proof -
  have "unat (vma_start (snd e)) \<le> lim" if e: "e \<in> set (vmas mm)" for e
  proof -
    have "hi (vm_region (snd e)) \<le> lim" using below_area [OF assms(1,2), of "fst e" "snd e"] e by simp
    then show ?thesis using areas_word(1,3,5) [OF assms(1) e] by simp
  qed
  then show ?thesis
    using find_gap_limit [of "vmas mm" MMAP_BASE n r] assms(3,4) by (force simp: find_free_region_def)
qed

text \<open>C4. \<open>mmap\<close> over page tables that keep the interface \<open>user_address_space\<close> and on a map that is consistent with
  them, for a length and an address that do not wrap. It succeeds unless the request must be refused:
  a fixed address that is misaligned, or in use without permission to overlap; or no free region of
  the length ends at or below \<open>MMAP_BASE\<close>. On success exactly the pages of one region are mapped: page aligned,
  of the requested length rounded up to pages, at the requested place for fixed requests, and free before the call
  unless overlap was permitted. These addresses get the requested permissions and backing file, all
  others keep theirs, the areas stay disjoint, ordered and page aligned, and no page-table entry is added;
  the map stays consistent if the region lies in the user address space, as it does for every request
  without an address. A refusal leaves the map unchanged.\<close>

theorem mmap_correct:
  assumes A: "user_address_space A as_ok mapped limit" and mm: "mm_ok as_ok mapped limit mm"
    and len: "unat len + 4095 < 2 ^ 64" "len \<noteq> 0" and fits: "request_fits req (round_len len)"
  shows "(\<exists>r mm'. mmap A mm req len perms kind = (Ok (start_address r), mm') \<and>
      page_region_ok r \<and> unat (rg_size r) = round_up 4096 (unat len) \<and>
      (case req of Any \<Rightarrow> region_free (vmas mm) r \<and> hi r \<le> limit
       | Hint a \<Rightarrow> region_free (vmas mm) r
       | Fixed a overlap_ok \<Rightarrow> start_address r = a \<and> (overlap_ok \<or> region_free (vmas mm) r)) \<and>
      areas_ok (vmas mm') \<and>
      (\<forall>a. attr_at (vmas mm') a =
        (if a \<in> bytes_of r then Some (attr (new_vmarea r kind perms)) else attr_at (vmas mm) a)) \<and>
      mapped (address_space mm') \<subseteq> mapped (address_space mm) \<and>
      (hi r \<le> limit \<longrightarrow> mm_ok as_ok mapped limit mm')) \<or>
    (\<exists>e. mmap A mm req len perms kind = (Err e, mm) \<and> refused (vmas mm) req (round_len len) e)"
proof -
  note rl = round_len_run [OF len] and ok = mm_okD [OF mm]
  from choose_region_run [OF ok(1) rl(2,3) fits] show ?thesis
  proof
    assume "\<exists>e. choose_region mm req (round_len len) = Err e \<and> refused (vmas mm) req (round_len len) e"
    then show ?thesis using len(2) by (auto simp: mmap_def)
  next
    assume "\<exists>r. choose_region mm req (round_len len) = Ok r \<and> page_region_ok r \<and> rg_size r = round_len len \<and>
      (case req of Any \<Rightarrow> region_free (vmas mm) r
       | Hint a \<Rightarrow> region_free (vmas mm) r \<and>
           (region_free (vmas mm) (new_region (page_aligned a) (round_len len)) \<longrightarrow>
             r = new_region (page_aligned a) (round_len len))
       | Fixed a overlap_ok \<Rightarrow> r = new_region a (round_len len) \<and> (overlap_ok \<or> region_free (vmas mm) r))"
    then obtain r where r: "choose_region mm req (round_len len) = Ok r" "page_region_ok r" "rg_size r = round_len len"
      and pl: "case req of Any \<Rightarrow> region_free (vmas mm) r
       | Hint a \<Rightarrow> region_free (vmas mm) r
       | Fixed a overlap_ok \<Rightarrow> start_address r = a \<and> (overlap_ok \<or> region_free (vmas mm) r)"
      by (cases req) (auto simp: new_region_def start_address_def)
    have "hi r \<le> limit" if "req = Any"
      using r(1) that choose_any_below [OF ok(1,3) user_address_space.mmap_base_below [OF A], of "round_len len" r]
      by (cases "find_free_region mm (round_len len)") (simp_all add: choose_region_def)
    then have place: "case req of Any \<Rightarrow> region_free (vmas mm) r \<and> hi r \<le> limit
       | Hint a \<Rightarrow> region_free (vmas mm) r
       | Fixed a overlap_ok \<Rightarrow> start_address r = a \<and> (overlap_ok \<or> region_free (vmas mm) r)"
      using pl by (simp split: address_request.splits)
    let ?v = "new_vmarea r kind perms"
    have v: "vm_region ?v = r" by (simp add: new_vmarea_def)
    obtain mm' where m: "insert_and_merge A mm ?v = (Ok (), mm')" "areas_ok (vmas mm')"
      "\<forall>a. attr_at (vmas mm') a = overlay (vmas mm) ?v a" "as_ok (address_space mm')"
      "mapped (address_space mm') \<subseteq> mapped (address_space mm)"
      using user_address_space.insert_and_merge_run [OF A ok(1,3,2), of ?v] r(2) v by auto
    have run: "mmap A mm req len perms kind = (Ok (start_address r), mm')"
      using len(2) r(1) m(1) by (simp add: mmap_def)
    have at: "attr_at (vmas mm') a = (if a \<in> bytes_of r then Some (attr ?v) else attr_at (vmas mm) a)" for a
      using m(3) v by (simp add: overlay_def)
    have "mm_ok as_ok mapped limit mm'" if "hi r \<le> limit"
    proof -
      have "below limit (vmas mm')" using ok(3) that at unfolding below_def by (auto simp: bytes_of_def)
      moreover have "mapped (address_space mm') \<subseteq> {a. attr_at (vmas mm') a \<noteq> None}"
        using m(5) ok(4) unfolding at by auto
      ultimately show ?thesis using m(2,4) by (simp add: mm_ok_def)
    qed
    then show ?thesis using run r(2,3) rl(1) place m(2,5) at by (intro disjI1 exI [of _ r] exI [of _ mm']) simp
  qed
qed

context user_address_space
begin

lemma unmap_region_mm_ok:
  assumes mm: "mm_ok as_ok mapped limit mm" and r: "page_region_ok r"
  shows "\<exists>ps mm'. unmap_region A mm r None = (Ok ps, mm') \<and> mm_ok as_ok mapped limit mm' \<and>
    (\<forall>a. attr_at (vmas mm') a = (if a \<in> bytes_of r then None else attr_at (vmas mm) a)) \<and>
    mapped (address_space mm') = mapped (address_space mm) - bytes_of r"
proof -
  note ok = mm_okD [OF mm]
  obtain ps mm' where u: "unmap_region A mm r None = (Ok ps, mm')" "areas_ok (vmas mm')"
    "\<And>a. attr_at (vmas mm') a = (if a \<in> bytes_of r then None else attr_at (vmas mm) a)" "as_ok (address_space mm')"
    "mapped (address_space mm') = mapped (address_space mm) - (bytes_of r \<inter> {a. attr_at (vmas mm) a \<noteq> None})"
    using unmap_region_run [OF ok(1,3,2) r, of None] by blast
  have mp: "mapped (address_space mm') = mapped (address_space mm) - bytes_of r" using u(5) ok(4) by auto
  have "below limit (vmas mm')" by (rule below_sub [OF ok(3)]) (metis u(3))
  moreover have "mapped (address_space mm') \<subseteq> {a. attr_at (vmas mm') a \<noteq> None}"
    using mp ok(4) unfolding u(3) by auto
  ultimately show ?thesis using u(1-4) mp by (auto simp: mm_ok_def)
qed

end

text \<open>C11. \<open>munmap\<close> of a page-aligned, non-empty range whose end does not wrap, on a map that is consistent with page tables
  that keep the interface \<open>user_address_space\<close>: it removes exactly the pages the range touches, whatever areas they
  belong to, from the map and from the page tables, so no address of the range keeps an entry;
  all other addresses keep their permissions, their backing file and their entries, and the map stays
  consistent. Other requests are rejected with the map unchanged. The position in the backing file is not
  part of this: splitting a file area loses it.\<close>

theorem munmap_correct:
  assumes A: "user_address_space A as_ok mapped limit" and mm: "mm_ok as_ok mapped limit mm"
    and r: "hi r + 4095 < 2 ^ 64"
  shows "if region_is_page_aligned r \<and> rg_size r \<noteq> 0
    then \<exists>ps mm'. munmap A mm r = (Ok ps, mm') \<and> mm_ok as_ok mapped limit mm' \<and>
      (\<forall>a. attr_at (vmas mm') a =
        (if lo r \<le> a \<and> a < round_up 4096 (hi r) then None else attr_at (vmas mm) a)) \<and>
      mapped (address_space mm') = mapped (address_space mm) - {lo r..<round_up 4096 (hi r)}
    else munmap A mm r = (Err InvalidValue, mm)"
proof (cases "region_is_page_aligned r \<and> rg_size r \<noteq> 0")
  case True
  then have al: "4096 dvd lo r" by (simp add: region_is_page_aligned_def is_page_aligned_iff lo_def)
  obtain q where q: "align_to_page_boundary r = Ok q" "lo q = lo r" "hi q = round_up 4096 (hi r)" "wf_region q"
    using align_to_page_boundary_Ok [OF r] round_down_id [OF al] by auto
  have "0 < unat (rg_size r)" using True by (simp add: unat_gt_0)
  then have "lo r < hi r" by (simp add: lo_def hi_def)
  then have "lo q < hi q" using q(2,3) round_up_ge [of 4096 "hi r"] by linarith
  then have "rg_size q \<noteq> 0" by (auto simp: lo_def hi_def)
  then have pq: "page_region_ok q" using q al by (simp add: page_region_ok_def)
  have b: "bytes_of q = {lo r..<round_up 4096 (hi r)}" using q by (simp add: bytes_of_def)
  from user_address_space.unmap_region_mm_ok [OF A mm pq] obtain ps mm' where
    "unmap_region A mm q None = (Ok ps, mm')" "mm_ok as_ok mapped limit mm'"
    "\<forall>a. attr_at (vmas mm') a = (if a \<in> bytes_of q then None else attr_at (vmas mm) a)"
    "mapped (address_space mm') = mapped (address_space mm) - bytes_of q" by blast
  then show ?thesis using True q(1) unfolding b by (auto simp: munmap_def)
next
  case False
  then show ?thesis by (auto simp: munmap_def)
qed

section \<open>Changing permissions\<close>

definition perms_at :: "(usize, 'i vmarea) btree \<Rightarrow> nat \<Rightarrow> vma_permissions option" where
  "perms_at m a = map_option fst (attr_at m a)"

lemma perms_at_None: "perms_at m a = None \<longleftrightarrow> attr_at m a = None"
  by (simp add: perms_at_def)

lemma shrink_to_simps [simp]:
  "vm_region (shrink_to v r) = r" "vm_permissions (shrink_to v r) = vm_permissions v"
  by (simp_all add: shrink_to_def clone_with_new_region_def Let_def split: vma_kind.split)

text \<open>The part of the consistency that holds also while an area is taken out of the map.\<close>

definition parts_ok :: "('as \<Rightarrow> bool) \<Rightarrow> nat \<Rightarrow> ('i, 'as) memory_map \<Rightarrow> bool" where
  "parts_ok as_ok limit mm \<longleftrightarrow> areas_ok (vmas mm) \<and> below limit (vmas mm) \<and> as_ok (address_space mm)"

lemma below_perms:
  assumes "below limit m" "hi r \<le> limit"
    "\<And>a. perms_at m' a = (if a \<in> bytes_of r then Some p else perms_at m a)"
  shows "below limit m'"
  unfolding below_def
proof (intro allI impI)
  fix a assume "attr_at m' a \<noteq> None"
  then have "a \<in> bytes_of r \<or> attr_at m a \<noteq> None"
    using assms(3) [of a] perms_at_None [of m' a] perms_at_None [of m a] by (metis (full_types))
  then show "a < limit" using assms(1,2) by (auto simp: bytes_of_def below_def)
qed

context user_address_space
begin

lemma insert_perms:
  assumes ok: "parts_ok as_ok limit mm" and v: "page_region_ok (vm_region v)" "hi (vm_region v) \<le> limit"
  shows "\<exists>mm'. insert_and_merge A mm v = (Ok (), mm') \<and> parts_ok as_ok limit mm' \<and>
    (\<forall>a. perms_at (vmas mm') a = (if a \<in> vbytes v then Some (vm_permissions v) else perms_at (vmas mm) a)) \<and>
    mapped (address_space mm') \<subseteq> mapped (address_space mm)"
proof -
  obtain mm' where m: "insert_and_merge A mm v = (Ok (), mm')" "areas_ok (vmas mm')"
    "\<forall>a. attr_at (vmas mm') a = overlay (vmas mm) v a" "as_ok (address_space mm')"
    "mapped (address_space mm') \<subseteq> mapped (address_space mm)"
    using insert_and_merge_run [OF _ _ _ v(1), of mm] ok unfolding parts_ok_def by blast
  have p: "perms_at (vmas mm') a = (if a \<in> vbytes v then Some (vm_permissions v) else perms_at (vmas mm) a)" for a
    using m(3) by (simp add: perms_at_def overlay_def attr_def)
  have "below limit (vmas mm')" using below_perms [OF _ v(2) p] ok by (simp add: parts_ok_def)
  then show ?thesis using m p by (auto simp: parts_ok_def)
qed

lemma insert_optional_perms:
  assumes ok: "parts_ok as_ok limit mm" and part: "\<And>r. part = Some r \<Longrightarrow> page_region_ok r \<and> hi r \<le> limit"
  shows "\<exists>mm'. insert_optional A mm v part = (Ok (), mm') \<and> parts_ok as_ok limit mm' \<and>
    (\<forall>a. perms_at (vmas mm') a =
      (if a \<in> opt_bytes part then Some (vm_permissions v) else perms_at (vmas mm) a)) \<and>
    mapped (address_space mm') \<subseteq> mapped (address_space mm)"
proof (cases part)
  case None
  then show ?thesis using ok by (simp add: insert_optional_def opt_bytes_def)
next
  case (Some r)
  then show ?thesis
    using insert_perms [OF ok, of "shrink_to v r"] part by (auto simp: insert_optional_def opt_bytes_def)
qed

lemma protect_run:
  assumes "parts_ok as_ok limit mm" "page_region_ok r" "hi r \<le> limit"
  shows "\<exists>mm'. protect A mm r p = (Ok (), mm') \<and> vmas mm' = vmas mm \<and> parts_ok as_ok limit mm' \<and>
    mapped (address_space mm') = mapped (address_space mm)"
proof -
  obtain s where "as_protect_range A r (pte_from_vma p) (address_space mm) = (Ok (), s)" "as_ok s"
    "mapped s = mapped (address_space mm)"
    using protect_range_ok [OF _ assms(2,3)] assms(1) unfolding parts_ok_def by blast
  then show ?thesis using assms(1) by (simp add: protect_def parts_ok_def)
qed

end

lemma punch_hole_inner:
  assumes v: "page_region_ok r" and h: "page_region_ok h" and c: "contains r h"
  shows "\<exists>l t. punch_hole r h = Ok (l, t) \<and> (\<forall>x. l = Some x \<longrightarrow> page_region_ok x) \<and>
    (\<forall>x. t = Some x \<longrightarrow> page_region_ok x) \<and>
    opt_bytes l = {lo r..<lo h} \<and> opt_bytes t = {hi h..<hi r} \<and> lo r \<le> lo h \<and> hi h \<le> hi r"
proof -
  have wf: "wf_region r" "wf_region h" using v h by (auto simp: page_region_ok_def)
  have b: "lo r \<le> lo h" "hi h \<le> hi r"
    using c page_region_okD(2,3) [OF v] page_region_okD(2,3) [OF h] by (simp_all add: contains_def word_le_nat_alt)
  note n = page_region_okD(1) [OF v] page_region_okD(1) [OF h]
  obtain l t where p: "punch_hole r h = Ok (l, t)" "l = None \<longleftrightarrow> \<not> (lo r < lo h \<and> lo r < hi r)"
    "\<forall>x. l = Some x \<longrightarrow> wf_region x \<and> lo x = lo r \<and> hi x = min (hi r) (lo h)"
    "t = None \<longleftrightarrow> \<not> (hi h < hi r \<and> lo r < hi r)"
    "\<forall>x. t = Some x \<longrightarrow> wf_region x \<and> lo x = max (lo r) (hi h) \<and> hi x = hi r"
    using punch_hole_Ok [OF wf] by blast
  have ne: "rg_size x \<noteq> 0" if "lo x < hi x" for x :: region using that by (auto simp: lo_def hi_def)
  have al: "4096 dvd lo r" "4096 dvd hi r" "4096 dvd lo h" "4096 dvd hi h"
    using v h by (auto simp: page_region_ok_def)
  have l: "page_region_ok x \<and> lo x = lo r \<and> hi x = lo h" if "l = Some x" for x
    using p(2,3) that b n al ne [of x] by (auto simp: page_region_ok_def min_def)
  have t: "page_region_ok x \<and> lo x = hi h \<and> hi x = hi r" if "t = Some x" for x
    using p(4,5) that b n al ne [of x] by (auto simp: page_region_ok_def max_def)
  have "opt_bytes l = {lo r..<lo h}" using l p(2) b n by (cases l) (auto simp: opt_bytes_def bytes_of_def)
  moreover have "opt_bytes t = {hi h..<hi r}" using t p(4) b n by (cases t) (auto simp: opt_bytes_def bytes_of_def)
  ultimately show ?thesis using p(1) l t b by blast
qed

context user_address_space
begin

text \<open>The part of \<open>mprotect\<close> after the area \<open>v\<close> has been taken out, for a range that is smaller than \<open>v\<close>.\<close>

lemma mprotect_split:
  assumes ok: "parts_ok as_ok limit mm" and v: "page_region_ok (vm_region v)" "hi (vm_region v) \<le> limit"
    and r: "page_region_ok r" and c: "contains (vm_region v) r" and ph: "punch_hole (vm_region v) r = Ok (l, t)"
  shows "\<exists>mm'. st_then (insert_optional A mm v l) (\<lambda>_ mm3. st_then (protect A mm3 r p) (\<lambda>_ mm4.
        st_then (insert_and_merge A mm4 ((shrink_to v r)\<lparr>vm_permissions := p\<rparr>)) (\<lambda>_ mm5.
        insert_optional A mm5 v t))) = (Ok (), mm') \<and> parts_ok as_ok limit mm' \<and>
    (\<forall>a. perms_at (vmas mm') a = (if a \<in> bytes_of r then Some p
       else if a \<in> vbytes v then Some (vm_permissions v) else perms_at (vmas mm) a)) \<and>
    mapped (address_space mm') \<subseteq> mapped (address_space mm)"
proof -
  have h: "\<And>x. l = Some x \<Longrightarrow> page_region_ok x" "\<And>x. t = Some x \<Longrightarrow> page_region_ok x"
    "opt_bytes l = {lo (vm_region v)..<lo r}" "opt_bytes t = {hi r..<hi (vm_region v)}"
    "lo (vm_region v) \<le> lo r" "hi r \<le> hi (vm_region v)"
    using punch_hole_inner [OF v(1) r c] ph by auto
  have le: "page_region_ok x \<and> hi x \<le> limit" if "l = Some x \<or> t = Some x" for x
  proof -
    have x: "page_region_ok x" using that h(1,2) by blast
    have "bytes_of x = {lo (vm_region v)..<lo r} \<or> bytes_of x = {hi r..<hi (vm_region v)}"
      using that h(3,4) by auto
    moreover have "hi x - 1 \<in> bytes_of x" using page_region_okD(1) [OF x] by (auto simp: bytes_of_def)
    ultimately have "hi x - 1 < hi (vm_region v)" using h(6) page_region_okD(1) [OF r] by auto
    then show ?thesis using x v(2) by simp
  qed
  have hr: "hi r \<le> limit" using h(6) v(2) by simp
  let ?n = "(shrink_to v r)\<lparr>vm_permissions := p\<rparr>"
  obtain mm2 where i2: "insert_optional A mm v l = (Ok (), mm2)" "parts_ok as_ok limit mm2"
    "\<And>a. perms_at (vmas mm2) a = (if a \<in> opt_bytes l then Some (vm_permissions v) else perms_at (vmas mm) a)"
    "mapped (address_space mm2) \<subseteq> mapped (address_space mm)"
    using insert_optional_perms [OF ok, of l v] le by blast
  obtain mm3 where q: "protect A mm2 r p = (Ok (), mm3)" "vmas mm3 = vmas mm2" "parts_ok as_ok limit mm3"
    "mapped (address_space mm3) = mapped (address_space mm2)" using protect_run [OF i2(2) r hr] by blast
  obtain mm4 where i4: "insert_and_merge A mm3 ?n = (Ok (), mm4)" "parts_ok as_ok limit mm4"
    "\<And>a. perms_at (vmas mm4) a = (if a \<in> bytes_of r then Some p else perms_at (vmas mm2) a)"
    "mapped (address_space mm4) \<subseteq> mapped (address_space mm3)"
    using insert_perms [OF q(3), of ?n] q(2) r hr by auto
  obtain mm5 where i5: "insert_optional A mm4 v t = (Ok (), mm5)" "parts_ok as_ok limit mm5"
    "\<And>a. perms_at (vmas mm5) a = (if a \<in> opt_bytes t then Some (vm_permissions v) else perms_at (vmas mm4) a)"
    "mapped (address_space mm5) \<subseteq> mapped (address_space mm4)"
    using insert_optional_perms [OF i4(2), of t v] le by blast
  have "perms_at (vmas mm5) a = (if a \<in> bytes_of r then Some p
      else if a \<in> vbytes v then Some (vm_permissions v) else perms_at (vmas mm) a)" for a
    unfolding i5(3) i4(3) i2(3) h(3,4) using h(5,6) page_region_okD(1) [OF r] by (auto simp: bytes_of_def)
  then show ?thesis using i2(1) q(1) i4(1) i5(1,2) i2(4) q(4) i4(4) i5(4) by auto
qed

end


section \<open>The program break\<close>

definition brk_ok :: "('as \<Rightarrow> bool) \<Rightarrow> ('as \<Rightarrow> nat set) \<Rightarrow> nat \<Rightarrow> ('i, 'as) process_vm \<Rightarrow> bool" where
  "brk_ok as_ok mapped limit vm \<longleftrightarrow> mm_ok as_ok mapped limit (mm_map vm) \<and> wf_region (brk vm) \<and>
     4096 dvd lo (brk vm) \<and> 4096 dvd hi (brk vm)"

context user_address_space
begin

lemma mmap_fixed_run:
  assumes mm: "mm_ok as_ok mapped limit mm" and r: "page_region_ok (new_region a n)" "hi (new_region a n) \<le> limit"
  shows "if region_free (vmas mm) (new_region a n)
    then \<exists>mm'. mmap A mm (Fixed a False) n p k = (Ok a, mm') \<and> mm_ok as_ok mapped limit mm' \<and>
      (\<forall>b. attr_at (vmas mm') b = (if b \<in> bytes_of (new_region a n)
         then Some (attr (new_vmarea (new_region a n) k p)) else attr_at (vmas mm) b)) \<and>
      mapped (address_space mm') \<subseteq> mapped (address_space mm)
    else mmap A mm (Fixed a False) n p k = (Err InvalidValue, mm)"
proof -
  let ?r = "new_region a n" and ?v = "new_vmarea (new_region a n) k p"
  note ok = mm_okD [OF mm]
  have n: "n \<noteq> 0" "4096 dvd unat a" using r(1) by (auto simp: page_region_ok_def new_region_def lo_def)
  have "4096 dvd unat a + unat n" using r(1) by (auto simp: page_region_ok_def new_region_def hi_def)
  then have "4096 dvd unat n" using n(2) by (simp add: dvd_add_right_iff)
  then have "unat (n AND PAGE_MASK) = 0" by (simp add: page_mask_offset)
  then have rl: "round_len n = n" by (simp add: round_len_def unat_eq_zero)
  have ch: "choose_region mm (Fixed a False) n =
      (if region_free (vmas mm) ?r then Ok ?r else Err InvalidValue)"
    using n(2) is_region_free_iff [OF ok(1) r(1)] by (simp add: choose_region_def is_page_aligned_iff Let_def)
  show ?thesis
  proof (cases "region_free (vmas mm) ?r")
    case True
    obtain mm' where m: "insert_and_merge A mm ?v = (Ok (), mm')" "areas_ok (vmas mm')"
      "\<forall>a. attr_at (vmas mm') a = overlay (vmas mm) ?v a" "as_ok (address_space mm')"
      "mapped (address_space mm') \<subseteq> mapped (address_space mm)"
      using insert_and_merge_run [OF ok(1,3,2), of ?v] r(1) by (auto simp: new_vmarea_def)
    have v: "vm_region ?v = ?r" "start_address ?r = a"
      by (simp_all add: new_vmarea_def new_region_def start_address_def)
    have at: "attr_at (vmas mm') b = (if b \<in> bytes_of ?r then Some (attr ?v) else attr_at (vmas mm) b)" for b
      using m(3) v by (simp add: overlay_def)
    have "below limit (vmas mm')" using ok(3) r(2) at unfolding below_def by (auto simp: bytes_of_def)
    moreover have "mapped (address_space mm') \<subseteq> {a. attr_at (vmas mm') a \<noteq> None}"
      using m(5) ok(4) unfolding at by auto
    ultimately have "mm_ok as_ok mapped limit mm'" using m(2,4) by (simp add: mm_ok_def)
    then show ?thesis using True n(1) m(1,5) v(2) at by (simp add: mmap_def rl ch)
  next
    case False
    then show ?thesis using n(1) by (simp add: mmap_def rl ch)
  qed
qed

lemma munmap_run:
  assumes mm: "mm_ok as_ok mapped limit mm" and r: "page_region_ok r"
  shows "\<exists>ps mm'. munmap A mm r = (Ok ps, mm') \<and> mm_ok as_ok mapped limit mm' \<and>
    (\<forall>a. attr_at (vmas mm') a = (if a \<in> bytes_of r then None else attr_at (vmas mm) a)) \<and>
    mapped (address_space mm') = mapped (address_space mm) - bytes_of r"
proof -
  have "hi r + 4095 < 2 ^ 64"
  proof -
    have "4096 dvd hi r" "hi r < 4096 * 2 ^ 52" using r by (auto simp: page_region_ok_def wf_region_def)
    then obtain q where "hi r = 4096 * q" "q < 2 ^ 52" by (auto elim!: dvdE)
    then show ?thesis by simp
  qed
  then have "align_to_page_boundary r = Ok r"
    using r by (intro align_to_page_boundary_id) (auto simp: page_region_ok_def)
  moreover have "region_is_page_aligned r" "rg_size r \<noteq> 0"
    using r by (auto simp: page_region_ok_def region_is_page_aligned_def is_page_aligned_iff lo_def)
  ultimately show ?thesis using unmap_region_mm_ok [OF mm r] by (simp add: munmap_def)
qed

end

text \<open>C28. \<open>resize_brk\<close> moves the end of the heap to the requested address rounded up to a page, on a map that is
  consistent with page tables that keep the interface \<open>user_address_space\<close> and for a request inside the user
  address space. Growing maps exactly the new pages, readable and writable and anonymous, and is refused without
  any change when one of them is in use; shrinking removes exactly the pages given up from the map and
  their entries from the page tables; a request below the start of the heap is refused. All
  other addresses keep their permissions and backing file, and the map stays consistent.\<close>

theorem resize_brk_correct:
  assumes A: "user_address_space A as_ok mapped limit" and ok: "brk_ok as_ok mapped limit vm"
    and e: "unat e + 4095 < 2 ^ 64" "round_up 4096 (unat e) \<le> limit"
  defines "E \<equiv> round_up 4096 (unat e)"
  shows "if unat e < lo (brk vm) then resize_brk A vm e = (Err InvalidValue, vm)
    else if E = hi (brk vm) then resize_brk A vm e = (Ok e, vm)
    else if E > hi (brk vm) \<and> (\<exists>a. hi (brk vm) \<le> a \<and> a < E \<and> attr_at (vmas (mm_map vm)) a \<noteq> None)
    then resize_brk A vm e = (Err InvalidValue, vm)
    else \<exists>vm'. resize_brk A vm e = (Ok e, vm') \<and> brk_ok as_ok mapped limit vm' \<and>
      lo (brk vm') = lo (brk vm) \<and> hi (brk vm') = E \<and>
      (\<forall>a. attr_at (vmas (mm_map vm')) a =
        (if hi (brk vm) \<le> a \<and> a < E then Some (vma_rw, None)
         else if E \<le> a \<and> a < hi (brk vm) then None else attr_at (vmas (mm_map vm)) a)) \<and>
      mapped (address_space (mm_map vm')) \<subseteq> mapped (address_space (mm_map vm)) - {E..<hi (brk vm)}"
proof -
  let ?b = "brk vm" and ?mm = "mm_map vm"
  have ar: "mm_ok as_ok mapped limit ?mm" and wf: "wf_region ?b" and al: "4096 dvd lo ?b" "4096 dvd hi ?b"
    using ok by (auto simp: brk_ok_def)
  have us: "unat (start_address ?b) = lo ?b" by (simp add: start_address_def lo_def)
  have ue: "unat (end_address ?b) = hi ?b" using unat_end_address [OF wf] .
  obtain w where w: "align_up e PAGE_SIZE = Ok w" "unat w = E" using align_up_PAGE_SIZE [OF e(1)] by (auto simp: E_def)
  have Eal: "4096 dvd E" and Ele: "unat e \<le> E" by (simp_all add: E_def round_up_ge)
  show ?thesis
  proof (cases "unat e < lo ?b")
    case True
    then show ?thesis by (simp add: resize_brk_def Let_def word_less_nat_alt us)
  next
    case ge: False
    then have "lo ?b \<le> unat w" using Ele w(2) by simp
    then obtain nb where nb: "from_start_end_address (start_address ?b) w = Ok nb" "lo nb = lo ?b" "hi nb = E" "wf_region nb"
      using from_start_end_address_Ok [of "start_address ?b" w] us w(2) by auto
    have ne: "\<not> e < start_address ?b" using ge by (simp add: word_less_nat_alt us)
    have cmp: "w = end_address ?b \<longleftrightarrow> E = hi ?b" "w > end_address ?b \<longleftrightarrow> E > hi ?b"
      by (simp_all add: word_unat_eq_iff word_less_nat_alt w(2) ue)
    consider (same) "E = hi ?b" | (grow) "E > hi ?b" | (shrink) "E < hi ?b" by linarith
    then show ?thesis
    proof cases
      case same
      then show ?thesis using ge ne nb(1) w(1) cmp by (simp add: resize_brk_def Let_def)
    next
      case grow
      let ?r = "new_region (end_address ?b) (w - end_address ?b)"
      have sp: "page_region_ok ?r" "bytes_of ?r = {hi ?b..<E}"
        using span_region [of "end_address ?b" w] grow al(2) Eal by (simp_all add: ue w(2))
      have "hi ?r = E" using grow unat_sub_usize [of "end_address ?b" w] by (simp add: hi_def new_region_def ue w(2))
      then have hr: "hi ?r \<le> limit" using e(2) by (simp add: E_def)
      have res: "resize_brk A vm e = st_then (in_map vm (mmap A ?mm (Fixed (end_address ?b) False)
          (w - end_address ?b) BRK_PERMISSIONS Anon)) (\<lambda>_ vm. (Ok e, vm\<lparr>brk := nb\<rparr>))"
        using ne nb(1) w(1) cmp grow by (simp add: resize_brk_def Let_def)
      note mf = user_address_space.mmap_fixed_run [OF A ar sp(1) hr, of BRK_PERMISSIONS Anon]
      have fr: "region_free (vmas ?mm) ?r \<longleftrightarrow> \<not> (\<exists>a. hi ?b \<le> a \<and> a < E \<and> attr_at (vmas ?mm) a \<noteq> None)"
        unfolding region_free_def sp(2) by (simp add: Ball_def del: not_None_eq) blast
      show ?thesis
      proof (cases "region_free (vmas ?mm) ?r")
        case True
        then obtain mm' where m: "mmap A ?mm (Fixed (end_address ?b) False) (w - end_address ?b) BRK_PERMISSIONS Anon =
            (Ok (end_address ?b), mm')" "mm_ok as_ok mapped limit mm'"
          "\<forall>a. attr_at (vmas mm') a = (if a \<in> {hi ?b..<E}
             then Some (attr (new_vmarea ?r Anon BRK_PERMISSIONS)) else attr_at (vmas ?mm) a)"
          "mapped (address_space mm') \<subseteq> mapped (address_space ?mm)"
          using mf unfolding sp(2) by auto
        have at: "attr (new_vmarea ?r Anon BRK_PERMISSIONS) = (vma_rw, None)"
          by (simp add: attr_def new_vmarea_def BRK_PERMISSIONS_def)
        have "resize_brk A vm e = (Ok e, vm\<lparr>mm_map := mm', brk := nb\<rparr>)" by (simp add: res in_map_def m(1))
        then show ?thesis
          using True fr ge grow m(2,4) m(3) [unfolded at] nb Eal al by (simp add: brk_ok_def)
      next
        case False
        then have "mmap A ?mm (Fixed (end_address ?b) False) (w - end_address ?b) BRK_PERMISSIONS Anon =
            (Err InvalidValue, ?mm)" using mf by simp
        then have "resize_brk A vm e = (Err InvalidValue, vm)" by (simp add: res in_map_def)
        then show ?thesis using False fr ge grow by simp
      qed
    next
      case shrink
      let ?r = "new_region w (end_address ?b - w)"
      have sp: "page_region_ok ?r" "bytes_of ?r = {E..<hi ?b}"
        using span_region [of w "end_address ?b"] shrink al(2) Eal by (simp_all add: ue w(2))
      have "from_start_end_address w (end_address ?b) = Ok ?r"
        using shrink by (simp add: from_start_end_address_def word_le_nat_alt ue w(2) new_region_def)
      then have res: "resize_brk A vm e = st_then (in_map vm (munmap A ?mm ?r)) (\<lambda>_ vm. (Ok e, vm\<lparr>brk := nb\<rparr>))"
        using ne nb(1) w(1) cmp shrink by (simp add: resize_brk_def Let_def)
      obtain ps mm' where m: "munmap A ?mm ?r = (Ok ps, mm')" "mm_ok as_ok mapped limit mm'"
        "\<forall>a. attr_at (vmas mm') a = (if a \<in> {E..<hi ?b} then None else attr_at (vmas ?mm) a)"
        "mapped (address_space mm') = mapped (address_space ?mm) - {E..<hi ?b}"
        using user_address_space.munmap_run [OF A ar sp(1)] unfolding sp(2) by blast
      have "resize_brk A vm e = (Ok e, vm\<lparr>mm_map := mm', brk := nb\<rparr>)" by (simp add: res in_map_def m(1))
      then show ?thesis using ge shrink m(2-4) nb Eal al by (simp add: brk_ok_def)
    qed
  qed
qed

section \<open>Where the code falls short\<close>

text \<open>C35. When the range given to \<open>mprotect\<close> starts in an area but reaches beyond it, the call
  fails after the area has been taken out of the map: the addresses of this area, all mapped
  before, belong to no area afterwards.\<close>

theorem mprotect_loses_area:
  assumes ok: "areas_ok (vmas mm)" and r: "region_is_page_aligned r" "rg_size r \<noteq> 0"
    and v: "find_vma mm (start_address r) = Some v" and c: "\<not> contains (vm_region v) r"
  shows "fst (mprotect A mm r p) = Err NoMemory \<and>
    (\<forall>a\<in>vbytes v. attr_at (vmas mm) a \<noteq> None \<and> attr_at (vmas (snd (mprotect A mm r p))) a = None)"
proof -
  have "vma_at (vmas mm) (unat (start_address r)) = Some v" using v find_vma_eq [OF ok] by simp
  from vma_at_SomeD [OF this] obtain k where "(k, v) \<in> set (vmas mm)" by auto
  then have mem: "(vma_start v, v) \<in> set (vmas mm)" using areas_okD(1) [OF ok] by metis
  have get: "bt_get (vmas mm) (vma_start v) = Some v"
    using bt_get_Some [of "vmas mm"] ok mem by (simp add: areas_ok_def)
  have ne: "vm_region v \<noteq> r" using c by (auto simp: contains_def)
  have run: "mprotect A mm r p = (Err NoMemory, mm\<lparr>vmas := bt_remove (vma_start v) (vmas mm)\<rparr>)"
    using r v get c ne by (simp add: mprotect_def Let_def)
  have "attr_at (vmas mm) a \<noteq> None \<and> attr_at (bt_remove (vma_start v) (vmas mm)) a = None"
    if a: "a \<in> vbytes v" for a
  proof -
    have "v \<in> snd ` set (vmas mm)" using mem by force
    then have "vma_at (vmas mm) a = Some v" using vma_at_Some [OF ok] a by simp
    then show ?thesis using areas_remove(3) [OF ok mem, of a] a by (simp add: attr_at_def)
  qed
  then show ?thesis using run by simp
qed

text \<open>A page-table implementation whose operations succeed without effect, and one whose
  \<open>unmap_range\<close> fails.\<close>

definition null_as :: "unit as_ops" where
  "null_as = \<lparr>as_new = Ok (), as_unmap_range = (\<lambda>r s. (Ok [], s)),
     as_protect_range = (\<lambda>r p s. (Ok (), s)), as_protect_and_clone_region = (\<lambda>r p s t. (Ok (), s, t))\<rparr>"

definition failing_as :: "unit as_ops" where
  "failing_as = null_as\<lparr>as_unmap_range := (\<lambda>r s. (Err Fault, s))\<rparr>"

definition file_map :: "(nat, unit) memory_map" where
  "file_map = \<lparr>vmas = [(0x1000, new_vmarea (new_region 0x1000 0x3000) (new_file_kind 7 0 0x3000) vma_ro)],
     address_space = ()\<rparr>"

lemma file_map_ok: "areas_ok (vmas file_map)"
  by (simp add: areas_ok_def bt_ok_def file_map_def new_vmarea_def new_region_def start_address_def
      page_region_ok_def wf_region_def lo_def hi_def)

text \<open>File positions are lost when file-backed areas are split or merged. Unmapping the middle
  page of a three-page mapping leaves the last page backed by the start of the file instead of
  its third page; mapping a file page directly after the preceding page of the same file leaves
  the new page backed by zeros instead of the file.\<close>

theorem file_positions_lost:
  "map (\<lambda>e. (vm_region (snd e), backing (snd e) (lo (vm_region (snd e)))))
     (vmas (snd (munmap null_as file_map (new_region 0x2000 0x1000)))) =
     [(new_region 0x1000 0x1000, Some (7, 0)), (new_region 0x3000 0x1000, Some (7, 0))] \<and>
   backing (snd (hd (vmas file_map))) 0x3000 = Some (7, 0x2000) \<and>
   map (\<lambda>e. (vm_region (snd e), backing (snd e) 0x4000))
     (vmas (snd (mmap null_as file_map (Fixed 0x4000 False) 0x1000 vma_ro (new_file_kind 7 0x3000 0x1000)))) =
     [(new_region 0x1000 0x4000, None)]"
proof -
  have a: "vmas (snd (munmap null_as file_map (new_region 0x2000 0x1000))) =
      [(0x1000, new_vmarea (new_region 0x1000 0x1000) (new_file_kind 7 0 0x3000) vma_ro),
       (0x3000, new_vmarea (new_region 0x3000 0x1000) (new_file_kind 7 0 0x3000) vma_ro)]"
    by code_simp
  have b: "vmas (snd (mmap null_as file_map (Fixed 0x4000 False) 0x1000 vma_ro (new_file_kind 7 0x3000 0x1000))) =
      [(0x1000, new_vmarea (new_region 0x1000 0x4000) (new_file_kind 7 0 0x3000) vma_ro)]"
    by code_simp
  show ?thesis unfolding a b
    by (simp add: backing_def new_vmarea_def new_file_kind_def new_region_def lo_def file_map_def)
qed

text \<open>\<open>insert_and_merge\<close> ignores the error of the page-table operation that makes room for the
  new area: a fixed \<open>mmap\<close> over the middle of an area reports success, but the parts of the old
  area around the new one are gone from the map.\<close>

theorem mmap_ignores_unmap_error:
  "mmap failing_as file_map (Fixed 0x2000 True) 0x1000 vma_rw Anon =
     (Ok 0x2000, \<lparr>vmas = [(0x2000, new_vmarea (new_region 0x2000 0x1000) Anon vma_rw)], address_space = ()\<rparr>)"
  by code_simp

section \<open>Instances\<close>

theorem find_vma_correct_witness:
  "find_vma file_map 0x1234 = Some (snd (hd (vmas file_map)))"
  using find_vma_correct [OF file_map_ok, of "0x1234" "snd (hd (vmas file_map))"]
  by (simp add: file_map_def new_vmarea_def new_region_def bytes_of_def lo_def hi_def)

lemma file_map_find: "find_vma file_map 0x2000 = Some (snd (hd (vmas file_map)))" by code_simp

theorem mprotect_loses_area_witness:
  "fst (mprotect null_as file_map (new_region 0x2000 0x4000) vma_rw) = Err NoMemory \<and>
   attr_at (vmas (snd (mprotect null_as file_map (new_region 0x2000 0x4000) vma_rw))) 0x1000 = None"
proof -
  have "\<not> contains (vm_region (snd (hd (vmas file_map)))) (new_region 0x2000 0x4000)"
    "region_is_page_aligned (new_region 0x2000 0x4000)" by code_simp+
  moreover have "0x1000 \<in> vbytes (snd (hd (vmas file_map)))"
    by (simp add: file_map_def new_vmarea_def new_region_def bytes_of_def lo_def hi_def)
  ultimately show ?thesis
    using mprotect_loses_area [OF file_map_ok, of "new_region 0x2000 0x4000" _ null_as vma_rw] file_map_find
    by (auto simp: new_region_def start_address_def)
qed

end
