(* ===== verification/PgDescriptor.thy ===== *)
theory PgDescriptor
  imports VMArea
begin

text \<open>
  The arm64 page descriptors (\<open>libkernel/src/arch/arm64/memory/pg_descriptors.rs\<close>). A descriptor
  is its 64-bit word. The source generates the descriptor types with one macro, whose \<open>map\<close>
  parameters are the record \<open>pa_format\<close>. Bit fields are read and written through the
  \<open>tock_registers\<close> crate, which is a parameter: the record \<open>reg_ops\<close>, with the documented
  meaning of its two operations as the locale \<open>bitfields\<close>.
\<close>

section \<open>Registers\<close>

text \<open>A field is its offset and its number of bits; \<open>modify\<close> takes the sum of field values.\<close>

type_synonym field = "nat \<times> nat"

record reg_ops =
  reg_read :: "field \<Rightarrow> u64 \<Rightarrow> u64"
  reg_modify :: "(field \<times> u64) list \<Rightarrow> u64 \<Rightarrow> u64"

definition is_set :: "reg_ops \<Rightarrow> field \<Rightarrow> u64 \<Rightarrow> bool" where
  "is_set R f r \<longleftrightarrow> reg_read R f r \<noteq> 0"

section \<open>Descriptors\<close>

definition is_valid :: "u64 \<Rightarrow> bool" where
  "is_valid d \<longleftrightarrow> d AND 0b11 \<noteq> 0"

definition invalid :: u64 where "invalid = 0"

text \<open>\<open>TableAddr\<close>.\<close>

definition as_raw_parts :: "usize \<Rightarrow> u64" where
  "as_raw_parts a = a AND NOT (push_bit PAGE_SHIFT 1 - 1)"

definition from_raw_parts :: "u64 \<Rightarrow> usize" where
  "from_raw_parts v = v AND NOT (push_bit PAGE_SHIFT 1 - 1)"

text \<open>The three levels that hold table descriptors all use the bits \<open>0b11\<close>.\<close>

definition table_bits :: u64 where "table_bits = 0b11"

definition next_table_address :: "u64 \<Rightarrow> usize option" where
  "next_table_address d =
     (if d AND 0b11 = table_bits then Some (from_raw_parts d) else None)"

definition new_next_table :: "usize \<Rightarrow> u64" where
  "new_next_table a = as_raw_parts a OR table_bits"

datatype memory_type = Device | Normal

record pa_format =
  map_bits :: u64
  tbl_shift :: nat
  oa_len :: nat

definition L1Descriptor :: pa_format where
  "L1Descriptor = \<lparr>map_bits = 0b01, tbl_shift = 30, oa_len = 18\<rparr>"

definition L2Descriptor :: pa_format where
  "L2Descriptor = \<lparr>map_bits = 0b01, tbl_shift = 21, oa_len = 27\<rparr>"

definition L3Descriptor :: pa_format where
  "L3Descriptor = \<lparr>map_bits = 0b11, tbl_shift = 12, oa_len = 36\<rparr>"

definition ATTR_INDEX :: field where "ATTR_INDEX = (2, 3)"
definition AP :: field where "AP = (6, 2)"
definition SH :: field where "SH = (8, 2)"
definition AF :: field where "AF = (10, 1)"
definition PXN :: field where "PXN = (53, 1)"
definition XN :: field where "XN = (54, 1)"
definition COW :: field where "COW = (55, 1)"
definition OUTPUT_ADDR :: "pa_format \<Rightarrow> field" where "OUTPUT_ADDR f = (tbl_shift f, oa_len f)"

definition permissions :: "reg_ops \<Rightarrow> pa_format \<Rightarrow> u64 \<Rightarrow> pte_permissions option outcome" where
  "permissions R f d =
     (if d AND 0b11 \<noteq> map_bits f then Ok None
      else let ap_val = reg_read R AP d in
        and_then
          (if ap_val = 0b00 then Ok (True, False)
           else if ap_val = 0b01 then Ok (True, True)
           else if ap_val = 0b10 then Ok (False, False)
           else if ap_val = 0b11 then Ok (False, True)
           else Panic) (\<lambda>(write, user).
        let xn = is_set R XN d; cow = is_set R COW d; execute = \<not> xn
        in Ok (Some (from_raw_bits True write execute user cow))))"

definition set_permissions :: "reg_ops \<Rightarrow> u64 \<Rightarrow> pte_permissions \<Rightarrow> u64" where
  "set_permissions R d perms =
     (let ap = (case (pp_user perms, pp_write perms) of
                  (False, True) \<Rightarrow> 0b00 | (True, True) \<Rightarrow> 0b01
                | (False, False) \<Rightarrow> 0b10 | (True, False) \<Rightarrow> 0b11);
          r1 = reg_modify R [(AP, ap)] d;
          r2 = (if \<not> pp_execute perms then reg_modify R [(XN, 1), (PXN, 1)] r1
                else reg_modify R [(XN, 0), (PXN, 0)] r1)
      in if pp_cow perms then reg_modify R [(COW, 1)] r2 else reg_modify R [(COW, 0)] r2)"

definition aligned_to :: "nat \<Rightarrow> usize \<Rightarrow> bool" where
  "aligned_to s a \<longleftrightarrow> a AND (push_bit s 1 - 1) = 0"

definition could_map :: "pa_format \<Rightarrow> region \<Rightarrow> usize \<Rightarrow> bool" where
  "could_map f rg va \<longleftrightarrow>
     aligned_to (tbl_shift f) (start_address rg) \<and> aligned_to (tbl_shift f) va \<and>
     rg_size rg \<ge> push_bit (tbl_shift f) 1"

definition new_map_pa ::
  "reg_ops \<Rightarrow> pa_format \<Rightarrow> usize \<Rightarrow> memory_type \<Rightarrow> pte_permissions \<Rightarrow> u64 outcome" where
  "new_map_pa R f page_address memory_type perms =
     (if \<not> aligned_to (tbl_shift f) page_address then Panic
      else let r1 = reg_modify R [(OUTPUT_ADDR f, drop_bit (tbl_shift f) page_address), (AF, 1)] 0;
               r2 = (case memory_type of
                       Device \<Rightarrow> reg_modify R [(SH, 0b00), (ATTR_INDEX, 1)] r1
                     | Normal \<Rightarrow> reg_modify R [(SH, 0b11), (ATTR_INDEX, 0)] r1)
           in Ok (set_permissions R (r2 OR map_bits f) perms))"

definition mapped_address :: "reg_ops \<Rightarrow> pa_format \<Rightarrow> u64 \<Rightarrow> usize option" where
  "mapped_address R f d =
     (if d AND 0b11 = 0b00 then None
      else if d AND 0b11 = 0b10 \<or> d AND 0b11 = map_bits f
      then Some (push_bit (tbl_shift f) (reg_read R (OUTPUT_ADDR f) d))
      else None)"

datatype l3_descriptor_state = L3Invalid | L3Swapped | L3Valid

definition SWAPPED_BIT :: u64 where "SWAPPED_BIT = push_bit 1 1"

definition STATE_MASK :: u64 where "STATE_MASK = 0b11"

definition l3_state :: "u64 \<Rightarrow> l3_descriptor_state outcome" where
  "l3_state d =
     (let b = d AND STATE_MASK in
      if b = 0b00 then Ok L3Invalid else if b = 0b10 then Ok L3Swapped
      else if b = 0b01 then Ok L3Invalid else if b = 0b11 then Ok L3Valid else Panic)"

definition mark_as_swapped :: "u64 \<Rightarrow> u64" where
  "mark_as_swapped d = SWAPPED_BIT OR (d AND NOT STATE_MASK)"

section \<open>Bit fields\<close>

definition in_field :: "field \<Rightarrow> nat \<Rightarrow> bool" where
  "in_field f i \<longleftrightarrow> fst f \<le> i \<and> i < fst f + snd f"

text \<open>The documented meaning of the two register operations: \<open>read\<close> returns the bits of the field,
  \<open>modify\<close> replaces the bits of the fields it is given, which must not overlap, and leaves the
  others.\<close>

locale bitfields =
  fixes R :: reg_ops
  assumes reg_read_bit:
    "fst f + snd f \<le> 64 \<Longrightarrow> bit (reg_read R f r) i \<longleftrightarrow> i < snd f \<and> bit r (fst f + i)"
  and reg_modify_none:
    "\<lbrakk>\<forall>(f, v)\<in>set fvs. \<not> in_field f i\<rbrakk> \<Longrightarrow> bit (reg_modify R fvs r) i \<longleftrightarrow> bit r i"
  and reg_modify_field:
    "\<lbrakk>(f, v) \<in> set fvs; in_field f i; i < 64; \<forall>(g, w)\<in>set fvs. in_field g i \<longrightarrow> (g, w) = (f, v)\<rbrakk> \<Longrightarrow>
     bit (reg_modify R fvs r) i \<longleftrightarrow> bit v (i - fst f)"
begin

lemma reg_modify_bit1:
  "bit (reg_modify R [(f, v)] r) i \<longleftrightarrow>
   (if in_field f i then i < 64 \<and> bit v (i - fst f) else bit r i)"
  using reg_modify_none [of "[(f, v)]" i r] reg_modify_field [of f v "[(f, v)]" i r]
    bit_imp_le_length [of "reg_modify R [(f, v)] r" i]
  by (cases "in_field f i"; cases "i < 64") auto

lemma reg_modify_bit2:
  assumes "\<not> (in_field f i \<and> in_field g i)"
  shows "bit (reg_modify R [(f, v), (g, w)] r) i \<longleftrightarrow>
    (if in_field f i then i < 64 \<and> bit v (i - fst f)
     else if in_field g i then i < 64 \<and> bit w (i - fst g) else bit r i)"
  using reg_modify_none [of "[(f, v), (g, w)]" i r]
    reg_modify_field [of f v "[(f, v), (g, w)]" i r]
    reg_modify_field [of g w "[(f, v), (g, w)]" i r]
    bit_imp_le_length [of "reg_modify R [(f, v), (g, w)] r" i] assms
  by (cases "in_field f i"; cases "in_field g i"; cases "i < 64") auto

end

lemma in_field_simps:
  "in_field AP i \<longleftrightarrow> i = 6 \<or> i = 7" "in_field XN i \<longleftrightarrow> i = 54" "in_field PXN i \<longleftrightarrow> i = 53"
  "in_field COW i \<longleftrightarrow> i = 55" "in_field AF i \<longleftrightarrow> i = 10" "in_field SH i \<longleftrightarrow> i = 8 \<or> i = 9"
  "in_field ATTR_INDEX i \<longleftrightarrow> i = 2 \<or> i = 3 \<or> i = 4"
  "in_field (OUTPUT_ADDR fmt) i \<longleftrightarrow> tbl_shift fmt \<le> i \<and> i < tbl_shift fmt + oa_len fmt"
  by (auto simp: in_field_def AP_def XN_def PXN_def COW_def AF_def SH_def ATTR_INDEX_def
      OUTPUT_ADDR_def)

lemma field_offsets:
  "fst AP = 6" "fst XN = 54" "fst PXN = 53" "fst COW = 55" "fst AF = 10" "fst SH = 8"
  "fst ATTR_INDEX = 2" "fst (OUTPUT_ADDR fmt) = tbl_shift fmt"
  "snd AP = 2" "snd XN = 1" "snd COW = 1" "snd (OUTPUT_ADDR fmt) = oa_len fmt"
  by (simp_all add: AP_def XN_def PXN_def COW_def AF_def SH_def ATTR_INDEX_def OUTPUT_ADDR_def)

definition wf_format :: "pa_format \<Rightarrow> bool" where
  "wf_format f \<longleftrightarrow> f \<in> {L1Descriptor, L2Descriptor, L3Descriptor}"

lemma wf_format_facts:
  assumes "wf_format f"
  shows "12 \<le> tbl_shift f" "tbl_shift f + oa_len f = 48" "map_bits f = 1 \<or> map_bits f = 3"
  using assms by (auto simp: wf_format_def L1Descriptor_def L2Descriptor_def L3Descriptor_def)

lemma bit_low:
  "bit (3 :: u64) i \<longleftrightarrow> i = 0 \<or> i = 1" "bit (2 :: u64) i \<longleftrightarrow> i = 1"
  "bit (1 :: u64) i \<longleftrightarrow> i = 0"
proof -
  have "(3 :: u64) = mask 2" by (simp add: mask_eq_exp_minus_1)
  then show "bit (3 :: u64) i \<longleftrightarrow> i = 0 \<or> i = 1" by (simp only: bit_mask_iff) auto
  show "bit (2 :: u64) i \<longleftrightarrow> i = 1" by (auto simp: bit_2_iff)
qed (auto simp: bit_1_iff)

lemma bit_low_int:
  "bit (3 :: int) i \<longleftrightarrow> i = 0 \<or> i = 1" "bit (2 :: int) i \<longleftrightarrow> i = 1"
proof -
  have "(3 :: int) = mask 2" by (simp add: mask_eq_exp_minus_1)
  then show "bit (3 :: int) i \<longleftrightarrow> i = 0 \<or> i = 1" by (simp only: bit_mask_iff) auto
  show "bit (2 :: int) i \<longleftrightarrow> i = 1" by (auto simp: bit_2_iff)
qed

lemma and_3_cases:
  "d AND 3 = (if bit d 0 then if bit d 1 then 3 else 1 else if bit d 1 then 2 else (0 :: u64))"
  by (rule bit_eqI) (auto simp: bit_and_iff bit_low bit_low_int intro!: gr0I)

context bitfields
begin

lemma set_permissions_bit:
  "bit (set_permissions R d p) i \<longleftrightarrow>
   (if i = 6 then pp_user p else if i = 7 then \<not> pp_write p
    else if i = 53 \<or> i = 54 then \<not> pp_execute p else if i = 55 then pp_cow p else bit d i)"
proof -
  have "in_field XN i \<and> in_field PXN i \<longleftrightarrow> False" by (simp add: in_field_simps)
  then show ?thesis
    by (auto simp: set_permissions_def Let_def reg_modify_bit1 reg_modify_bit2 in_field_simps
        field_offsets bit_low split: bool.splits)
qed

lemma new_map_pa_bit:
  assumes "new_map_pa R f a mt p = Ok d" "wf_format f"
  shows "bit d i \<longleftrightarrow>
   (if i < 2 then bit (map_bits f) i else if i = 2 then mt = Device
    else if i = 6 then pp_user p else if i = 7 then \<not> pp_write p
    else if i = 8 \<or> i = 9 then mt = Normal else if i = 10 then True
    else if i = 53 \<or> i = 54 then \<not> pp_execute p else if i = 55 then pp_cow p
    else tbl_shift f \<le> i \<and> i < 48 \<and> bit a i)"
proof -
  note w = wf_format_facts [OF assms(2)]
  have d1: "in_field (OUTPUT_ADDR f) j \<and> in_field AF j \<longleftrightarrow> False" for j
    using w by (auto simp: in_field_simps)
  have d2: "in_field SH j \<and> in_field ATTR_INDEX j \<longleftrightarrow> False" for j
    by (auto simp: in_field_simps)
  define r1 where "r1 = reg_modify R [(OUTPUT_ADDR f, drop_bit (tbl_shift f) a), (AF, 1)] 0"
  define r2 where "r2 = (case mt of Device \<Rightarrow> reg_modify R [(SH, 0b00), (ATTR_INDEX, 1)] r1
                     | Normal \<Rightarrow> reg_modify R [(SH, 0b11), (ATTR_INDEX, 0)] r1)"
  have d: "d = set_permissions R (r2 OR map_bits f) p"
    unfolding r2_def r1_def using assms(1) by (auto simp: new_map_pa_def Let_def split: if_splits)
  have b1: "bit r1 i \<longleftrightarrow> (if tbl_shift f \<le> i \<and> i < 48 then bit a i else i = 10)"
    unfolding r1_def using w reg_modify_bit2 [of "OUTPUT_ADDR f" i AF]
    by (auto simp: d1 in_field_simps field_offsets bit_drop_bit_eq bit_low bit_low_int)
  have b2: "bit r2 i \<longleftrightarrow> (if i = 8 \<or> i = 9 then mt = Normal
      else if i = 2 \<or> i = 3 \<or> i = 4 then i = 2 \<and> mt = Device else bit r1 i)"
    unfolding r2_def using reg_modify_bit2 [of SH i ATTR_INDEX]
    by (cases mt) (auto simp: d2 in_field_simps field_offsets bit_low bit_low_int)
  have m: "bit (map_bits f) i \<Longrightarrow> i < 2" using w(3) by (auto simp: bit_low bit_low_int)
  consider "i < 2" | "2 \<le> i" "i < 11" | "11 \<le> i" by linarith
  then show ?thesis
  proof cases
    case 1
    then show ?thesis using w b1 b2 by (auto simp: d set_permissions_bit bit_or_iff)
  next
    case 2
    then show ?thesis using w m b1 b2 by (auto simp: d set_permissions_bit bit_or_iff)
  next
    case 3
    then show ?thesis using w m b1 b2 by (auto simp: d set_permissions_bit bit_or_iff)
  qed
qed

lemma is_set_bit:
  assumes "snd f = 1" "fst f < 64"
  shows "is_set R f d \<longleftrightarrow> bit d (fst f)"
proof -
  have "reg_read R f d = of_bool (bit d (fst f))"
    using assms by (intro bit_eqI) (auto simp: reg_read_bit bit_1_iff)
  then show ?thesis by (simp add: is_set_def)
qed

lemma permissions_bits:
  "permissions R f d =
   (if d AND 3 \<noteq> map_bits f then Ok None
    else Ok (Some (from_raw_bits True (\<not> bit d 7) (\<not> bit d 54) (bit d 6) (bit d 55))))"
proof -
  have ap: "reg_read R AP d AND 3 = reg_read R AP d"
    by (rule bit_eqI) (auto simp: bit_and_iff bit_low bit_low_int reg_read_bit field_offsets)
  have b: "bit (reg_read R AP d) 0 \<longleftrightarrow> bit d 6" "bit (reg_read R AP d) 1 \<longleftrightarrow> bit d 7"
    by (simp_all add: reg_read_bit field_offsets)
  have s: "is_set R XN d \<longleftrightarrow> bit d 54" "is_set R COW d \<longleftrightarrow> bit d 55"
    using is_set_bit [of XN d] is_set_bit [of COW d] by (simp_all add: field_offsets)
  have v: "reg_read R AP d =
      (if bit d 6 then if bit d 7 then 3 else 1 else if bit d 7 then 2 else 0)"
    using and_3_cases [of "reg_read R AP d"] unfolding ap b .
  show ?thesis
    unfolding permissions_def Let_def s v
    by (cases "bit d 6"; cases "bit d 7") (simp_all add: from_raw_bits_def)
qed

lemma mapped_address_bits:
  assumes "wf_format f"
  shows "mapped_address R f d =
    (if d AND 3 = 2 \<or> d AND 3 = map_bits f
     then Some (d AND NOT (mask (tbl_shift f)) AND mask 48) else None)"
proof -
  note w = wf_format_facts [OF assms]
  have "push_bit (tbl_shift f) (reg_read R (OUTPUT_ADDR f) d) =
    d AND NOT (mask (tbl_shift f)) AND mask 48"
    using w(1,2) by (intro bit_word_eqI)
      (auto simp: bit_push_bit_iff bit_and_iff bit_not_iff bit_mask_iff reg_read_bit field_offsets)
  then show ?thesis using w(3) by (auto simp: mapped_address_def)
qed

lemma new_map_pa_Ok:
  assumes f: "wf_format f" and a: "aligned_to (tbl_shift f) a" "unat a < 2 ^ 48"
  shows "\<exists>d. new_map_pa R f a mt p = Ok d \<and> d AND 3 = map_bits f \<and>
    mapped_address R f d = Some a \<and> permissions R f d = Ok (Some (p\<lparr>pp_read := True\<rparr>))"
proof -
  note w = wf_format_facts [OF f]
  obtain d where d: "new_map_pa R f a mt p = Ok d" using a(1) by (simp add: new_map_pa_def Let_def)
  note b = new_map_pa_bit [OF d f]
  have low: "d AND 3 = map_bits f"
    using w(3) by (auto simp: and_3_cases b bit_low)
  have hi: "a AND mask 48 = a"
    using a(2) by (intro word_unat_eq_iff [THEN iffD2]) (simp add: unat_and_mask)
  have "d AND NOT (mask (tbl_shift f)) AND mask 48 = a"
  proof (rule bit_word_eqI)
    fix i assume "i < LENGTH(64)"
    have h: "bit a i \<Longrightarrow> i < 48" using hi by (metis bit_and_iff bit_mask_iff)
    have l: "\<not> bit (a AND mask (tbl_shift f)) i"
      using a(1) by (simp add: aligned_to_def mask_eq_exp_minus_1)
    show "bit (d AND NOT (mask (tbl_shift f)) AND mask 48) i \<longleftrightarrow> bit a i"
    proof (cases "tbl_shift f \<le> i \<and> i < 48")
      case True
      then have "bit d i \<longleftrightarrow> bit a i" unfolding b [of i] using w(1) by simp
      then show ?thesis using True by (simp add: bit_and_iff bit_not_iff bit_mask_iff)
    next
      case False
      then show ?thesis using h l w(2) by (auto simp: bit_and_iff bit_not_iff bit_mask_iff)
    qed
  qed
  moreover have "permissions R f d = Ok (Some (p\<lparr>pp_read := True\<rparr>))"
    by (simp add: permissions_bits low b from_raw_bits_def)
  ultimately show ?thesis using d low by (simp add: mapped_address_bits [OF f])
qed

lemma set_permissions_low: "set_permissions R d p AND 3 = d AND 3"
  by (simp add: and_3_cases set_permissions_bit)

lemma mapped_address_set_permissions:
  assumes "wf_format f"
  shows "mapped_address R f (set_permissions R d p) = mapped_address R f d"
proof -
  have "set_permissions R d p AND NOT (mask (tbl_shift f)) AND mask 48 =
        d AND NOT (mask (tbl_shift f)) AND mask 48"
    using wf_format_facts [OF assms]
    by (intro bit_word_eqI) (auto simp: bit_and_iff bit_not_iff bit_mask_iff set_permissions_bit)
  then show ?thesis by (simp add: mapped_address_bits [OF assms] set_permissions_low)
qed

lemma permissions_set_permissions:
  "d AND 3 = map_bits f \<Longrightarrow>
   permissions R f (set_permissions R d p) = Ok (Some (p\<lparr>pp_read := True\<rparr>))"
  by (simp add: permissions_bits set_permissions_low set_permissions_bit from_raw_bits_def)

end

lemma next_table_address_new:
  assumes "is_page_aligned a"
  shows "next_table_address (new_next_table a) = Some a" "is_valid (new_next_table a)"
proof -
  have m: "push_bit PAGE_SHIFT 1 - 1 = (mask 12 :: u64)"
    by (simp add: PAGE_SHIFT_def mask_eq_exp_minus_1)
  have z: "\<not> bit a i" if "i < 12" for i
    using assms that order.strict_trans [of i 12 64] by (fastforce simp: is_page_aligned_def PAGE_MASK_mask bit_eq_iff bit_and_iff bit_mask_iff)
  have l: "new_next_table a AND 3 = 3"
    by (auto simp: new_next_table_def table_bits_def and_3_cases bit_or_iff)
  have "from_raw_parts (new_next_table a) = a"
    unfolding from_raw_parts_def new_next_table_def as_raw_parts_def m table_bits_def
    using z by (intro bit_word_eqI) (auto simp: bit_and_iff bit_or_iff bit_not_iff bit_mask_iff bit_low bit_low_int)
  with l show "next_table_address (new_next_table a) = Some a" "is_valid (new_next_table a)"
    by (simp_all add: next_table_address_def is_valid_def table_bits_def)
qed

lemma next_table_aligned: "next_table_address d = Some a \<Longrightarrow> is_page_aligned a"
proof -
  have "from_raw_parts d = page_aligned d"
    by (simp add: from_raw_parts_def page_aligned_def PAGE_SHIFT_def PAGE_MASK_def PAGE_SIZE_def)
  moreover have "is_page_aligned (page_aligned d)"
    by (simp add: is_page_aligned_iff unat_page_aligned)
  ultimately show "next_table_address d = Some a \<Longrightarrow> is_page_aligned a"
    by (simp add: next_table_address_def split: if_splits)
qed

lemma next_table_valid: "next_table_address d = Some a \<Longrightarrow> is_valid d"
  by (auto simp: next_table_address_def is_valid_def table_bits_def split: if_splits)

section \<open>The documented registers\<close>

definition field_mask :: "field \<Rightarrow> u64" where
  "field_mask f = push_bit (fst f) (mask (snd f))"

definition tock_registers :: reg_ops where
  "tock_registers =
     \<lparr>reg_read = (\<lambda>f r. take_bit (snd f) (drop_bit (fst f) r)),
      reg_modify = (\<lambda>fvs r.
        (r AND NOT (foldr (\<lambda>(f, v) m. field_mask f OR m) fvs 0)) OR
        foldr (\<lambda>(f, v) m. push_bit (fst f) (take_bit (snd f) v) OR m) fvs 0)\<rparr>"

lemma bit_foldr_mask:
  "bit (foldr (\<lambda>(f, v) m. field_mask f OR m) fvs 0) i \<longleftrightarrow>
   i < 64 \<and> (\<exists>(f, v)\<in>set fvs. in_field f i)"
  by (induction fvs)
    (auto simp: bit_or_iff field_mask_def bit_push_bit_iff bit_mask_iff in_field_def)

lemma bit_foldr_value:
  "bit (foldr (\<lambda>(f, v) m. push_bit (fst f) (take_bit (snd f) v) OR m) fvs (0 :: u64)) i \<longleftrightarrow>
   i < 64 \<and> (\<exists>(f, v)\<in>set fvs. in_field f i \<and> bit v (i - fst f))"
  by (induction fvs)
    (auto simp: bit_or_iff field_mask_def bit_push_bit_iff bit_take_bit_iff in_field_def)

interpretation tock: bitfields tock_registers
proof
  fix f r i
  show "fst f + snd f \<le> 64 \<Longrightarrow>
    bit (reg_read tock_registers f r) i \<longleftrightarrow> i < snd f \<and> bit r (fst f + i)"
    by (auto simp: tock_registers_def bit_take_bit_iff bit_drop_bit_eq)
next
  fix fvs :: "(field \<times> u64) list" and r i
  assume "\<forall>(f, v)\<in>set fvs. \<not> in_field f i"
  then show "bit (reg_modify tock_registers fvs r) i \<longleftrightarrow> bit r i"
    using bit_imp_le_length [of r i]
    by (auto simp: tock_registers_def bit_or_iff bit_and_iff bit_not_iff bit_foldr_mask bit_foldr_value)
next
  fix f v and fvs :: "(field \<times> u64) list" and r i
  assume "(f, v) \<in> set fvs" "in_field f i" "i < 64"
    "\<forall>(g, w)\<in>set fvs. in_field g i \<longrightarrow> (g, w) = (f, v)"
  then show "bit (reg_modify tock_registers fvs r) i \<longleftrightarrow> bit v (i - fst f)"
    by (auto simp: tock_registers_def bit_or_iff bit_and_iff bit_not_iff bit_foldr_mask bit_foldr_value)
qed

section \<open>Descriptors read back what was written\<close>

text \<open>C26. A block or page descriptor built for an aligned 48-bit physical address is valid, reads
  back exactly that address, and reads back the requested permissions (a valid descriptor is always
  readable). Changing its permissions later keeps the address and reads back the new permissions.\<close>

theorem new_map_pa_roundtrip:
  assumes "bitfields R" "wf_format f" "aligned_to (tbl_shift f) a" "unat a < 2 ^ 48"
  shows "\<exists>d. new_map_pa R f a mt p = Ok d \<and> is_valid d \<and> mapped_address R f d = Some a \<and>
    permissions R f d = Ok (Some (p\<lparr>pp_read := True\<rparr>)) \<and>
    mapped_address R f (set_permissions R d q) = Some a \<and>
    permissions R f (set_permissions R d q) = Ok (Some (q\<lparr>pp_read := True\<rparr>))"
proof -
  obtain d where d: "new_map_pa R f a mt p = Ok d" "d AND 3 = map_bits f"
    "mapped_address R f d = Some a" "permissions R f d = Ok (Some (p\<lparr>pp_read := True\<rparr>))"
    using bitfields.new_map_pa_Ok [OF assms] by blast
  then show ?thesis
    using bitfields.mapped_address_set_permissions [OF assms(1,2), of d q]
      bitfields.permissions_set_permissions [OF assms(1) d(2), of q] wf_format_facts(3) [OF assms(2)]
    by (auto simp: is_valid_def)
qed

theorem new_map_pa_roundtrip_witness:
  "\<exists>d. new_map_pa tock_registers L2Descriptor 0x40200000 Normal (pte_rw True) = Ok d \<and> is_valid d \<and>
    mapped_address tock_registers L2Descriptor d = Some 0x40200000 \<and>
    permissions tock_registers L2Descriptor d = Ok (Some (pte_rw True)) \<and>
    mapped_address tock_registers L2Descriptor (set_permissions tock_registers d (pte_ro True)) =
      Some 0x40200000 \<and>
    permissions tock_registers L2Descriptor (set_permissions tock_registers d (pte_ro True)) =
      Ok (Some (pte_ro True))"
proof -
  have "wf_format L2Descriptor" by (simp add: wf_format_def)
  moreover have "aligned_to (tbl_shift L2Descriptor) 0x40200000"
    by (simp add: aligned_to_def L2Descriptor_def)
  ultimately show ?thesis
    using new_map_pa_roundtrip [OF tock.bitfields_axioms, of L2Descriptor "0x40200000" Normal
      "pte_rw True" "pte_ro True"]
    by (simp add: pte_rw_def pte_ro_def)
qed

end
