(* ===== verification/PageTable.thy ===== *)
theory PageTable
  imports PgDescriptor FrameAlloc
begin

text \<open>
  The arm64 page tables: the table hierarchy and \<open>map_range\<close>
  (\<open>libkernel/src/arch/arm64/memory/pg_tables.rs\<close>), the walker (\<open>pg_walk.rs\<close>) and the process
  address space built on them (\<open>src/arch/arm64/memory/address_space.rs\<close>).

  Page tables live in memory: \<open>pt_mem\<close> maps the physical address of a 64-bit slot to its value.
  The kernel reaches them through the linear map (\<open>PageOffsetPgTableMapper\<close>), whose
  \<open>with_page_table\<close> always succeeds, so a table is accessed at its physical address. TLB
  invalidation has no effect on this state. The page allocator is an argument of \<open>map_range\<close>,
  as in the source; the address space passes the frame allocator.
\<close>

section \<open>Tables\<close>

definition DESCRIPTORS_PER_PAGE :: usize where "DESCRIPTORS_PER_PAGE = PAGE_SIZE div 8"

definition LEVEL_MASK :: usize where "LEVEL_MASK = DESCRIPTORS_PER_PAGE - 1"

datatype level = L0 | L1 | L2 | L3

primrec SHIFT :: "level \<Rightarrow> nat" where
  "SHIFT L0 = 39" | "SHIFT L1 = 30" | "SHIFT L2 = 21" | "SHIFT L3 = 12"

record 'al pt_state =
  pt_mem :: "usize \<Rightarrow> u64"
  pt_alloc :: 'al

definition pg_index :: "level \<Rightarrow> usize \<Rightarrow> usize" where
  "pg_index l va = drop_bit (SHIFT l) va AND LEVEL_MASK"

definition get_desc :: "level \<Rightarrow> usize \<Rightarrow> usize \<Rightarrow> (usize \<Rightarrow> u64) \<Rightarrow> u64" where
  "get_desc l base va m = m (add_objs 8 base (pg_index l va))"

definition set_desc :: "level \<Rightarrow> usize \<Rightarrow> usize \<Rightarrow> u64 \<Rightarrow> (usize \<Rightarrow> u64) \<Rightarrow> (usize \<Rightarrow> u64)" where
  "set_desc l base va d m = m(add_objs 8 base (pg_index l va) := d)"

text \<open>\<open>write_bytes\<close> of a page of zeros.\<close>

definition zero_page :: "usize \<Rightarrow> (usize \<Rightarrow> u64) \<Rightarrow> (usize \<Rightarrow> u64)" where
  "zero_page a m = (\<lambda>x. if x - a < PAGE_SIZE then 0 else m x)"

definition next_table_pa :: "level \<Rightarrow> usize \<Rightarrow> usize \<Rightarrow> (usize \<Rightarrow> u64) \<Rightarrow> usize option" where
  "next_table_pa l base va m = next_table_address (get_desc l base va m)"

section \<open>Mapping a range\<close>

record map_attributes =
  ma_phys :: region
  ma_virt :: region
  ma_mem_type :: memory_type
  ma_perms :: pte_permissions

definition map_at_level ::
  "('al pt_state \<Rightarrow> usize outcome \<times> 'al pt_state) \<Rightarrow> level \<Rightarrow> usize \<Rightarrow> usize \<Rightarrow> 'al pt_state \<Rightarrow>
   usize outcome \<times> 'al pt_state" where
  "map_at_level allocate l table va s =
     (let desc = get_desc l table va (pt_mem s) in
      case next_table_address desc of
        Some next_pa \<Rightarrow> (Ok next_pa, s)
      | None \<Rightarrow>
          if is_valid desc then (Err (MappingError AlreadyMapped), s)
          else st_then (allocate s) (\<lambda>new_pa s1.
            let s2 = s1\<lparr>pt_mem := zero_page new_pa (pt_mem s1)\<rparr>;
                s3 = s2\<lparr>pt_mem := set_desc l table va (new_next_table new_pa) (pt_mem s2)\<rparr>
            in (Ok new_pa, s3)))"

definition try_map_pa ::
  "reg_ops \<Rightarrow> level \<Rightarrow> pa_format \<Rightarrow> usize \<Rightarrow> usize \<Rightarrow> region \<Rightarrow> map_attributes \<Rightarrow> 'al pt_state \<Rightarrow>
   usize option outcome \<times> 'al pt_state" where
  "try_map_pa R l f table va phys_region attrs s =
     (if could_map f phys_region va then
        if is_valid (get_desc l table va (pt_mem s)) then (Err (MappingError AlreadyMapped), s)
        else st_then (new_map_pa R f (start_address phys_region) (ma_mem_type attrs) (ma_perms attrs), s)
          (\<lambda>d s. (Ok (Some (push_bit (tbl_shift f - 12) 1)),
                  s\<lparr>pt_mem := set_desc l table va d (pt_mem s)\<rparr>))
      else (Ok None, s))"

text \<open>One iteration of the loop of \<open>map_range\<close>: the number of pages it maps.\<close>

definition map_step ::
  "('al pt_state \<Rightarrow> usize outcome \<times> 'al pt_state) \<Rightarrow> reg_ops \<Rightarrow> usize \<Rightarrow> map_attributes \<Rightarrow>
   'al pt_state \<Rightarrow> usize outcome \<times> 'al pt_state" where
  "map_step allocate R l0_table attrs s =
     (let va = start_address (ma_virt attrs) in
      st_then (map_at_level allocate L0 l0_table va s) (\<lambda>l1 s.
      st_then (try_map_pa R L1 L1Descriptor l1 va (ma_phys attrs) attrs s) (\<lambda>r s.
      case r of Some pgs_mapped \<Rightarrow> (Ok pgs_mapped, s) | None \<Rightarrow>
      st_then (map_at_level allocate L1 l1 va s) (\<lambda>l2 s.
      st_then (try_map_pa R L2 L2Descriptor l2 va (ma_phys attrs) attrs s) (\<lambda>r s.
      case r of Some pgs_mapped \<Rightarrow> (Ok pgs_mapped, s) | None \<Rightarrow>
      st_then (map_at_level allocate L2 l2 va s) (\<lambda>l3 s.
      st_then (try_map_pa R L3 L3Descriptor l3 va (ma_phys attrs) attrs s) (\<lambda>_ s.
      (Ok 1, s))))))))"

definition advance :: "usize \<Rightarrow> map_attributes \<Rightarrow> map_attributes" where
  "advance n attrs = attrs\<lparr>ma_virt := region_add_pages (ma_virt attrs) n,
                           ma_phys := region_add_pages (ma_phys attrs) n\<rparr>"

lemma try_map_pa_Some:
  "try_map_pa R l f table va rg attrs s = (Ok (Some n), s') \<Longrightarrow> n = push_bit (tbl_shift f - 12) 1"
  by (auto simp: try_map_pa_def st_then_def split: if_splits outcome.splits)

lemma map_step_pages:
  assumes "map_step allocate R l0 attrs s = (Ok n, s')"
  shows "n \<in> {2 ^ 18, 2 ^ 9, 1}"
  using assms
  by (auto simp: map_step_def Let_def st_then_def L1Descriptor_def L2Descriptor_def
      dest!: try_map_pa_Some split: outcome.splits option.splits prod.splits)

function map_loop ::
  "('al pt_state \<Rightarrow> usize outcome \<times> 'al pt_state) \<Rightarrow> reg_ops \<Rightarrow> usize \<Rightarrow> map_attributes \<Rightarrow>
   'al pt_state \<Rightarrow> unit outcome \<times> 'al pt_state" where
  "map_loop allocate R l0_table attrs s =
     (if rg_size (ma_virt attrs) > 0
      then st_then (map_step allocate R l0_table attrs s) (\<lambda>n s.
             map_loop allocate R l0_table (advance n attrs) s)
      else (Ok (), s))"
  by pat_completeness auto

termination
proof (relation "measure (\<lambda>(_, _, _, attrs, _). unat (rg_size (ma_virt attrs)))")
  fix allocate :: "'al pt_state \<Rightarrow> usize outcome \<times> 'al pt_state"
  fix R l0 and attrs and s s' :: "'al pt_state" and n
  assume "0 < rg_size (ma_virt attrs)" "map_step allocate R l0 attrs s = (Ok n, s')"
  then have "0 < unat (push_bit 12 n)" "0 < unat (rg_size (ma_virt attrs))"
    using map_step_pages [of allocate R l0 attrs s n s'] by (auto simp: word_less_nat_alt)
  then show "((allocate, R, l0, advance n attrs, s'), (allocate, R, l0, attrs, s))
      \<in> measure (\<lambda>(_, _, _, attrs, _). unat (rg_size (ma_virt attrs)))"
    by (simp add: advance_def region_add_pages_def Let_def PAGE_SHIFT_def unat_saturating_sub)
qed simp

declare map_loop.simps [simp del]

definition map_range ::
  "('al pt_state \<Rightarrow> usize outcome \<times> 'al pt_state) \<Rightarrow> reg_ops \<Rightarrow> usize \<Rightarrow> map_attributes \<Rightarrow>
   'al pt_state \<Rightarrow> unit outcome \<times> 'al pt_state" where
  "map_range allocate R l0_table attrs s =
     (if rg_size (ma_phys attrs) \<noteq> rg_size (ma_virt attrs) then (Err (MappingError SizeMismatch), s)
      else if rg_size (ma_phys attrs) < PAGE_SIZE then (Err (MappingError TooSmall), s)
      else if \<not> region_is_page_aligned (ma_phys attrs) then (Err (MappingError PhysNotAligned), s)
      else if \<not> region_is_page_aligned (ma_virt attrs) then (Err (MappingError VirtNotAligned), s)
      else map_loop allocate R l0_table attrs s)"

section \<open>Walking and modifying\<close>

text \<open>The modifier is a closure: it may change the variables it captures, the second component of
  the state, and the page tables of another address space.\<close>

type_synonym ('al, 'e) walk_state = "'al pt_state \<times> 'e"

type_synonym ('al, 'e) modifier =
  "usize \<Rightarrow> u64 \<Rightarrow> ('al, 'e) walk_state \<Rightarrow> u64 outcome \<times> ('al, 'e) walk_state"

definition modify_page ::
  "('al, 'e) modifier \<Rightarrow> usize \<Rightarrow> usize \<Rightarrow> ('al, 'e) walk_state \<Rightarrow> unit outcome \<times> ('al, 'e) walk_state" where
  "modify_page modifier table va ws =
     (let desc = get_desc L3 table va (pt_mem (fst ws)) in
      if is_valid desc
      then st_then (modifier va desc ws) (\<lambda>d (s, e).
             (Ok (), (s\<lparr>pt_mem := set_desc L3 table va d (pt_mem s)\<rparr>, e)))
      else (Ok (), ws))"

definition walk_L3 ::
  "('al, 'e) modifier \<Rightarrow> usize \<Rightarrow> region \<Rightarrow> ('al, 'e) walk_state \<Rightarrow> unit outcome \<times> ('al, 'e) walk_state" where
  "walk_L3 modifier table_pa rg ws = st_iter (modify_page modifier table_pa) (iter_pages rg) ws"

definition walk_entry ::
  "level \<Rightarrow> (usize \<Rightarrow> region \<Rightarrow> ('al, 'e) walk_state \<Rightarrow> unit outcome \<times> ('al, 'e) walk_state) \<Rightarrow>
   usize \<Rightarrow> region \<Rightarrow> usize \<Rightarrow> usize \<Rightarrow> ('al, 'e) walk_state \<Rightarrow> unit outcome \<times> ('al, 'e) walk_state" where
  "walk_entry l walk_next table_pa rg table_base_va idx ws =
     (let table_coverage = push_bit (SHIFT l) 1;
          entry_va = add_bytes table_base_va (idx * table_coverage);
          desc = get_desc l table_pa entry_va (pt_mem (fst ws))
      in case next_table_address desc of
           Some next_desc \<Rightarrow>
             st_then (intersection (new_region entry_va table_coverage) rg, ws) (\<lambda>sub_region ws.
               case sub_region of
                 Some sub_region \<Rightarrow> walk_next next_desc sub_region ws
               | None \<Rightarrow> (Panic, ws))
         | None \<Rightarrow>
             if is_valid desc then (Err (MappingError NotL3Mapped), ws)
             else (Ok (), ws))"

definition walk_table ::
  "level \<Rightarrow> (usize \<Rightarrow> region \<Rightarrow> ('al, 'e) walk_state \<Rightarrow> unit outcome \<times> ('al, 'e) walk_state) \<Rightarrow>
   usize \<Rightarrow> region \<Rightarrow> ('al, 'e) walk_state \<Rightarrow> unit outcome \<times> ('al, 'e) walk_state" where
  "walk_table l walk_next table_pa rg ws =
     (let start_idx = pg_index l (start_address rg);
          end_idx = pg_index l (end_address_inclusive rg)
      in st_then (align (start_address rg) (push_bit (SHIFT l + 9) 1), ws) (\<lambda>table_base_va ws.
           st_iter (walk_entry l walk_next table_pa rg table_base_va)
             (map of_nat [unat start_idx..<Suc (unat end_idx)]) ws))"

definition walk ::
  "('al, 'e) modifier \<Rightarrow> usize \<Rightarrow> region \<Rightarrow> ('al, 'e) walk_state \<Rightarrow> unit outcome \<times> ('al, 'e) walk_state" where
  "walk modifier =
     walk_table L0 (walk_table L1 (walk_table L2 (walk_L3 modifier)))"

definition walk_and_modify_region ::
  "('al, 'e) modifier \<Rightarrow> usize \<Rightarrow> region \<Rightarrow> ('al, 'e) walk_state \<Rightarrow> unit outcome \<times> ('al, 'e) walk_state" where
  "walk_and_modify_region modifier l0_table rg ws =
     (if \<not> region_is_page_aligned rg then (Err (MappingError VirtNotAligned), ws)
      else if rg_size rg = 0 then (Ok (), ws)
      else walk modifier l0_table rg ws)"

definition get_pte :: "usize \<Rightarrow> usize \<Rightarrow> 'al pt_state \<Rightarrow> u64 option outcome \<times> 'al pt_state" where
  "get_pte l0_table va s =
     (case walk_and_modify_region (\<lambda>_ pte (s, descriptor). (Ok pte, (s, Some pte))) l0_table
             (new_region (page_aligned va) PAGE_SIZE) (s, None) of
        (r, (s', descriptor)) \<Rightarrow> (and_then r (\<lambda>_. Ok descriptor), s'))"

section \<open>The process address space\<close>

text \<open>\<open>ClaimedPage::alloc_zeroed\<close> followed by \<open>leak\<close>: the page's frame.\<close>

definition claim_zeroed ::
  "'l list_ops \<Rightarrow> 'l frame_allocator pt_state \<Rightarrow> usize outcome \<times> 'l frame_allocator pt_state" where
  "claim_zeroed L s =
     (case alloc_frames L (pt_alloc s) 0 of
        (r, fa) \<Rightarrow> st_then (r, s\<lparr>pt_alloc := fa\<rparr>) (\<lambda>rg s.
          (Ok (to_pfn (start_address rg)), s\<lparr>pt_mem := zero_page (start_address rg) (pt_mem s)\<rparr>)))"

definition allocate_page_table ::
  "'l list_ops \<Rightarrow> 'l frame_allocator pt_state \<Rightarrow> usize outcome \<times> 'l frame_allocator pt_state" where
  "allocate_page_table L s = st_then (claim_zeroed L s) (\<lambda>pfn s. (Ok (pa pfn), s))"

text \<open>An address space is the physical address of its \<open>L0\<close> table.\<close>

record arm64_process_address_space =
  l0_table :: usize

definition new_address_space ::
  "'l list_ops \<Rightarrow> 'l frame_allocator pt_state \<Rightarrow>
   arm64_process_address_space outcome \<times> 'l frame_allocator pt_state" where
  "new_address_space L s =
     st_then (allocate_page_table L s) (\<lambda>t s. (Ok \<lparr>l0_table = t\<rparr>, s))"

definition map_page ::
  "'l list_ops \<Rightarrow> reg_ops \<Rightarrow> arm64_process_address_space \<Rightarrow> usize \<Rightarrow> usize \<Rightarrow> pte_permissions \<Rightarrow>
   'l frame_allocator pt_state \<Rightarrow> unit outcome \<times> 'l frame_allocator pt_state" where
  "map_page L R as page va perms s =
     map_range (allocate_page_table L) R (l0_table as)
       \<lparr>ma_phys = as_phys_range page, ma_virt = new_region va PAGE_SIZE,
        ma_mem_type = Normal, ma_perms = perms\<rparr> s"

definition unmap ::
  "arm64_process_address_space \<Rightarrow> usize \<Rightarrow> 'al pt_state \<Rightarrow> usize outcome \<times> 'al pt_state" where
  "unmap as va s = (Panic, s)"

definition protect_range ::
  "reg_ops \<Rightarrow> arm64_process_address_space \<Rightarrow> region \<Rightarrow> pte_permissions \<Rightarrow> 'al pt_state \<Rightarrow>
   unit outcome \<times> 'al pt_state" where
  "protect_range R as va_range perms s =
     map_prod id fst (walk_and_modify_region
       (\<lambda>_ desc ws. (Ok (if \<not> pp_execute perms \<and> \<not> pp_read perms \<and> \<not> pp_write perms
                        then mark_as_swapped desc
                        else set_permissions R desc perms), ws))
       (l0_table as) va_range (s, ()))"

definition unmap_range ::
  "reg_ops \<Rightarrow> arm64_process_address_space \<Rightarrow> region \<Rightarrow> 'al pt_state \<Rightarrow>
   usize list outcome \<times> 'al pt_state" where
  "unmap_range R as va_range s =
     (case walk_and_modify_region
             (\<lambda>_ desc (s, claimed_pages).
                (Ok invalid,
                 (s, case mapped_address R L3Descriptor desc of
                       Some a \<Rightarrow> claimed_pages @ [to_pfn a] | None \<Rightarrow> claimed_pages)))
             (l0_table as) va_range (s, []) of
        (r, (s', claimed_pages)) \<Rightarrow> (and_then r (\<lambda>_. Ok claimed_pages), s'))"

definition remap ::
  "reg_ops \<Rightarrow> arm64_process_address_space \<Rightarrow> usize \<Rightarrow> usize \<Rightarrow> pte_permissions \<Rightarrow> 'al pt_state \<Rightarrow>
   usize outcome \<times> 'al pt_state" where
  "remap R as va new_page perms s =
     (case walk_and_modify_region
             (\<lambda>_ pte (s, old_pte). (new_map_pa R L3Descriptor (pa new_page) Normal perms, (s, Some pte)))
             (l0_table as) (page_region va) (s, None) of
        (r, (s', old_pte)) \<Rightarrow>
          (and_then r (\<lambda>_.
             ok_or (map_option to_pfn (Option.bind old_pte (mapped_address R L3Descriptor)))
               (MappingError NotL3Mapped)), s'))"

record page_info =
  pi_pfn :: usize
  pi_perms :: pte_permissions

definition translate ::
  "reg_ops \<Rightarrow> arm64_process_address_space \<Rightarrow> usize \<Rightarrow> 'al pt_state \<Rightarrow>
   page_info option outcome \<times> 'al pt_state" where
  "translate R as va s =
     (case get_pte (l0_table as) (page_aligned va) s of
        (Ok None, s) \<Rightarrow> (Ok None, s)
      | (Ok (Some pte), s) \<Rightarrow>
          (case mapped_address R L3Descriptor pte of
             None \<Rightarrow> Ok None
           | Some a \<Rightarrow> and_then (permissions R L3Descriptor pte) (\<lambda>p.
               Ok (map_option (\<lambda>perms. \<lparr>pi_pfn = to_pfn a, pi_perms = perms\<rparr>) p)), s)
      | (Diverge, s) \<Rightarrow> (Diverge, s)
      | (_, s) \<Rightarrow> (Panic, s))"

definition clone_page ::
  "'l list_ops \<Rightarrow> reg_ops \<Rightarrow> arm64_process_address_space \<Rightarrow> pte_permissions \<Rightarrow>
   ('l frame_allocator, unit) modifier" where
  "clone_page L R other new_perms va pgd ws =
     (let s = fst ws in
      case mapped_address R L3Descriptor pgd of
        Some addr \<Rightarrow>
          st_then (clone_allocation (pt_alloc s) (new_region addr PAGE_SIZE), ws) (\<lambda>fa ws.
            case map_range (allocate_page_table L) R (l0_table other)
                   \<lparr>ma_phys = new_region addr PAGE_SIZE, ma_virt = new_region va PAGE_SIZE,
                    ma_mem_type = Normal, ma_perms = new_perms\<rparr> (s\<lparr>pt_alloc := fa\<rparr>) of
              (Ok _, s) \<Rightarrow> (Ok (set_permissions R pgd new_perms), (s, ()))
            | (Diverge, s) \<Rightarrow> (Diverge, (s, ()))
            | (_, s) \<Rightarrow> (Panic, (s, ())))
      | None \<Rightarrow> (Ok pgd, ws))"

definition protect_and_clone_region ::
  "'l list_ops \<Rightarrow> reg_ops \<Rightarrow> arm64_process_address_space \<Rightarrow> region \<Rightarrow> arm64_process_address_space \<Rightarrow>
   pte_permissions \<Rightarrow> 'l frame_allocator pt_state \<Rightarrow> unit outcome \<times> 'l frame_allocator pt_state" where
  "protect_and_clone_region L R as rg other new_perms s =
     map_prod id fst (walk_and_modify_region (clone_page L R other new_perms) (l0_table as) rg (s, ()))"

end
