(* ===== verification/PageTableProps.thy ===== *)
theory PageTableProps
  imports PageTable FrameAllocProps
begin

text \<open>
  Properties of the page tables. \<open>pt_tree\<close> is the shape of the tables in memory, \<open>leaf\<close> the slot at
  which the walk for an address stops, \<open>view\<close> the translation the tables stand for. The allocator
  that \<open>map_range\<close> uses is the locale \<open>pt_allocator\<close>; the frame allocator is an instance.
\<close>

section \<open>Slots\<close>

abbreviation ix :: "level \<Rightarrow> usize \<Rightarrow> nat" where "ix l va \<equiv> unat (pg_index l va)"

definition slot :: "usize \<Rightarrow> nat \<Rightarrow> usize" where "slot t i = t + 8 * of_nat i"

lemma LEVEL_MASK_mask: "LEVEL_MASK = mask 9"
  by (simp add: LEVEL_MASK_def DESCRIPTORS_PER_PAGE_def PAGE_SIZE_def mask_eq_exp_minus_1)

lemma unat_pg_index: "ix l va = unat va div 2 ^ SHIFT l mod 512"
  by (cases l)
    (simp_all add: pg_index_def LEVEL_MASK_mask unat_and_mask drop_bit_eq_div unat_div_distrib)

lemma ix_less [simp]: "ix l va < 512"
  by (simp add: unat_pg_index)

lemma aligned_bound:
  assumes "is_page_aligned t"
  shows "unat t + 4096 \<le> 2 ^ 64"
proof -
  obtain q where q: "unat t = 4096 * q" using assms by (auto simp: is_page_aligned_iff dvd_def)
  have "unat t < 2 ^ 64" by simp
  then show ?thesis unfolding q by simp
qed

lemma unat_slot:
  assumes "is_page_aligned t" "i < 512"
  shows "unat (slot t i) = unat t + 8 * i"
proof -
  have "unat (8 * of_nat i :: usize) = 8 * i"
    using assms(2) by (simp add: unat_word_ariths unat_of_nat)
  then show ?thesis
    using aligned_bound [OF assms(1)] assms(2) by (simp add: slot_def unat_add_usize)
qed

lemma slot_eq_iff:
  assumes "is_page_aligned t" "is_page_aligned u" "i < 512" "j < 512"
  shows "slot t i = slot u j \<longleftrightarrow> t = u \<and> i = j"
proof
  assume "slot t i = slot u j"
  then have e: "unat t + 8 * i = unat u + 8 * j" using assms by (metis unat_slot)
  obtain p q where pq: "unat t = 4096 * p" "unat u = 4096 * q"
    using assms by (auto simp: is_page_aligned_iff dvd_def)
  have "p = q" using e assms(3,4) unfolding pq by linarith
  moreover from this have "i = j" using e unfolding pq by linarith
  ultimately show "t = u \<and> i = j" using pq by (simp add: word_unat_eq_iff)
qed simp

lemma get_desc_slot: "get_desc l t va m = m (slot t (ix l va))"
  by (simp add: get_desc_def slot_def add_objs_def)

lemma set_desc_slot: "set_desc l t va d m = m(slot t (ix l va) := d)"
  by (simp add: set_desc_def slot_def add_objs_def)

lemma zero_page_slot:
  assumes "is_page_aligned t" "is_page_aligned u" "i < 512"
  shows "zero_page u m (slot t i) = (if t = u then 0 else m (slot t i))"
proof (cases "unat u \<le> unat (slot t i)")
  case True
  obtain p q where pq: "unat t = 4096 * p" "unat u = 4096 * q"
    using assms by (auto simp: is_page_aligned_iff dvd_def)
  have "slot t i - u < PAGE_SIZE \<longleftrightarrow> unat t + 8 * i < unat u + 4096"
    using True assms by (auto simp: word_less_nat_alt unat_sub_usize unat_slot)
  also have "\<dots> \<longleftrightarrow> p = q" 
    using True assms(3) unfolding unat_slot [OF assms(1,3)] pq by linarith
  also have "\<dots> \<longleftrightarrow> t = u" using pq by (simp add: word_unat_eq_iff)
  finally show ?thesis by (simp add: zero_page_def)
next
  case False
  then have "t \<noteq> u" using unat_slot [OF assms(1,3)] by auto
  moreover have "\<not> slot t i - u < PAGE_SIZE"
  proof -
    have "unat (slot t i - u) = 2 ^ 64 + unat (slot t i) - unat u"
      using False by (simp add: unat_sub_if_size word_size)
    moreover have "unat u + 4096 \<le> 2 ^ 64" using assms(2) by (rule aligned_bound)
    ultimately show ?thesis by (simp add: word_less_nat_alt)
  qed
  ultimately show ?thesis by (simp add: zero_page_def)
qed

section \<open>Walking down\<close>

text \<open>Levels by their distance to the leaves, and the table and descriptor at which the walk for an
  address stops.\<close>

fun lvl :: "nat \<Rightarrow> level" where
  "lvl 0 = L3" | "lvl (Suc 0) = L2" | "lvl (Suc (Suc 0)) = L1" | "lvl _ = L0"

primrec leaf :: "nat \<Rightarrow> (usize \<Rightarrow> u64) \<Rightarrow> usize \<Rightarrow> usize \<Rightarrow> nat \<times> usize" where
  "leaf 0 m t va = (0, t)"
| "leaf (Suc n) m t va =
     (case next_table_address (m (slot t (ix (lvl (Suc n)) va))) of
        Some u \<Rightarrow> leaf n m u va | None \<Rightarrow> (Suc n, t))"

definition path :: "nat \<Rightarrow> usize \<Rightarrow> nat list" where
  "path n va = take (3 - n) [ix L0 va, ix L1 va, ix L2 va]"

lemma path_simps [simp]:
  "path 3 va = []" "path (Suc (Suc (Suc 0))) va = []" "length (path n va) = 3 - n"
  by (simp_all add: path_def)

lemma path_step: "n < 3 \<Longrightarrow> path n va = path (Suc n) va @ [ix (lvl (Suc n)) va]"
  by (cases n rule: lvl.cases) (auto simp: path_def)

text \<open>\<open>own t = Some (r, p)\<close>: page \<open>t\<close> is the table of the address space with root \<open>r\<close> that is reached
  from it through the entries \<open>p\<close>. Distinct positions have distinct tables.\<close>

type_synonym owner = "usize \<rightharpoonup> usize \<times> nat list"

definition pt_tree :: "owner \<Rightarrow> (usize \<Rightarrow> u64) \<Rightarrow> bool" where
  "pt_tree own m \<longleftrightarrow> (\<forall>t r p. own t = Some (r, p) \<longrightarrow> is_page_aligned t \<and> length p \<le> 3 \<and>
     (p = [] \<longrightarrow> t = r) \<and>
     (\<forall>q i. p = q @ [i] \<longrightarrow>
        i < 512 \<and> (\<exists>u. own u = Some (r, q) \<and> next_table_address (m (slot u i)) = Some t)) \<and>
     (length p < 3 \<longrightarrow> (\<forall>i<512. \<forall>u. next_table_address (m (slot t i)) = Some u \<longrightarrow>
        own u = Some (r, p @ [i]))))"

lemma pt_treeD:
  assumes "pt_tree own m" "own t = Some (r, p)"
  shows "is_page_aligned t" "length p \<le> 3"
    "\<lbrakk>length p < 3; i < 512; next_table_address (m (slot t i)) = Some u\<rbrakk> \<Longrightarrow> own u = Some (r, p @ [i])"
    "p = [] \<Longrightarrow> t = r"
    "p = q @ [i] \<Longrightarrow> i < 512 \<and> (\<exists>u. own u = Some (r, q) \<and> next_table_address (m (slot u i)) = Some t)"
  using assms unfolding pt_tree_def by blast+

lemma pt_treeI:
  assumes "\<And>t r p. own t = Some (r, p) \<Longrightarrow> is_page_aligned t \<and> length p \<le> 3 \<and> (p = [] \<longrightarrow> t = r)"
    and "\<And>t r q i. own t = Some (r, q @ [i]) \<Longrightarrow>
      i < 512 \<and> (\<exists>u. own u = Some (r, q) \<and> next_table_address (m (slot u i)) = Some t)"
    and "\<And>t r p i u. \<lbrakk>own t = Some (r, p); length p < 3; i < 512;
      next_table_address (m (slot t i)) = Some u\<rbrakk> \<Longrightarrow> own u = Some (r, p @ [i])"
  shows "pt_tree own m"
  using assms unfolding pt_tree_def by blast

lemma pt_tree_cong:
  assumes tree: "pt_tree own m"
    and same: "\<And>t r p i. \<lbrakk>own t = Some (r, p); length p < 3; i < 512\<rbrakk> \<Longrightarrow>
      next_table_address (m' (slot t i)) = next_table_address (m (slot t i))"
  shows "pt_tree own m'"
proof (rule pt_treeI)
  fix t r p assume "own t = Some (r, p)"
  then show "is_page_aligned t \<and> length p \<le> 3 \<and> (p = [] \<longrightarrow> t = r)"
    using pt_treeD(1,2,4) [OF tree] by blast
next
  fix t r q i assume t: "own t = Some (r, q @ [i])"
  then obtain u where u: "i < 512" "own u = Some (r, q)" "next_table_address (m (slot u i)) = Some t"
    using pt_treeD(5) [OF tree t refl] by blast
  moreover have "length q < 3" using pt_treeD(2) [OF tree t] by simp
  ultimately show "i < 512 \<and> (\<exists>u. own u = Some (r, q) \<and> next_table_address (m' (slot u i)) = Some t)"
    using same by metis
next
  fix t r p i u
  assume t: "own t = Some (r, p)" "length p < 3" "i < 512" "next_table_address (m' (slot t i)) = Some u"
  then show "own u = Some (r, p @ [i])" using pt_treeD(3) [OF tree t(1-3)] same [OF t(1-3)] by simp
qed

lemma leaf_owned:
  assumes "pt_tree own m" "own t = Some (r, path n va)" "n \<le> 3" "leaf n m t va = (k, u)"
  shows "k \<le> n \<and> own u = Some (r, path k va)"
  using assms(2-4)
proof (induction n arbitrary: t)
  case (Suc n)
  show ?case
  proof (cases "next_table_address (m (slot t (ix (lvl (Suc n)) va)))")
    case (Some v)
    then have "own v = Some (r, path n va)"
      using pt_treeD(3) [OF assms(1) Suc.prems(1) _ ix_less Some] Suc.prems(2) by (simp add: path_step)
    then show ?thesis using Suc.IH [of v] Suc.prems Some by (simp add: le_SucI)
  qed (use Suc.prems in auto)
qed simp

text \<open>Writing one slot that held no table.\<close>

lemma leaf_update:
  assumes tree: "pt_tree own m" and t: "own t = Some (r, p)" "length p + n = 2" "i < 512"
    and none: "next_table_address (m (slot t i)) = None"
    and u: "own u = Some (r', q)" "length q + k = 3"
  shows "leaf k (m(slot t i := d)) u va =
    (if leaf k m u va = (Suc n, t) \<and> ix (lvl (Suc n)) va = i
     then case next_table_address d of
            Some v \<Rightarrow> leaf n (m(slot t i := d)) v va | None \<Rightarrow> (Suc n, t)
     else leaf k m u va)"
  using u
proof (induction k arbitrary: u r' q)
  case (Suc k)
  let ?j = "ix (lvl (Suc k)) va"
  have al: "is_page_aligned t" "is_page_aligned u"
    using pt_treeD(1) [OF tree t(1)] pt_treeD(1) [OF tree Suc.prems(1)] by auto
  show ?case
  proof (cases "u = t \<and> ?j = i")
    case True
    then have "k = n" using t(1,2) Suc.prems by simp
    moreover have "(m(slot t i := d)) (slot t i) = d" by simp
    ultimately show ?thesis using True none by (simp split: option.split del: fun_upd_apply)
  next
    case False
    then have same: "(m(slot t i := d)) (slot u ?j) = m (slot u ?j)"
      using slot_eq_iff [OF al(2,1), of ?j i] t(3) by auto
    show ?thesis
    proof (cases "next_table_address (m (slot u ?j))")
      case None
      then show ?thesis using same False by auto
    next
      case (Some v)
      then have "own v = Some (r', q @ [?j])"
        using pt_treeD(3) [OF tree Suc.prems(1) _ ix_less Some] Suc.prems(2) by simp
      then show ?thesis
        using Suc.IH [of v r' "q @ [?j]"] Suc.prems(2) Some same by simp
    qed
  qed
qed simp

lemma leaf_cong:
  assumes tree: "pt_tree own m"
    and same: "\<And>t r p i. \<lbrakk>own t = Some (r, p); length p < 3; i < 512\<rbrakk> \<Longrightarrow>
      next_table_address (m' (slot t i)) = next_table_address (m (slot t i))"
    and u: "own u = Some (r, q)" "length q + k = 3"
  shows "leaf k m' u va = leaf k m u va"
  using u
proof (induction k arbitrary: u q)
  case (Suc k)
  have s: "next_table_address (m' (slot u (ix (lvl (Suc k)) va))) =
        next_table_address (m (slot u (ix (lvl (Suc k)) va)))"
    using same [OF Suc.prems(1) _ ix_less] Suc.prems(2) by simp
  show ?case
  proof (cases "next_table_address (m (slot u (ix (lvl (Suc k)) va)))")
    case (Some v)
    then have "own v = Some (r, q @ [ix (lvl (Suc k)) va])"
      using pt_treeD(3) [OF tree Suc.prems(1) _ ix_less Some] Suc.prems(2) by simp
    then show ?thesis using Suc.IH Suc.prems(2) Some s by simp
  qed (use s in simp)
qed simp

lemma leaf_via:
  assumes tree: "pt_tree own m" and "own t = Some (r, path n va)" "n \<le> 3"
  shows "leaf 3 m r va = leaf n m t va"
  using assms(3,2)
proof (induction n arbitrary: t rule: inc_induct)
  case base
  then show ?case using pt_treeD(4) [OF tree base] by simp
next
  case (step n)
  from step.prems step.hyps obtain u where u: "own u = Some (r, path (Suc n) va)"
    "next_table_address (m (slot u (ix (lvl (Suc n)) va))) = Some t"
    using pt_treeD(5) [OF tree step.prems, of "path (Suc n) va"] by (auto simp: path_step)
  then show ?case using step.IH [OF u(1)] by simp
qed

lemma owned_unique:
  assumes tree: "pt_tree own m" and "own t = Some (r, p)" "own u = Some (r, p)"
  shows "t = u"
  using assms(2,3)
proof (induction p arbitrary: t u rule: rev_induct)
  case Nil
  then show ?case using pt_treeD(4) [OF tree] by metis
next
  case (snoc i p)
  then show ?case using pt_treeD(5) [OF tree, OF _ refl] by (metis option.inject)
qed

section \<open>The translation\<close>

fun fmt :: "nat \<Rightarrow> pa_format" where
  "fmt 0 = L3Descriptor" | "fmt (Suc 0) = L2Descriptor" | "fmt _ = L1Descriptor"

definition entry :: "(usize \<Rightarrow> u64) \<Rightarrow> usize \<Rightarrow> usize \<Rightarrow> nat \<times> u64" where
  "entry m root va = (case leaf 3 m root va of (n, t) \<Rightarrow> (n, m (slot t (ix (lvl n) va))))"

definition occupied :: "(usize \<Rightarrow> u64) \<Rightarrow> usize \<Rightarrow> usize \<Rightarrow> bool" where
  "occupied m root va \<longleftrightarrow> is_valid (snd (entry m root va))"

definition view ::
  "reg_ops \<Rightarrow> (usize \<Rightarrow> u64) \<Rightarrow> usize \<Rightarrow> usize \<Rightarrow> (usize \<times> pte_permissions) option" where
  "view R m root va =
     (case entry m root va of (n, d) \<Rightarrow>
        if n < 3 \<and> d AND 3 = map_bits (fmt n)
        then case (mapped_address R (fmt n) d, permissions R (fmt n) d) of
               (Some a, Ok (Some p)) \<Rightarrow> Some (a + (va AND mask (SHIFT (lvl n))), p)
             | _ \<Rightarrow> None
        else None)"

lemma map_bits_fmt: "map_bits (fmt n) \<noteq> 0" "wf_format (fmt n)"
  by (cases n rule: fmt.cases; simp add: L1Descriptor_def L2Descriptor_def L3Descriptor_def wf_format_def)+

lemma not_valid_iff: "\<not> is_valid d \<longleftrightarrow> d AND 3 = 0"
  by (simp add: is_valid_def)

lemma view_invalid: "entry m root va = (n, d) \<Longrightarrow> \<not> is_valid d \<Longrightarrow> view R m root va = None"
  using map_bits_fmt(1) [of n] by (auto simp: view_def not_valid_iff)

lemma view_entry: "entry m' root va = entry m root va \<Longrightarrow> view R m' root va = view R m root va"
  by (simp add: view_def)

lemma next_table_0 [simp]: "next_table_address 0 = None"
  by (simp add: next_table_address_def table_bits_def)

lemma leaf_zero: "(\<And>i. i < 512 \<Longrightarrow> m (slot a i) = 0) \<Longrightarrow> leaf n m a va = (n, a)"
  by (cases n) simp_all

section \<open>Descending\<close>

locale pt_allocator =
  fixes allocate :: "'al pt_state \<Rightarrow> usize outcome \<times> 'al pt_state"
    and ainv :: "'al \<Rightarrow> bool" and avail :: "'al \<Rightarrow> usize set"
  assumes allocate_cases: "ainv (pt_alloc s) \<Longrightarrow>
    (\<exists>e. allocate s = (Err e, s)) \<or>
    (\<exists>a s'. allocate s = (Ok a, s') \<and> ainv (pt_alloc s') \<and> a \<in> avail (pt_alloc s) \<and>
       avail (pt_alloc s') = avail (pt_alloc s) - {a} \<and> is_page_aligned a \<and>
       (\<forall>t i. is_page_aligned t \<and> i < 512 \<and> t \<noteq> a \<longrightarrow> pt_mem s' (slot t i) = pt_mem s (slot t i)))"

definition pt_ok :: "('al \<Rightarrow> bool) \<Rightarrow> ('al \<Rightarrow> usize set) \<Rightarrow> owner \<Rightarrow> 'al pt_state \<Rightarrow> bool" where
  "pt_ok ainv avail own s \<longleftrightarrow>
     pt_tree own (pt_mem s) \<and> ainv (pt_alloc s) \<and> dom own \<inter> avail (pt_alloc s) = {}"

text \<open>No root's translation changes, and no address becomes or ceases to be occupied.\<close>

definition same_view :: "reg_ops \<Rightarrow> owner \<Rightarrow> (usize \<Rightarrow> u64) \<Rightarrow> (usize \<Rightarrow> u64) \<Rightarrow> bool" where
  "same_view R own m m' \<longleftrightarrow>
     (\<forall>r va. own r = Some (r, []) \<longrightarrow> view R m' r va = view R m r va \<and>
        (occupied m' r va \<longleftrightarrow> occupied m r va))"

lemma same_view_refl [simp]: "same_view R own m m" by (simp add: same_view_def)

lemma add_table:
  assumes tree: "pt_tree own m" and t: "own t = Some (r, p)" "length p + n = 2" "i < 512"
    and inv: "\<not> is_valid (m (slot t i))"
    and a: "own a = None" "is_page_aligned a"
    and m1: "\<And>u j. is_page_aligned u \<Longrightarrow> j < 512 \<Longrightarrow> u \<noteq> a \<Longrightarrow> m1 (slot u j) = m (slot u j)"
  defines "m' \<equiv> (zero_page a m1)(slot t i := new_next_table a)"
  shows "pt_tree (own(a \<mapsto> (r, p @ [i]))) m'" "same_view R own m m'"
proof -
  let ?m2 = "zero_page a m1"
  have al: "is_page_aligned t" using pt_treeD(1) [OF tree t(1)] .
  have ta: "t \<noteq> a" using t(1) a(1) by auto
  have m2: "?m2 (slot u j) = m (slot u j)" if "own u = Some (r', q)" "j < 512" for u j r' q
  proof -
    have "is_page_aligned u" "u \<noteq> a" using that a(1) pt_treeD(1) [OF tree that(1)] by auto
    then show ?thesis using zero_page_slot [of u a j m1] a(2) that(2) m1 by simp
  qed
  have none: "next_table_address (?m2 (slot t i)) = None"
    using m2 [OF t(1,3)] inv next_table_valid by (metis option.exhaust)
  have tree2: "pt_tree own ?m2" using m2 by (intro pt_tree_cong [OF tree]) simp
  have m': "m' (slot u j) = (if u = t \<and> j = i then new_next_table a else ?m2 (slot u j))"
    if "is_page_aligned u" "j < 512" for u j
    using slot_eq_iff [OF that(1) al that(2) t(3)] by (auto simp: m'_def)
  have a0: "m' (slot a j) = 0" if "j < 512" for j
    using m' [OF a(2) that] zero_page_slot [OF a(2,2) that] ta by simp
  show "pt_tree (own(a \<mapsto> (r, p @ [i]))) m'"
  proof (rule pt_treeI)
    fix u r' q assume "(own(a \<mapsto> (r, p @ [i]))) u = Some (r', q)"
    then show "is_page_aligned u \<and> length q \<le> 3 \<and> (q = [] \<longrightarrow> u = r')"
      using pt_treeD(1,2,4) [OF tree, of u r' q] a(2) t(2) by (auto split: if_splits)
  next
    fix u r' q j assume u: "(own(a \<mapsto> (r, p @ [i]))) u = Some (r', q @ [j])"
    show "j < 512 \<and> (\<exists>v. (own(a \<mapsto> (r, p @ [i]))) v = Some (r', q) \<and>
        next_table_address (m' (slot v j)) = Some u)"
    proof (cases "u = a")
      case True
      then have e: "r' = r" "q = p" "j = i" using u by auto
      have "(own(a \<mapsto> (r, p @ [i]))) t = Some (r, p)" using t(1) ta by simp
      moreover have "next_table_address (m' (slot t i)) = Some a"
        using m' [OF al t(3)] next_table_address_new(1) [OF a(2)] by simp
      ultimately show ?thesis unfolding e True using t(3) by blast
    next
      case False
      then obtain v where v: "j < 512" "own v = Some (r', q)" "next_table_address (?m2 (slot v j)) = Some u"
        using pt_treeD(5) [OF tree2, of u r' "q @ [j]" q j] u by auto
      have "v \<noteq> a" using v(2) a(1) by auto
      then have "(own(a \<mapsto> (r, p @ [i]))) v = Some (r', q)" using v(2) by simp
      moreover have "m' (slot v j) = ?m2 (slot v j)"
        using m' [OF pt_treeD(1) [OF tree v(2)] v(1)] v(3) none by (cases "v = t \<and> j = i") simp_all
      ultimately show ?thesis using v(1,3) by (metis (no_types))
    qed
  next
    fix u r' q j v
    assume u: "(own(a \<mapsto> (r, p @ [i]))) u = Some (r', q)" "length q < 3" "j < 512"
      "next_table_address (m' (slot u j)) = Some v"
    show "(own(a \<mapsto> (r, p @ [i]))) v = Some (r', q @ [j])"
    proof (cases "u = a")
      case False
      then have o: "own u = Some (r', q)" using u(1) by simp
      note au = pt_treeD(1) [OF tree o]
      show ?thesis
      proof (cases "u = t \<and> j = i")
        case True
        then have "v = a" using u(4) m' [OF au u(3)] next_table_address_new(1) [OF a(2)] by simp
        then show ?thesis using True o t(1) by simp
      next
        case False
        then have "m' (slot u j) = ?m2 (slot u j)" unfolding m' [OF au u(3)] by (rule if_not_P)
        then have "next_table_address (?m2 (slot u j)) = Some v" using u(4) by simp
        then have "own v = Some (r', q @ [j])" using pt_treeD(3) [OF tree2 o u(2,3)] by simp
        moreover from this have "v \<noteq> a" using a(1) by (metis option.distinct(1))
        ultimately show ?thesis by simp
      qed
    qed (use u(4) a0 [OF u(3)] in simp)
  qed
  show "same_view R own m m'"
    unfolding same_view_def
  proof (intro allI impI)
    fix r' va assume r': "own r' = Some (r', [])"
    obtain k u where l: "leaf 3 ?m2 r' va = (k, u)" by (cases "leaf 3 ?m2 r' va")
    have lm: "leaf 3 m r' va = (k, u)"
      using leaf_cong [OF tree2, of m r' r' "[]" 3 va] m2 r' l by simp
    have ou: "own u = Some (r', path k va)" using leaf_owned [OF tree2 _ _ l] r' by simp
    have upd: "leaf 3 m' r' va = (if (k, u) = (Suc n, t) \<and> ix (lvl (Suc n)) va = i
        then leaf n m' a va else (k, u))"
      using leaf_update [OF tree2 t none r', of 3 "new_next_table a" va]
        next_table_address_new(1) [OF a(2)] l unfolding m'_def by simp
    show "view R m' r' va = view R m r' va \<and> (occupied m' r' va \<longleftrightarrow> occupied m r' va)"
    proof (cases "(k, u) = (Suc n, t) \<and> ix (lvl (Suc n)) va = i")
      case True
      then have "entry m' r' va = (n, 0)" 
        using upd leaf_zero [of m' a n va] a0 by (simp add: entry_def)
      moreover have "entry m r' va = (Suc n, m (slot t i))" using True lm by (simp add: entry_def)
      ultimately show ?thesis
        using view_invalid [of m' r' va n 0 R] view_invalid [of m r' va "Suc n" "m (slot t i)" R] inv
        by (simp add: is_valid_def occupied_def)
    next
      case False
      have "\<not> (u = t \<and> ix (lvl k) va = i)"
      proof
        assume e: "u = t \<and> ix (lvl k) va = i"
        then have "length p = 3 - k" "k \<le> 3"
          using ou t(1) leaf_owned [OF tree2 _ _ l] r' by auto
        then have "k = Suc n" using t(2) by linarith
        then show False using False e by auto
      qed
      then have "m' (slot u (ix (lvl k) va)) = m (slot u (ix (lvl k) va))"
        using m' [OF pt_treeD(1) [OF tree ou], of "ix (lvl k) va"] m2 [OF ou] by auto
      moreover have "leaf 3 m' r' va = (k, u)" unfolding upd by (rule if_not_P [OF False])
      ultimately have "entry m' r' va = entry m r' va" using lm by (simp add: entry_def)
      then show ?thesis using view_entry [of m' r' va m R] by (simp add: occupied_def)
    qed
  qed
qed

context pt_allocator
begin

lemma map_at_level_run:
  assumes ok: "pt_ok ainv avail own s" and t: "own t = Some (r, path (Suc n) va)" "n < 3"
  shows "\<exists>res s' own'. map_at_level allocate (lvl (Suc n)) t va s = (res, s') \<and>
    pt_ok ainv avail own' s' \<and> own \<subseteq>\<^sub>m own' \<and> same_view R own (pt_mem s) (pt_mem s') \<and>
    (\<exists>a. avail (pt_alloc s) - {a} \<subseteq> avail (pt_alloc s')) \<and>
    ((\<exists>e. res = Err e) \<or> (\<exists>u. res = Ok u \<and> own' u = Some (r, path n va)))"
proof -
  have tree: "pt_tree own (pt_mem s)" and ai: "ainv (pt_alloc s)"
    and dj: "dom own \<inter> avail (pt_alloc s) = {}" using ok by (auto simp: pt_ok_def)
  let ?i = "ix (lvl (Suc n)) va"
  let ?d = "pt_mem s (slot t ?i)"
  have p: "path n va = path (Suc n) va @ [?i]" using t(2) by (simp add: path_step)
  show ?thesis
  proof (cases "next_table_address ?d")
    case (Some u)
    then have "own u = Some (r, path n va)"
      using pt_treeD(3) [OF tree t(1) _ ix_less Some] t(2) p by simp
    moreover have "map_at_level allocate (lvl (Suc n)) t va s = (Ok u, s)"
      using Some by (simp add: map_at_level_def get_desc_slot)
    ultimately show ?thesis using ok by (intro exI [of _ "Ok u"] exI [of _ s] exI [of _ own]) auto
  next
    case None
    show ?thesis
    proof (cases "is_valid ?d")
      case True
      then have "map_at_level allocate (lvl (Suc n)) t va s = (Err (MappingError AlreadyMapped), s)"
        using None by (simp add: map_at_level_def get_desc_slot)
      then show ?thesis using ok by (intro exI [of _ "Err _"] exI [of _ s] exI [of _ own]) auto
    next
      case False
      note ml = map_at_level_def [of allocate "lvl (Suc n)" t va s]
      from allocate_cases [OF ai] consider (err) e where "allocate s = (Err e, s)"
        | (Ok) a s1 where "allocate s = (Ok a, s1)" "ainv (pt_alloc s1)" "a \<in> avail (pt_alloc s)"
          "avail (pt_alloc s1) = avail (pt_alloc s) - {a}" "is_page_aligned a"
          "\<And>t i. is_page_aligned t \<Longrightarrow> i < 512 \<Longrightarrow> t \<noteq> a \<Longrightarrow> pt_mem s1 (slot t i) = pt_mem s (slot t i)"
        by blast
      then show ?thesis
      proof cases
        case err
        then have "map_at_level allocate (lvl (Suc n)) t va s = (Err e, s)"
          using None False by (simp add: ml get_desc_slot)
        then show ?thesis using ok by (intro exI [of _ "Err _"] exI [of _ s] exI [of _ own]) auto
      next
        case Ok
        let ?own = "own(a \<mapsto> (r, path n va))"
        let ?s = "s1\<lparr>pt_mem := (zero_page a (pt_mem s1))(slot t ?i := new_next_table a)\<rparr>"
        have a: "own a = None" using Ok(3) dj by auto
        have run: "map_at_level allocate (lvl (Suc n)) t va s = (Ok a, ?s)"
          using None False Ok(1) by (simp add: ml get_desc_slot set_desc_slot)
        have len: "length (path (Suc n) va) + n = 2" using t(2) by simp
        note at = add_table(1) [OF tree t(1) len ix_less False a Ok(5,6)]
          add_table(2) [OF tree t(1) len ix_less False a Ok(5,6), of R]
        have "pt_ok ainv avail ?own ?s"
          using at(1) Ok(2,4) dj unfolding pt_ok_def p by auto
        moreover have "own \<subseteq>\<^sub>m ?own" using a by (auto simp: map_le_def)
        moreover have "same_view R own (pt_mem s) (pt_mem ?s)" using at(2) by simp
        ultimately show ?thesis
          using run Ok(4) by (intro exI [of _ "Ok a"] exI [of _ ?s] exI [of _ ?own]) auto
      qed
    qed
  qed
qed

end

section \<open>Writing a mapping\<close>

lemma digits_eq: "(a :: nat) = b \<longleftrightarrow> a div 512 = b div 512 \<and> a mod 512 = b mod 512"
  by (metis div_mult_mod_eq)

lemma same_block:
  assumes "unat va < 2 ^ 48" "unat va' < 2 ^ 48" "n < 3"
  shows "path n va' = path n va \<and> ix (lvl n) va' = ix (lvl n) va \<longleftrightarrow>
    unat va' div 2 ^ SHIFT (lvl n) = unat va div 2 ^ SHIFT (lvl n)"
proof -
  have d: "x div 2 ^ 30 div 512 = x div 2 ^ 39" "x div 2 ^ 21 div 512 = x div 2 ^ 30"
    "x div 2 ^ 12 div 512 = x div 2 ^ 21" for x :: nat
    by (simp_all flip: div_mult2_eq)
  have t: "x div 2 ^ 39 mod 512 = x div 2 ^ 39" if "x < 2 ^ 48" for x :: nat
    using that by (simp add: less_mult_imp_div_less)
  have e0: "ix L0 va' = ix L0 va \<longleftrightarrow> unat va' div 2 ^ 39 = unat va div 2 ^ 39"
    using t [OF assms(1)] t [OF assms(2)] by (simp add: unat_pg_index)
  have e1: "unat va' div 2 ^ 30 = unat va div 2 ^ 30 \<longleftrightarrow> ix L0 va' = ix L0 va \<and> ix L1 va' = ix L1 va"
    unfolding e0 using digits_eq [of "unat va' div 2 ^ 30" "unat va div 2 ^ 30"]
    by (simp only: d unat_pg_index SHIFT.simps)
  have e2: "unat va' div 2 ^ 21 = unat va div 2 ^ 21 \<longleftrightarrow>
      ix L0 va' = ix L0 va \<and> ix L1 va' = ix L1 va \<and> ix L2 va' = ix L2 va"
    using digits_eq [of "unat va' div 2 ^ 21" "unat va div 2 ^ 21"] e1
    by (simp only: d unat_pg_index SHIFT.simps conj_assoc)
  have e3: "unat va' div 2 ^ 12 = unat va div 2 ^ 12 \<longleftrightarrow>
      ix L0 va' = ix L0 va \<and> ix L1 va' = ix L1 va \<and> ix L2 va' = ix L2 va \<and> ix L3 va' = ix L3 va"
    using digits_eq [of "unat va' div 2 ^ 12" "unat va div 2 ^ 12"] e2
    by (simp only: d unat_pg_index SHIFT.simps conj_assoc)
  from assms(3) consider "n = 0" | "n = Suc 0" | "n = Suc (Suc 0)" by linarith
  then show ?thesis
  proof cases
    case 1
    then show ?thesis using e3 by (simp add: path_def)
  next
    case 2
    then show ?thesis using e2 by (simp add: path_def)
  next
    case 3
    then show ?thesis using e1 by (simp add: path_def)
  qed
qed

lemma write_entry:
  assumes tree: "pt_tree own m" and t: "own t = Some (r, path n va)" "n < 3"
    and inv: "\<not> is_valid (m (slot t (ix (lvl n) va)))"
    and d: "n \<noteq> 0 \<longrightarrow> next_table_address d = None"
  defines "m' \<equiv> m(slot t (ix (lvl n) va) := d)"
  shows "pt_tree own m'"
    and "own r' = Some (r', []) \<Longrightarrow> entry m' r' va' =
      (if r' = r \<and> path n va' = path n va \<and> ix (lvl n) va' = ix (lvl n) va
       then (n, d) else entry m r' va')"
    and "\<lbrakk>path n va' = path n va; ix (lvl n) va' = ix (lvl n) va\<rbrakk> \<Longrightarrow>
      entry m r va' = (n, m (slot t (ix (lvl n) va)))"
proof -
  let ?i = "ix (lvl n) va"
  have al: "is_page_aligned t" using pt_treeD(1) [OF tree t(1)] .
  have none: "next_table_address (m (slot t ?i)) = None"
    using inv next_table_valid by (metis option.exhaust)
  have m': "m' (slot u j) = (if u = t \<and> j = ?i then d else m (slot u j))"
    if "is_page_aligned u" "j < 512" for u j
    using slot_eq_iff [OF that(1) al that(2) ix_less, of "lvl n" va] by (auto simp: m'_def)
  have same: "next_table_address (m' (slot u j)) = next_table_address (m (slot u j))"
    if u: "own u = Some (r', p)" "length p < 3" "j < 512" for u r' p j
  proof (cases "u = t \<and> j = ?i")
    case True
    then have "n \<noteq> 0" using u(1,2) t by auto
    then show ?thesis using True d none m' [OF al ix_less] by simp
  next
    case False
    then have "m' (slot u j) = m (slot u j)"
      unfolding m' [OF pt_treeD(1) [OF tree u(1)] u(3)] by (rule if_not_P)
    then show ?thesis by simp
  qed
  show "pt_tree own m'" using same by (rule pt_tree_cong [OF tree])
  have at: "leaf 3 m r va' = (n, t)" if "path n va' = path n va" "ix (lvl n) va' = ?i" for va'
  proof -
    have "leaf n m t va' = (n, t)" using none that(2) by (cases n) auto
    then show ?thesis using leaf_via [OF tree, of t r n va'] t that(1) by simp
  qed
  show "entry m r va' = (n, m (slot t ?i))" if "path n va' = path n va" "ix (lvl n) va' = ?i"
    using at [OF that] that by (simp add: entry_def)
  show "entry m' r' va' = (if r' = r \<and> path n va' = path n va \<and> ix (lvl n) va' = ?i
       then (n, d) else entry m r' va')" if r': "own r' = Some (r', [])"
  proof -
    obtain k u where l: "leaf 3 m r' va' = (k, u)" by (cases "leaf 3 m r' va'")
    have "leaf 3 m' r' va' = leaf 3 m r' va'"
    proof (rule leaf_cong [OF tree _ r'])
      show "next_table_address (m' (slot x j)) = next_table_address (m (slot x j))"
        if "own x = Some (y, p)" "length p < 3" "j < 512" for x y p j
        using that by (rule same)
    qed simp
    with l have l': "leaf 3 m' r' va' = (k, u)" by simp
    have ou: "k \<le> 3" "own u = Some (r', path k va')" using leaf_owned [OF tree _ _ l] r' by auto
    show ?thesis
    proof (cases "r' = r \<and> path n va' = path n va \<and> ix (lvl n) va' = ?i")
      case True
      then have "k = n" "u = t" using at [of va'] l by auto
      then show ?thesis using True l' m' [OF al ix_less, of "lvl n" va'] by (simp add: entry_def)
    next
      case False
      have "\<not> (u = t \<and> ix (lvl k) va' = ?i)"
      proof
        assume e: "u = t \<and> ix (lvl k) va' = ?i"
        then have p: "r' = r" "path k va' = path n va" using ou(2) t(1) by auto
        from arg_cong [OF p(2), of length] have "k = n" using ou(1) t(2) by simp
        then show False using False e p by auto
      qed
      then have "m' (slot u (ix (lvl k) va')) = m (slot u (ix (lvl k) va'))"
        unfolding m' [OF pt_treeD(1) [OF tree ou(2)] ix_less] by (rule if_not_P)
      then have "entry m' r' va' = entry m r' va'" using l l' by (simp add: entry_def)
      then show ?thesis using False by (simp only: if_False)
    qed
  qed
qed

section \<open>Mapping a range\<close>

text \<open>The first \<open>k\<close> bytes of the range, which were unmapped, now translate as the attributes say;
  nothing else changes, in this address space or another.\<close>

definition maps_prefix ::
  "reg_ops \<Rightarrow> owner \<Rightarrow> usize \<Rightarrow> map_attributes \<Rightarrow> nat \<Rightarrow> (usize \<Rightarrow> u64) \<Rightarrow> (usize \<Rightarrow> u64) \<Rightarrow> bool" where
  "maps_prefix R own root attrs k m m' \<longleftrightarrow>
     (\<forall>va. unat va < 2 ^ 48 \<longrightarrow>
        (if lo (ma_virt attrs) \<le> unat va \<and> unat va < lo (ma_virt attrs) + k
         then view R m root va = None \<and>
              view R m' root va = Some (start_address (ma_phys attrs) + (va - start_address (ma_virt attrs)),
                (ma_perms attrs)\<lparr>pp_read := True\<rparr>)
         else view R m' root va = view R m root va)) \<and>
     (\<forall>r va. own r = Some (r, []) \<and> r \<noteq> root \<longrightarrow> view R m' r va = view R m r va)"

definition attrs_ok :: "map_attributes \<Rightarrow> bool" where
  "attrs_ok attrs \<longleftrightarrow> rg_size (ma_phys attrs) = rg_size (ma_virt attrs) \<and>
     4096 dvd lo (ma_phys attrs) \<and> 4096 dvd lo (ma_virt attrs) \<and>
     4096 dvd unat (rg_size (ma_virt attrs)) \<and>
     hi (ma_phys attrs) \<le> 2 ^ 48 \<and> hi (ma_virt attrs) \<le> 2 ^ 48"

lemma maps_prefix_0:
  assumes "same_view R own m m'" "own root = Some (root, [])"
  shows "maps_prefix R own root attrs 0 m m'"
  using assms by (auto simp: maps_prefix_def same_view_def)

lemma maps_prefix_same_view:
  assumes "same_view R own m m1" "maps_prefix R own root attrs k m1 m2" "own root = Some (root, [])"
  shows "maps_prefix R own root attrs k m m2"
proof -
  have e: "view R m1 r va = view R m r va" if "own r = Some (r, [])" for r va
    using assms(1) that by (simp add: same_view_def)
  show ?thesis using assms(2) unfolding maps_prefix_def e [OF assms(3)] by (simp add: e)
qed

lemma tbl_shift_fmt: "n < 3 \<Longrightarrow> tbl_shift (fmt n) = SHIFT (lvl n)"
  by (cases n rule: fmt.cases; cases "n = 2")
    (auto simp: L1Descriptor_def L2Descriptor_def L3Descriptor_def numeral_2_eq_2)

lemma SHIFT_bounds: "12 \<le> SHIFT l" "SHIFT l \<le> 39"
  by (cases l; simp)+

lemma aligned_to_iff: "s < 64 \<Longrightarrow> aligned_to s a \<longleftrightarrow> 2 ^ s dvd unat a"
  using and_mask_dvd_nat [of s a] by (simp add: aligned_to_def mask_eq_exp_minus_1)

lemma div_block:
  assumes "(d :: nat) dvd a" "0 < d"
  shows "x div d = a div d \<longleftrightarrow> a \<le> x \<and> x < a + d"
proof -
  obtain q where a: "a = d * q" using assms(1) by (auto simp: dvd_def)
  have "x div d = q \<longleftrightarrow> d * q \<le> x \<and> x < d * q + d"
    using assms(2) by (metis add.commute div_less_iff_less_mult le_antisym less_eq_div_iff_mult_less_eq
        less_Suc_eq_le linorder_not_le mult.commute mult_Suc not_less_eq order_refl)
  then show ?thesis using assms(2) a by simp
qed

lemma word_low_bits:
  assumes "2 ^ s dvd unat va" "unat va \<le> unat va'" "unat va' < unat va + 2 ^ s"
  shows "va' AND mask s = va' - (va :: usize)"
proof (rule word_unat_eq_iff [THEN iffD2])
  obtain q where q: "unat va = 2 ^ s * q" using assms(1) by (auto simp: dvd_def)
  have "unat va' = (unat va' - unat va) + 2 ^ s * q" using assms(2) q by simp
  then have "unat va' mod 2 ^ s = (unat va' - unat va) mod 2 ^ s"
    by (metis mod_mult_self2)
  also have "\<dots> = unat va' - unat va" using assms by (intro mod_less) linarith
  finally show "unat (va' AND mask s) = unat (va' - va)"
    using assms(2) by (simp add: unat_and_mask unat_sub_usize)
qed

lemma new_map_not_table:
  assumes "n \<noteq> 0" "d AND 3 = map_bits (fmt n)"
  shows "next_table_address d = None"
proof -
  have "map_bits (fmt n) = 1" using assms(1)
    by (cases n rule: fmt.cases) (simp_all add: L1Descriptor_def L2Descriptor_def)
  then show ?thesis using assms(2) by (simp add: next_table_address_def table_bits_def)
qed

lemma try_map_run:
  assumes R: "bitfields R" and tree: "pt_tree own (pt_mem s)"
    and root: "own root = Some (root, [])" and ok: "attrs_ok attrs"
    and va: "va = start_address (ma_virt attrs)"
    and t: "own t = Some (root, path n va)" "n < 3"
    and cm: "could_map (fmt n) (ma_phys attrs) va"
  shows "\<exists>res s'. try_map_pa R (lvl n) (fmt n) t va (ma_phys attrs) attrs s = (res, s') \<and>
    pt_alloc s' = pt_alloc s \<and> pt_tree own (pt_mem s') \<and>
    (s' = s \<and> (\<exists>e. res = Err e) \<or>
     res = Ok (Some (2 ^ (SHIFT (lvl n) - 12))) \<and>
       2 ^ SHIFT (lvl n) \<le> unat (rg_size (ma_virt attrs)) \<and>
       maps_prefix R own root attrs (2 ^ SHIFT (lvl n)) (pt_mem s) (pt_mem s'))"
proof -
  let ?S = "SHIFT (lvl n)" and ?i = "ix (lvl n) va" and ?m = "pt_mem s"
  let ?pa = "start_address (ma_phys attrs)"
  note sh = tbl_shift_fmt [OF t(2)]
  have S: "?S < 64" using SHIFT_bounds(2) [of "lvl n"] by simp
  have p1: "unat (push_bit ?S 1 :: usize) = 2 ^ ?S" using S by (simp add: unat_exp)
  have al: "aligned_to ?S ?pa" "2 ^ ?S dvd unat va" "2 ^ ?S \<le> unat (rg_size (ma_virt attrs))"
    using cm ok S p1 by (simp_all add: could_map_def sh aligned_to_iff word_le_nat_alt attrs_ok_def)
  have b: "unat ?pa < 2 ^ 48" "unat va + 2 ^ ?S \<le> 2 ^ 48" "unat va < 2 ^ 48"
  proof -
    have pos: "0 < (2 :: nat) ^ ?S" by simp
    have "lo (ma_phys attrs) + unat (rg_size (ma_virt attrs)) \<le> 2 ^ 48"
      "lo (ma_virt attrs) + unat (rg_size (ma_virt attrs)) \<le> 2 ^ 48"
      using ok by (auto simp: attrs_ok_def hi_def lo_def)
    then show "unat ?pa < 2 ^ 48" "unat va + 2 ^ ?S \<le> 2 ^ 48" "unat va < 2 ^ 48"
      using al(3) pos unfolding va unat_start_address by linarith+
  qed
  show ?thesis
  proof (cases "is_valid (?m (slot t ?i))")
    case True
    then have "try_map_pa R (lvl n) (fmt n) t va (ma_phys attrs) attrs s = (Err (MappingError AlreadyMapped), s)"
      using cm by (simp add: try_map_pa_def get_desc_slot)
    then show ?thesis using tree by auto
  next
    case False
    obtain d where d: "new_map_pa R (fmt n) ?pa (ma_mem_type attrs) (ma_perms attrs) = Ok d"
      "d AND 3 = map_bits (fmt n)" "mapped_address R (fmt n) d = Some ?pa"
      "permissions R (fmt n) d = Ok (Some ((ma_perms attrs)\<lparr>pp_read := True\<rparr>))"
      using bitfields.new_map_pa_Ok [OF R map_bits_fmt(2) [of n]] al(1) b(1) sh by metis
    let ?s = "s\<lparr>pt_mem := ?m(slot t ?i := d)\<rparr>"
    have run: "try_map_pa R (lvl n) (fmt n) t va (ma_phys attrs) attrs s =
        (Ok (Some (2 ^ (?S - 12))), ?s)"
      using cm False d(1) by (simp add: try_map_pa_def get_desc_slot set_desc_slot sh)
    have nt: "n \<noteq> 0 \<longrightarrow> next_table_address d = None" using d(2) new_map_not_table by blast
    note w = write_entry [OF tree t False nt]
    have blk: "path n va' = path n va \<and> ix (lvl n) va' = ?i \<longleftrightarrow>
        unat va \<le> unat va' \<and> unat va' < unat va + 2 ^ ?S" if "unat va' < 2 ^ 48" for va'
      using same_block [OF b(3) that t(2)] div_block [OF al(2), of "unat va'"] by simp
    have lv: "lo (ma_virt attrs) = unat va" by (simp add: va unat_start_address)
    have "maps_prefix R own root attrs (2 ^ ?S) ?m (pt_mem ?s)"
      unfolding maps_prefix_def lv
    proof (intro conjI allI impI)
      fix va' :: usize assume va': "unat va' < 2 ^ 48"
      show "if unat va \<le> unat va' \<and> unat va' < unat va + 2 ^ ?S
         then view R ?m root va' = None \<and> view R (pt_mem ?s) root va' =
           Some (?pa + (va' - start_address (ma_virt attrs)), (ma_perms attrs)\<lparr>pp_read := True\<rparr>)
         else view R (pt_mem ?s) root va' = view R ?m root va'"
      proof (cases "unat va \<le> unat va' \<and> unat va' < unat va + 2 ^ ?S")
        case True
        then have sb: "path n va' = path n va" "ix (lvl n) va' = ?i" using blk [OF va'] by auto
        have "entry (pt_mem ?s) root va' = (n, d)" using w(2) [OF root, of va'] sb by simp
        then have "view R (pt_mem ?s) root va' =
            Some (?pa + (va' - va), (ma_perms attrs)\<lparr>pp_read := True\<rparr>)"
          using t(2) d(2-4) word_low_bits [OF al(2)] True by (simp add: view_def)
        moreover have "view R ?m root va' = None"
          using view_invalid [OF w(3) [OF sb] False] .
        ultimately show ?thesis using True va by simp
      next
        case False
        then have "entry (?m(slot t ?i := d)) root va' = entry ?m root va'"
          using w(2) [OF root, of va'] blk [OF va'] by (simp only: simp_thms if_False)
        then have "entry (pt_mem ?s) root va' = entry ?m root va'" by simp
        then show ?thesis unfolding if_not_P [OF False] by (rule view_entry)
      qed
    next
      fix r va' assume "own r = Some (r, []) \<and> r \<noteq> root"
      then show "view R (pt_mem ?s) r va' = view R ?m r va'"
        using w(2) [of r va'] by (intro view_entry) simp
    qed
    then show ?thesis using run w(1) al(3) by auto
  qed
qed

text \<open>What one iteration, or the part of it below some level, achieves.\<close>

definition step_good where
  "step_good ainv avail R root attrs own s out \<longleftrightarrow>
     (\<exists>res s' own'. out = (res, s') \<and> own \<subseteq>\<^sub>m own' \<and> pt_ok ainv avail own' s' \<and>
       ((\<exists>e. res = Err e \<and> maps_prefix R own root attrs 0 (pt_mem s) (pt_mem s')) \<or>
        (\<exists>k :: usize. res = Ok k \<and> 4096 * unat k \<le> unat (rg_size (ma_virt attrs)) \<and>
           maps_prefix R own root attrs (4096 * unat k) (pt_mem s) (pt_mem s'))))"

lemma step_good_Err:
  "\<lbrakk>own \<subseteq>\<^sub>m own'; pt_ok ainv avail own' s'; maps_prefix R own root attrs 0 (pt_mem s) (pt_mem s')\<rbrakk> \<Longrightarrow>
   step_good ainv avail R root attrs own s (Err e, s')"
  unfolding step_good_def by blast

lemma step_good_Ok:
  "\<lbrakk>own \<subseteq>\<^sub>m own'; pt_ok ainv avail own' s'; 4096 * unat k \<le> unat (rg_size (ma_virt attrs));
    maps_prefix R own root attrs (4096 * unat k) (pt_mem s) (pt_mem s')\<rbrakk> \<Longrightarrow>
   step_good ainv avail R root attrs own s (Ok k, s')"
  unfolding step_good_def by blast

lemma owned_mono: "own \<subseteq>\<^sub>m own' \<Longrightarrow> own t = Some x \<Longrightarrow> own' t = Some x"
  by (metis domI map_le_def)

lemma maps_prefix_mono:
  assumes "own \<subseteq>\<^sub>m own'" "maps_prefix R own' root attrs k m m'"
  shows "maps_prefix R own root attrs k m m'"
  unfolding maps_prefix_def
proof (intro conjI)
  show "\<forall>r va. own r = Some (r, []) \<and> r \<noteq> root \<longrightarrow> view R m' r va = view R m r va"
    using assms(2) owned_mono [OF assms(1)] unfolding maps_prefix_def by blast
qed (rule conjunct1 [OF assms(2) [unfolded maps_prefix_def]])

lemma step_good_trans:
  assumes own: "own \<subseteq>\<^sub>m own1" "own root = Some (root, [])"
    and sv: "same_view R own (pt_mem s) (pt_mem s1)"
    and g: "step_good ainv avail R root attrs own1 s1 out"
  shows "step_good ainv avail R root attrs own s out"
proof -
  obtain res s' own' where o: "out = (res, s')" "own1 \<subseteq>\<^sub>m own'" "pt_ok ainv avail own' s'"
    and r: "(\<exists>e. res = Err e \<and> maps_prefix R own1 root attrs 0 (pt_mem s1) (pt_mem s')) \<or>
        (\<exists>k :: usize. res = Ok k \<and> 4096 * unat k \<le> unat (rg_size (ma_virt attrs)) \<and>
           maps_prefix R own1 root attrs (4096 * unat k) (pt_mem s1) (pt_mem s'))"
    using g unfolding step_good_def by blast
  have m: "maps_prefix R own root attrs k (pt_mem s) (pt_mem s')"
    if "maps_prefix R own1 root attrs k (pt_mem s1) (pt_mem s')" for k
    using maps_prefix_same_view [OF sv maps_prefix_mono [OF own(1) that] own(2)] .
  show ?thesis
    unfolding step_good_def using o r m map_le_trans [OF own(1) o(2)] by blast
qed

context pt_allocator
begin

lemma stage_good:
  assumes R: "bitfields R" and ok: "pt_ok ainv avail own s" and root: "own root = Some (root, [])"
    and attrs: "attrs_ok attrs" "va = start_address (ma_virt attrs)"
    and t: "own t = Some (root, path (Suc n) va)" "n < 3"
    and rest: "\<And>u s1 own1. \<lbrakk>pt_ok ainv avail own1 s1; own \<subseteq>\<^sub>m own1; own1 u = Some (root, path n va);
      \<not> could_map (fmt n) (ma_phys attrs) va\<rbrakk> \<Longrightarrow>
      step_good ainv avail R root attrs own1 s1 (rest u s1)"
  shows "step_good ainv avail R root attrs own s
    (st_then (map_at_level allocate (lvl (Suc n)) t va s) (\<lambda>u s.
     st_then (try_map_pa R (lvl n) (fmt n) u va (ma_phys attrs) attrs s) (\<lambda>r s.
     case r of Some k \<Rightarrow> (Ok k, s) | None \<Rightarrow> rest u s)))"
    (is "step_good _ _ _ _ _ _ _ ?prog")
proof -
  obtain res s1 own1 where m: "map_at_level allocate (lvl (Suc n)) t va s = (res, s1)"
    "pt_ok ainv avail own1 s1" "own \<subseteq>\<^sub>m own1" "same_view R own (pt_mem s) (pt_mem s1)"
    "(\<exists>e. res = Err e) \<or> (\<exists>u. res = Ok u \<and> own1 u = Some (root, path n va))"
    using map_at_level_run [OF ok t, of R] by blast
  from m(5) show ?thesis
  proof (elim disjE exE conjE)
    fix e assume "res = Err e"
    then have "?prog = (Err e, s1)" using m(1) by simp
    then show ?thesis using step_good_Err [OF m(3,2) maps_prefix_0 [OF m(4) root]] by simp
  next
    fix u assume u: "res = Ok u" "own1 u = Some (root, path n va)"
    have root1: "own1 root = Some (root, [])" using owned_mono [OF m(3) root] .
    have "step_good ainv avail R root attrs own1 s1 ?prog"
    proof (cases "could_map (fmt n) (ma_phys attrs) va")
      case False
      then have "?prog = rest u s1" using m(1) u(1) by (simp add: try_map_pa_def)
      then show ?thesis using rest [OF m(2,3) u(2) False] by simp
    next
      case True
      have tree: "pt_tree own1 (pt_mem s1)" using m(2) by (simp add: pt_ok_def)
      obtain res2 s2 where t2: "try_map_pa R (lvl n) (fmt n) u va (ma_phys attrs) attrs s1 = (res2, s2)"
        "pt_alloc s2 = pt_alloc s1" "pt_tree own1 (pt_mem s2)"
        "s2 = s1 \<and> (\<exists>e. res2 = Err e) \<or>
         res2 = Ok (Some (2 ^ (SHIFT (lvl n) - 12))) \<and>
         2 ^ SHIFT (lvl n) \<le> unat (rg_size (ma_virt attrs)) \<and>
         maps_prefix R own1 root attrs (2 ^ SHIFT (lvl n)) (pt_mem s1) (pt_mem s2)"
        using try_map_run [OF R tree root1 attrs u(2) t(2) True] by blast
      have ok2: "pt_ok ainv avail own1 s2" using m(2) t2(2,3) by (simp add: pt_ok_def)
      from t2(4) show ?thesis
      proof (elim disjE conjE exE)
        fix e assume e: "s2 = s1" "res2 = Err e"
        then have "?prog = (Err e, s1)" using m(1) u(1) t2(1) by simp
        moreover have "maps_prefix R own1 root attrs 0 (pt_mem s1) (pt_mem s1)"
          using root1 by (intro maps_prefix_0) simp_all
        ultimately show ?thesis using step_good_Err [OF map_le_refl m(2)] by simp
      next
        let ?k = "2 ^ (SHIFT (lvl n) - 12) :: usize"
        assume k: "res2 = Ok (Some ?k)" "2 ^ SHIFT (lvl n) \<le> unat (rg_size (ma_virt attrs))"
          "maps_prefix R own1 root attrs (2 ^ SHIFT (lvl n)) (pt_mem s1) (pt_mem s2)"
        have "unat ?k = 2 ^ (SHIFT (lvl n) - 12)"
          using SHIFT_bounds(2) [of "lvl n"] by (intro unat_exp) simp
        then have "2 ^ SHIFT (lvl n) = 4096 * unat ?k"
          using SHIFT_bounds(1) [of "lvl n"] power_add [of "2 :: nat" 12 "SHIFT (lvl n) - 12"] by simp
        note k2 = k(2,3) [unfolded this]
        have "?prog = (Ok ?k, s2)" using m(1) u(1) t2(1) k(1) by simp
        then show ?thesis using step_good_Ok [OF map_le_refl ok2 k2] by simp
      qed
    qed
    then show ?thesis by (rule step_good_trans [OF m(3) root m(4)])
  qed
qed

lemma map_step_good:
  assumes R: "bitfields R" and ok: "pt_ok ainv avail own s" and root: "own root = Some (root, [])"
    and attrs: "attrs_ok attrs" "0 < rg_size (ma_virt attrs)"
  shows "step_good ainv avail R root attrs own s (map_step allocate R root attrs s)"
proof -
  let ?va = "start_address (ma_virt attrs)"
  have r3: "own root = Some (root, path (Suc 2) ?va)" using root by simp
  have last: "could_map (fmt 0) (ma_phys attrs) ?va"
  proof -
    have "4096 \<le> unat (rg_size (ma_virt attrs))"
      using attrs by (intro dvd_imp_le) (auto simp: attrs_ok_def word_less_nat_alt)
    moreover have "aligned_to 12 ?va" "aligned_to 12 (start_address (ma_phys attrs))"
      using attrs(1) by (simp_all add: aligned_to_iff unat_start_address attrs_ok_def)
    ultimately show ?thesis
      using attrs(1) by (simp add: could_map_def L3Descriptor_def attrs_ok_def word_le_nat_alt)
  qed
  have l3: "st_then (try_map_pa R L3 L3Descriptor t ?va (ma_phys attrs) attrs s) (\<lambda>_ s. (Ok 1, s)) =
    st_then (try_map_pa R (lvl 0) (fmt 0) t ?va (ma_phys attrs) attrs s) (\<lambda>r s.
      case r of Some k \<Rightarrow> (Ok k, s) | None \<Rightarrow> (Ok 1, s))" for t and s :: "'al pt_state"
    by (rule st_then_cong) (auto dest!: try_map_pa_Some simp: L3Descriptor_def split: option.split)
  have s3: "step_good ainv avail R root attrs own2 s2
      (st_then (map_at_level allocate (lvl (Suc 0)) l2 ?va s2) (\<lambda>l3 s.
       st_then (try_map_pa R L3 L3Descriptor l3 ?va (ma_phys attrs) attrs s) (\<lambda>_ s. (Ok 1, s))))"
    if "pt_ok ainv avail own2 s2" "own \<subseteq>\<^sub>m own2" "own2 l2 = Some (root, path (Suc 0) ?va)" for own2 s2 l2
    unfolding l3
    by (rule stage_good [OF R that(1) owned_mono [OF that(2) root] attrs(1) refl that(3)])
      (use last in simp_all)
  have s2: "step_good ainv avail R root attrs own1 s1
      (st_then (map_at_level allocate (lvl (Suc 1)) l1 ?va s1) (\<lambda>l2 s.
       st_then (try_map_pa R (lvl 1) (fmt 1) l2 ?va (ma_phys attrs) attrs s) (\<lambda>r s.
       case r of Some pgs_mapped \<Rightarrow> (Ok pgs_mapped, s) | None \<Rightarrow>
       st_then (map_at_level allocate (lvl (Suc 0)) l2 ?va s) (\<lambda>l3 s.
       st_then (try_map_pa R L3 L3Descriptor l3 ?va (ma_phys attrs) attrs s) (\<lambda>_ s. (Ok 1, s))))))"
    if "pt_ok ainv avail own1 s1" "own \<subseteq>\<^sub>m own1" "own1 l1 = Some (root, path (Suc 1) ?va)" for own1 s1 l1
    by (rule stage_good [OF R that(1) owned_mono [OF that(2) root] attrs(1) refl that(3)])
      (use s3 map_le_trans [OF that(2)] in auto)
  have "step_good ainv avail R root attrs own s
      (st_then (map_at_level allocate (lvl (Suc 2)) root ?va s) (\<lambda>l1 s.
       st_then (try_map_pa R (lvl 2) (fmt 2) l1 ?va (ma_phys attrs) attrs s) (\<lambda>r s.
       case r of Some pgs_mapped \<Rightarrow> (Ok pgs_mapped, s) | None \<Rightarrow>
       st_then (map_at_level allocate (lvl (Suc 1)) l1 ?va s) (\<lambda>l2 s.
       st_then (try_map_pa R (lvl 1) (fmt 1) l2 ?va (ma_phys attrs) attrs s) (\<lambda>r s.
       case r of Some pgs_mapped \<Rightarrow> (Ok pgs_mapped, s) | None \<Rightarrow>
       st_then (map_at_level allocate (lvl (Suc 0)) l2 ?va s) (\<lambda>l3 s.
       st_then (try_map_pa R L3 L3Descriptor l3 ?va (ma_phys attrs) attrs s) (\<lambda>_ s. (Ok 1, s))))))))"
    by (rule stage_good [OF R ok root attrs(1) refl r3]) (use s2 in \<open>auto simp: numeral_2_eq_2\<close>)
  moreover have e: "lvl (Suc 2) = L0" "lvl 2 = L1" "fmt 2 = L1Descriptor" "lvl (Suc 1) = L1"
    "lvl 1 = L2" "fmt 1 = L2Descriptor" "lvl (Suc 0) = L2"
    by (simp_all add: numeral_2_eq_2)
  ultimately show ?thesis unfolding map_step_def Let_def e by simp
qed

end

lemma advance_simps:
  assumes "attrs_ok attrs" "4096 * unat n \<le> unat (rg_size (ma_virt attrs))"
  shows "attrs_ok (advance n attrs)"
    and "lo (ma_virt (advance n attrs)) = lo (ma_virt attrs) + 4096 * unat n"
    and "unat (rg_size (ma_virt (advance n attrs))) = unat (rg_size (ma_virt attrs)) - 4096 * unat n"
    and "start_address (ma_phys (advance n attrs)) + (va - start_address (ma_virt (advance n attrs))) =
      start_address (ma_phys attrs) + (va - start_address (ma_virt attrs))"
    and "ma_perms (advance n attrs) = ma_perms attrs"
proof -
  let ?z = "unat (rg_size (ma_virt attrs))"
  have zz: "rg_size (ma_phys attrs) = rg_size (ma_virt attrs)" using assms(1) by (simp add: attrs_ok_def)
  have b: "lo (ma_phys attrs) + ?z \<le> 2 ^ 48" "lo (ma_virt attrs) + ?z \<le> 2 ^ 48"
    using assms(1) by (auto simp: attrs_ok_def hi_def lo_def)
  have p: "unat (push_bit 12 n) = 4096 * unat n"
    using assms(2) b(2) by (simp add: push_bit_eq_mult unat_word_ariths)
  have l: "lo (ma_virt (advance n attrs)) = lo (ma_virt attrs) + 4096 * unat n"
    "lo (ma_phys (advance n attrs)) = lo (ma_phys attrs) + 4096 * unat n"
    using assms(2) b p
    by (simp_all add: advance_def region_add_pages_def Let_def PAGE_SHIFT_def lo_def unat_add_usize)
  have z: "unat (rg_size (ma_virt (advance n attrs))) = ?z - 4096 * unat n"
    "rg_size (ma_phys (advance n attrs)) = rg_size (ma_virt (advance n attrs))"
    using p zz by (simp_all add: advance_def region_add_pages_def Let_def PAGE_SHIFT_def unat_saturating_sub)
  have h: "hi (ma_phys (advance n attrs)) = lo (ma_phys attrs) + ?z"
    "hi (ma_virt (advance n attrs)) = lo (ma_virt attrs) + ?z"
    using l z assms(2) by (simp_all add: hi_def lo_def)
  show "attrs_ok (advance n attrs)"
    unfolding attrs_ok_def l z(1) h using z(2) b assms(1) by (simp add: attrs_ok_def dvd_diff_nat)
  show "lo (ma_virt (advance n attrs)) = lo (ma_virt attrs) + 4096 * unat n" by (fact l)
  show "unat (rg_size (ma_virt (advance n attrs))) = ?z - 4096 * unat n" by (fact z)
qed (simp_all add: advance_def region_add_pages_def Let_def start_address_def)

lemma maps_prefix_comp:
  assumes "maps_prefix R own root attrs a m m1" "maps_prefix R own root (advance n attrs) b m1 m2"
    and ok: "attrs_ok attrs" "4096 * unat n \<le> unat (rg_size (ma_virt attrs))" and a: "a = 4096 * unat n"
  shows "maps_prefix R own root attrs (a + b) m m2"
proof -
  note adv = advance_simps [OF ok]
  have "if lo (ma_virt attrs) \<le> unat va \<and> unat va < lo (ma_virt attrs) + (a + b)
     then view R m root va = None \<and>
          view R m2 root va = Some (start_address (ma_phys attrs) + (va - start_address (ma_virt attrs)),
            (ma_perms attrs)\<lparr>pp_read := True\<rparr>)
     else view R m2 root va = view R m root va" if va: "unat va < 2 ^ 48" for va
  proof -
    note p1 = assms(1) [unfolded maps_prefix_def, THEN conjunct1, rule_format, OF va]
    note p2 = assms(2) [unfolded maps_prefix_def adv(2,4,5), THEN conjunct1, rule_format, OF va]
    consider "unat va < lo (ma_virt attrs)" | "lo (ma_virt attrs) \<le> unat va" "unat va < lo (ma_virt attrs) + a"
      | "lo (ma_virt attrs) + a \<le> unat va" "unat va < lo (ma_virt attrs) + (a + b)"
      | "lo (ma_virt attrs) + (a + b) \<le> unat va" by linarith
    then show ?thesis using p1 p2 by cases (simp_all add: a)
  qed
  moreover have "view R m2 r va = view R m r va" if "own r = Some (r, [])" "r \<noteq> root" for r va
    using assms(1,2) that by (simp add: maps_prefix_def)
  ultimately show ?thesis by (simp add: maps_prefix_def)
qed

context pt_allocator
begin

lemma map_loop_run:
  assumes R: "bitfields R" and "pt_ok ainv avail own s" "own root = Some (root, [])" "attrs_ok attrs"
  shows "\<exists>res s' own' k. map_loop allocate R root attrs s = (res, s') \<and> own \<subseteq>\<^sub>m own' \<and>
    pt_ok ainv avail own' s' \<and> k \<le> unat (rg_size (ma_virt attrs)) \<and>
    maps_prefix R own root attrs k (pt_mem s) (pt_mem s') \<and>
    ((\<exists>e. res = Err e) \<or> res = Ok () \<and> k = unat (rg_size (ma_virt attrs)))"
  using assms(2-4)
proof (induction "unat (rg_size (ma_virt attrs))" arbitrary: attrs s own rule: less_induct)
  case less
  note run = map_loop.simps [of allocate R root attrs s]
  show ?case
  proof (cases "rg_size (ma_virt attrs) > 0")
    case False
    then have "unat (rg_size (ma_virt attrs)) = 0" by (simp add: word_less_nat_alt)
    moreover have "maps_prefix R own root attrs 0 (pt_mem s) (pt_mem s)"
      using less.prems(2) by (intro maps_prefix_0) simp_all
    ultimately show ?thesis
      using run False less.prems(1)
      by (intro exI [of _ "Ok ()"] exI [of _ s] exI [of _ own] exI [of _ 0]) simp
  next
    case True
    obtain res s1 own1 where g: "map_step allocate R root attrs s = (res, s1)" "own \<subseteq>\<^sub>m own1"
      "pt_ok ainv avail own1 s1"
      and r: "(\<exists>e. res = Err e \<and> maps_prefix R own root attrs 0 (pt_mem s) (pt_mem s1)) \<or>
        (\<exists>k. res = Ok k \<and> 4096 * unat k \<le> unat (rg_size (ma_virt attrs)) \<and>
           maps_prefix R own root attrs (4096 * unat k) (pt_mem s) (pt_mem s1))"
      using map_step_good [OF R less.prems True] unfolding step_good_def by blast
    from r show ?thesis
    proof (elim disjE exE conjE)
      fix e assume e: "res = Err e" "maps_prefix R own root attrs 0 (pt_mem s) (pt_mem s1)"
      then have "map_loop allocate R root attrs s = (Err e, s1)" using run True g(1) by simp
      then show ?thesis
        using e g by (intro exI [of _ "Err e"] exI [of _ s1] exI [of _ own1] exI [of _ 0]) simp
    next
      fix n assume n: "res = Ok n" "4096 * unat n \<le> unat (rg_size (ma_virt attrs))"
        "maps_prefix R own root attrs (4096 * unat n) (pt_mem s) (pt_mem s1)"
      note adv = advance_simps [OF less.prems(3) n(2)]
      have "0 < unat n" using map_step_pages [of allocate R root attrs s n s1] g(1) n(1) by auto
      then have "unat (rg_size (ma_virt (advance n attrs))) < unat (rg_size (ma_virt attrs))"
        using adv(3) n(2) by linarith
      from less.hyps [OF this g(3) owned_mono [OF g(2) less.prems(2)] adv(1)]
      obtain res2 s2 own2 k where i: "map_loop allocate R root (advance n attrs) s1 = (res2, s2)"
        "own1 \<subseteq>\<^sub>m own2" "pt_ok ainv avail own2 s2" "k \<le> unat (rg_size (ma_virt (advance n attrs)))"
        "maps_prefix R own1 root (advance n attrs) k (pt_mem s1) (pt_mem s2)"
        "(\<exists>e. res2 = Err e) \<or> res2 = Ok () \<and> k = unat (rg_size (ma_virt (advance n attrs)))"
        by blast
      have "maps_prefix R own root attrs (4096 * unat n + k) (pt_mem s) (pt_mem s2)"
        using maps_prefix_comp [OF n(3) maps_prefix_mono [OF g(2) i(5)] less.prems(3) n(2) refl] .
      moreover have "map_loop allocate R root attrs s = (res2, s2)" using run True g(1) n(1) i(1) by simp
      ultimately show ?thesis
        using i adv(3) n(2) map_le_trans [OF g(2) i(2)]
        by (intro exI [of _ res2] exI [of _ s2] exI [of _ own2] exI [of _ "4096 * unat n + k"]) auto
    qed
  qed
qed

end

section \<open>The frame allocator provides page tables\<close>

definition free_frame_addrs :: "'l frame_allocator \<Rightarrow> usize set" where
  "free_frame_addrs fa = (\<lambda>i. pa (pfn_of fa i)) ` free_set fa"

abbreviation frames_ok :: "('l \<Rightarrow> nat list) \<Rightarrow> 'l frame_allocator \<Rightarrow> bool" where
  "frames_ok \<alpha> fa \<equiv> buddy_inv \<alpha> fa {}"

lemma unat_frame_addr:
  assumes "fa_wf fa" "i < length (pages fa)"
  shows "unat (pa (pfn_of fa i)) = 4096 * (unat (base_page fa) + i)"
    and "to_pfn (pa (pfn_of fa i)) = pfn_of fa i"
proof -
  have u: "unat (pfn_of fa i) = unat (base_page fa) + i" using assms by (simp add: unat_pfn_of)
  then have "unat (pfn_of fa i) < 2 ^ 52" using assms by (simp add: fa_wf_def)
  then show "unat (pa (pfn_of fa i)) = 4096 * (unat (base_page fa) + i)"
    "to_pfn (pa (pfn_of fa i)) = pfn_of fa i"
    using u by (simp_all add: unat_pa to_pfn_pa)
qed

lemma same_pool_pfn: "same_pool fa fa' \<Longrightarrow> pfn_of fa' i = pfn_of fa i"
  by (simp add: same_pool_def)

context frame_list
begin

lemma allocate_page_table_run:
  assumes inv: "frames_ok \<alpha> (pt_alloc s)"
  shows "(\<exists>e. allocate_page_table L s = (Err e, s)) \<and> free_frame_addrs (pt_alloc s) = {} \<or>
    (\<exists>a s'. allocate_page_table L s = (Ok a, s') \<and> frames_ok \<alpha> (pt_alloc s') \<and>
       a \<in> free_frame_addrs (pt_alloc s) \<and>
       free_frame_addrs (pt_alloc s') = free_frame_addrs (pt_alloc s) - {a} \<and> is_page_aligned a \<and>
       (\<forall>t i. is_page_aligned t \<and> i < 512 \<and> t \<noteq> a \<longrightarrow> pt_mem s' (slot t i) = pt_mem s (slot t i)))"
proof (cases "\<exists>i k. free_block (pt_alloc s) i k")
  case False
  then have "find_block L (pt_alloc s) 0 = Ok None"
    using find_block_run [of "pt_alloc s" "{}" 0] inv by auto
  then have "alloc_frames L (pt_alloc s) 0 = (Err NoMemory, pt_alloc s)"
    by (simp add: alloc_frames_def Let_def)
  moreover have "free_set (pt_alloc s) = {}" using False by (simp add: free_set_def)
  ultimately show ?thesis
    by (simp add: allocate_page_table_def claim_zeroed_def free_frame_addrs_def)
next
  case True
  let ?fa = "pt_alloc s"
  obtain a m where "free_block ?fa a m" using True by blast
  then obtain fa' i c where r: "alloc_frames L ?fa 0 =
      (Ok (new_region (pa (pfn_of ?fa i)) (push_bit PAGE_SHIFT 1)), fa')"
    "frames_ok \<alpha> fa'" "same_pool ?fa fa'" "free_block ?fa i c" "free_set fa' = free_set ?fa - blk i 0"
    using alloc_frames_run [OF inv, of 0 m a] by auto
  have wf: "fa_wf ?fa" "blocks_ok ?fa {}" using inv by (auto simp: buddy_inv_def)
  have fs: "j < length (pages ?fa)" if "j \<in> free_set ?fa" for j
    using free_set_bounds [OF wf(2)] that by auto
  have b0: "blk i 0 = {i}" by (simp add: blk_def)
  have i: "i \<in> free_set ?fa" using r(4) free_block_subset [OF r(4)] by (auto simp: blk_def)
  note ad = unat_frame_addr [OF wf(1) fs]
  let ?a = "pa (pfn_of ?fa i)"
  let ?s = "s\<lparr>pt_alloc := fa', pt_mem := zero_page ?a (pt_mem s)\<rparr>"
  have run: "allocate_page_table L s = (Ok ?a, ?s)"
    using r(1) ad(2) [OF i]
    by (simp add: allocate_page_table_def claim_zeroed_def start_address_def new_region_def)
  have inj: "inj_on (\<lambda>j. pa (pfn_of ?fa j)) (free_set ?fa)"
  proof (rule inj_onI)
    fix j k assume jk: "j \<in> free_set ?fa" "k \<in> free_set ?fa" "pa (pfn_of ?fa j) = pa (pfn_of ?fa k)"
    have "4096 * (unat (base_page ?fa) + j) = 4096 * (unat (base_page ?fa) + k)"
      using arg_cong [OF jk(3), of unat] unfolding ad(1) [OF jk(1)] ad(1) [OF jk(2)] .
    then show "j = k" by simp
  qed
  have "free_frame_addrs fa' = free_frame_addrs ?fa - {?a}"
    using inj_on_image_set_diff [OF inj, of "free_set ?fa" "{i}"] i
    by (simp add: free_frame_addrs_def r(5) b0 same_pool_pfn [OF r(3)])
  moreover have al: "is_page_aligned ?a" using ad(1) [OF i] by (simp add: is_page_aligned_iff)
  moreover have "pt_mem ?s (slot t j) = pt_mem s (slot t j)"
    if "is_page_aligned t" "j < 512" "t \<noteq> ?a" for t j
    using zero_page_slot [OF that(1) al that(2)] that(3) by simp
  ultimately show ?thesis
    using run r(2) i by (auto simp: free_frame_addrs_def)
qed

end

sublocale frame_list \<subseteq> tables: pt_allocator "allocate_page_table L" "frames_ok \<alpha>" free_frame_addrs
proof
  fix s :: "'l frame_allocator pt_state"
  assume "frames_ok \<alpha> (pt_alloc s)"
  from allocate_page_table_run [OF this]
  show "(\<exists>e. allocate_page_table L s = (Err e, s)) \<or>
    (\<exists>a s'. allocate_page_table L s = (Ok a, s') \<and> frames_ok \<alpha> (pt_alloc s') \<and>
       a \<in> free_frame_addrs (pt_alloc s) \<and>
       free_frame_addrs (pt_alloc s') = free_frame_addrs (pt_alloc s) - {a} \<and> is_page_aligned a \<and>
       (\<forall>t i. is_page_aligned t \<and> i < 512 \<and> t \<noteq> a \<longrightarrow> pt_mem s' (slot t i) = pt_mem s (slot t i)))"
    by blast
qed

context frame_list
begin

lemmas map_loop_frames = tables.map_loop_run

end

lemma map_range_run:
  assumes L: "frame_list L \<alpha>" and R: "bitfields R"
    and ok: "pt_ok (frames_ok \<alpha>) free_frame_addrs own s" and root: "own root = Some (root, [])"
    and attrs: "attrs_ok attrs"
  shows "\<exists>res s' own' k. map_range (allocate_page_table L) R root attrs s = (res, s') \<and>
    own \<subseteq>\<^sub>m own' \<and> pt_ok (frames_ok \<alpha>) free_frame_addrs own' s' \<and>
    k \<le> unat (rg_size (ma_virt attrs)) \<and> maps_prefix R own root attrs k (pt_mem s) (pt_mem s') \<and>
    ((\<exists>e. res = Err e) \<or> res = Ok () \<and> k = unat (rg_size (ma_virt attrs)))"
proof (cases "rg_size (ma_virt attrs) < PAGE_SIZE")
  case True
  have "maps_prefix R own root attrs 0 (pt_mem s) (pt_mem s)"
    using root by (intro maps_prefix_0) simp_all
  then show ?thesis
    using True ok attrs
    by (intro exI [of _ "Err (MappingError TooSmall)"] exI [of _ s] exI [of _ own] exI [of _ 0])
      (simp add: map_range_def attrs_ok_def)
next
  case False
  then have "map_range (allocate_page_table L) R root attrs s =
      map_loop (allocate_page_table L) R root attrs s"
    using attrs by (simp add: map_range_def attrs_ok_def region_is_page_aligned_def
        is_page_aligned_iff unat_address)
  then show ?thesis
    using frame_list.map_loop_frames [OF L R ok root attrs] by simp
qed

text \<open>C1. Mapping a page-aligned range over well-formed tables, with tables taken from the frame
  allocator, refines the update of a translation function. Whatever the outcome, a prefix of the range
  that was unmapped before now translates byte by byte to the physical range with the requested
  permissions, every other address of this and of every other address space translates as before, the
  tables stay a tree, and the frame allocator keeps its invariant; on success the prefix is the whole
  range. The call neither panics nor loops.\<close>

theorem map_range_correct:
  assumes L: "frame_list L \<alpha>" and R: "bitfields R"
    and ok: "pt_ok (frames_ok \<alpha>) free_frame_addrs own s" and root: "own root = Some (root, [])"
    and attrs: "attrs_ok attrs"
  shows "\<exists>res s' own' k. map_range (allocate_page_table L) R root attrs s = (res, s') \<and>
    own \<subseteq>\<^sub>m own' \<and> pt_ok (frames_ok \<alpha>) free_frame_addrs own' s' \<and>
    k \<le> unat (rg_size (ma_virt attrs)) \<and> maps_prefix R own root attrs k (pt_mem s) (pt_mem s') \<and>
    ((\<exists>e. res = Err e) \<or> res = Ok () \<and> k = unat (rg_size (ma_virt attrs)))"
  using assms by (rule map_range_run)

end
