(* ===== verification/PageWalkProps.thy ===== *)
theory PageWalkProps
  imports PageTableProps
begin

text \<open>
  Properties of the page-table walker and of the address-space operations built on it. The reference
  definition \<open>at_page\<close> treats one page: it walks down from the root for that page only. The recursive
  walk over a region is shown to do exactly this for each page of the region in ascending order.
\<close>

section \<open>The walker, page by page\<close>

definition at_level ::
  "nat \<Rightarrow> ('al, 'e) modifier \<Rightarrow> usize \<Rightarrow> usize \<Rightarrow> ('al, 'e) walk_state \<Rightarrow>
   unit outcome \<times> ('al, 'e) walk_state" where
  "at_level n f t va ws =
     (case leaf n (pt_mem (fst ws)) t va of (k, u) \<Rightarrow>
        if k = 0 then modify_page f u va ws
        else if is_valid (pt_mem (fst ws) (slot u (ix (lvl k) va)))
             then (Err (MappingError NotL3Mapped), ws) else (Ok (), ws))"

definition at_page ::
  "('al, 'e) modifier \<Rightarrow> usize \<Rightarrow> usize \<Rightarrow> ('al, 'e) walk_state \<Rightarrow>
   unit outcome \<times> ('al, 'e) walk_state" where
  "at_page f root = at_level 3 f root"

text \<open>The tables above the last level are not touched.\<close>

definition upper_same :: "owner \<Rightarrow> (usize \<Rightarrow> u64) \<Rightarrow> (usize \<Rightarrow> u64) \<Rightarrow> bool" where
  "upper_same own m m' \<longleftrightarrow>
     (\<forall>t r p i. own t = Some (r, p) \<and> length p < 3 \<and> i < 512 \<longrightarrow> m' (slot t i) = m (slot t i))"

definition keeps_upper :: "owner \<Rightarrow> ('al, 'e) modifier \<Rightarrow> bool" where
  "keeps_upper own f \<longleftrightarrow>
     (\<forall>va d ws. upper_same own (pt_mem (fst ws)) (pt_mem (fst (snd (f va d ws)))))"

lemma upper_sameD:
  "\<lbrakk>upper_same own m m'; own t = Some (r, p); length p < 3; i < 512\<rbrakk> \<Longrightarrow> m' (slot t i) = m (slot t i)"
  unfolding upper_same_def by blast

lemma upper_same_trans: "upper_same own m m1 \<Longrightarrow> upper_same own m1 m2 \<Longrightarrow> upper_same own m m2"
  unfolding upper_same_def by metis

lemma upper_same_tree: "pt_tree own m \<Longrightarrow> upper_same own m m' \<Longrightarrow> pt_tree own m'"
  by (erule pt_tree_cong) (simp add: upper_sameD)

lemma upper_same_L3:
  assumes "pt_tree own m" "own u = Some (r, path 0 va)"
  shows "upper_same own m (m(slot u (ix L3 va) := d))"
  unfolding upper_same_def
proof (intro allI impI)
  fix t r' p and i :: nat assume t: "own t = Some (r', p) \<and> length p < 3 \<and> i < 512"
  then have "t \<noteq> u" using assms(2) by auto
  then show "(m(slot u (ix L3 va) := d)) (slot t i) = m (slot t i)"
    using t slot_eq_iff [OF pt_treeD(1) [OF assms(1)] pt_treeD(1) [OF assms], of t r' p i "ix L3 va"]
    by auto
qed

lemma modify_page_upper:
  assumes "keeps_upper own f" "pt_tree own (pt_mem (fst ws))" "own u = Some (r, path 0 va)"
  shows "upper_same own (pt_mem (fst ws)) (pt_mem (fst (snd (modify_page f u va ws))))"
proof (cases "is_valid (get_desc L3 u va (pt_mem (fst ws)))")
  case True
  let ?d = "get_desc L3 u va (pt_mem (fst ws))"
  obtain res s e where f: "f va ?d ws = (res, (s, e))" by (metis prod.exhaust)
  have k: "upper_same own (pt_mem (fst ws)) (pt_mem s)"
    using assms(1) f unfolding keeps_upper_def by (metis fst_conv snd_conv)
  have "upper_same own (pt_mem (fst ws)) ((pt_mem s)(slot u (ix L3 va) := d))" for d
    using upper_same_trans [OF k upper_same_L3 [OF upper_same_tree [OF assms(2) k] assms(3)]] .
  then show ?thesis
    using True f k by (cases res) (simp_all add: modify_page_def set_desc_slot)
next
  case False
  then show ?thesis by (simp add: modify_page_def upper_same_def)
qed

lemma at_level_upper:
  assumes "keeps_upper own f" "pt_tree own m" "upper_same own m (pt_mem (fst ws))"
    and "own t = Some (r, path n va)" "n \<le> 3"
  shows "upper_same own m (pt_mem (fst (snd (at_level n f t va ws))))"
proof -
  have tree: "pt_tree own (pt_mem (fst ws))" using upper_same_tree [OF assms(2,3)] .
  obtain k u where l: "leaf n (pt_mem (fst ws)) t va = (k, u)" by (metis prod.exhaust)
  have u: "own u = Some (r, path k va)" using leaf_owned [OF tree assms(4,5) l] by simp
  show ?thesis
  proof (cases "k = 0")
    case True
    then show ?thesis
      using upper_same_trans [OF assms(3) modify_page_upper [OF assms(1) tree, of u r va]] u l
      by (simp add: at_level_def)
  next
    case False
    then show ?thesis using l assms(3) by (simp add: at_level_def)
  qed
qed

lemma st_iter_cong:
  assumes "\<And>x s. x \<in> set xs \<Longrightarrow> I s \<Longrightarrow> f x s = g x s \<and> I (snd (f x s))" "I s"
  shows "st_iter f xs s = st_iter g xs s \<and> I (snd (st_iter f xs s))"
  using assms
proof (induction xs arbitrary: s)
  case (Cons x xs)
  obtain res s' where r: "f x s = (res, s')" by (cases "f x s")
  then have "g x s = (res, s')" "I s'" using Cons.prems(1) [of x s] Cons.prems(2) by auto
  moreover have i: "st_iter f xs s' = st_iter g xs s' \<and> I (snd (st_iter f xs s'))"
  proof (rule Cons.IH)
    show "f y z = g y z \<and> I (snd (f y z))" if "y \<in> set xs" "I z" for y z
      by (rule Cons.prems(1)) (use that in simp_all)
  qed fact
  moreover from i have "I (snd (st_iter g xs s'))" by metis
  ultimately show ?case using r by (cases res) simp_all
qed simp

lemma st_iter_skip: "(\<And>x. x \<in> set xs \<Longrightarrow> f x s = (Ok (), s)) \<Longrightarrow> st_iter f xs s = (Ok (), s)"
  by (induction xs) simp_all

definition pages_from :: "nat \<Rightarrow> nat \<Rightarrow> usize list" where
  "pages_from a b = map (\<lambda>k. of_nat (4096 * k)) [a..<b]"

lemma pages_from_append: "a \<le> b \<Longrightarrow> b \<le> c \<Longrightarrow> pages_from a c = pages_from a b @ pages_from b c"
  using upt_add_eq_append [of a b "c - b"] by (simp add: pages_from_def)

lemma iter_pages_eq:
  assumes "4096 dvd lo r" "4096 dvd hi r"
  shows "iter_pages r = pages_from (lo r div 4096) (hi r div 4096)"
proof -
  obtain a b where ab: "lo r = 4096 * a" "hi r = 4096 * b" using assms by (auto simp: dvd_def)
  have le: "a \<le> b" using lo_le_hi [of r] ab by linarith
  have n: "unat (drop_bit PAGE_SHIFT (rg_size r)) = b - a"
    using ab by (simp add: PAGE_SHIFT_def drop_bit_eq_div unat_div_distrib unat_rg_size
        flip: diff_mult_distrib2)
  have st: "start_address r = of_nat (4096 * a)"
    using unat_start_address [of r] ab(1) by (metis of_nat_unat ucast_id)
  have "[a..<b] = map (\<lambda>c. a + c) [0..<b - a]"
    using le by (intro nth_equalityI) simp_all
  then show ?thesis
    by (simp add: iter_pages_def pages_from_def ab n st add_pages_def PAGE_SIZE_def o_def)
qed

lemma SHIFT_lvl: "n < 4 \<Longrightarrow> SHIFT (lvl n) = 12 + 9 * n"
  by (cases n rule: lvl.cases) auto

lemma path_same:
  assumes "n \<le> 3" "unat va < 2 ^ 48" "unat va' < 2 ^ 48"
  shows "path n va' = path n va \<longleftrightarrow> unat va' div 2 ^ (21 + 9 * n) = unat va div 2 ^ (21 + 9 * n)"
proof -
  from assms(1) consider "n < 2" | "n = 2" | "n = 3" by linarith
  then show ?thesis
  proof cases
    case 1
    then show ?thesis
      using same_block [OF assms(2,3), of "Suc n"] path_step [of n va] path_step [of n va']
      by (simp add: SHIFT_lvl)
  next
    case 2
    have "x div 2 ^ 39 mod 512 = x div 2 ^ 39" if "x < 2 ^ 48" for x :: nat
      using that by (simp add: less_mult_imp_div_less)
    then show ?thesis using 2 assms(2,3) by (simp add: path_def unat_pg_index)
  next
    case 3
    then show ?thesis using assms(2,3) by simp
  qed
qed

definition walks ::
  "nat \<Rightarrow> owner \<Rightarrow> (usize \<Rightarrow> u64) \<Rightarrow> ('al, 'e) modifier \<Rightarrow>
   (usize \<Rightarrow> region \<Rightarrow> ('al, 'e) walk_state \<Rightarrow> unit outcome \<times> ('al, 'e) walk_state) \<Rightarrow> bool" where
  "walks n own m f w \<longleftrightarrow> (\<forall>t r rg ws. own t = Some (r, path n (start_address rg)) \<longrightarrow>
     4096 dvd lo rg \<longrightarrow> 4096 dvd hi rg \<longrightarrow> lo rg < hi rg \<longrightarrow> hi rg \<le> 2 ^ 48 \<longrightarrow>
     lo rg div 2 ^ (21 + 9 * n) = (hi rg - 1) div 2 ^ (21 + 9 * n) \<longrightarrow>
     upper_same own m (pt_mem (fst ws)) \<longrightarrow>
     w t rg ws = st_iter (at_level n f t) (iter_pages rg) ws)"

lemma walks_L3: "walks 0 own m f (walk_L3 f)"
  by (simp add: walks_def walk_L3_def at_level_def [abs_def])

lemma at_level_down:
  assumes "next_table_address (pt_mem (fst ws) (slot t (ix (lvl (Suc n)) va))) = Some u"
  shows "at_level (Suc n) f t va ws = at_level n f u va ws"
  using assms by (simp add: at_level_def)

lemma at_level_stop:
  assumes "next_table_address (pt_mem (fst ws) (slot t (ix (lvl (Suc n)) va))) = None"
  shows "at_level (Suc n) f t va ws =
    (if is_valid (pt_mem (fst ws) (slot t (ix (lvl (Suc n)) va)))
     then (Err (MappingError NotL3Mapped), ws) else (Ok (), ws))"
  using assms by (simp add: at_level_def)

text \<open>One entry of a table: \<open>J\<close> counts the blocks of that level from address 0.\<close>

lemma walk_entry_pages:
  fixes f :: "('al, 'e) modifier"
  assumes w: "walks n own m f w" and n: "n < 3"
    and tree: "pt_tree own m" and kf: "keeps_upper own f"
    and t: "own t = Some (r, path (Suc n) (start_address rg))"
    and rg: "lo rg = 4096 * a" "hi rg = 4096 * b" "hi rg \<le> 2 ^ 48"
    and same: "lo rg div 2 ^ (21 + 9 * Suc n) = J div 512"
    and J: "J * 512 ^ Suc n < b" "a < Suc J * 512 ^ Suc n"
    and e: "add_bytes base (idx * push_bit (SHIFT (lvl (Suc n))) 1) = e" "unat e = 4096 * (J * 512 ^ Suc n)"
    and I: "upper_same own m (pt_mem (fst ws))" and ab: "a < b"
  shows "walk_entry (lvl (Suc n)) w t rg base idx ws =
    st_iter (at_level (Suc n) f t) (pages_from (max a (J * 512 ^ Suc n)) (min b (Suc J * 512 ^ Suc n))) ws"
proof -
  define P :: nat where "P = 512 ^ Suc n"
  define c :: nat where "c = 2 ^ (21 + 9 * n)"
  have cP: "c = 4096 * P"
  proof -
    have "(2 :: nat) ^ (12 + 9 * Suc n) = 2 ^ 12 * (2 ^ 9) ^ Suc n" by (simp only: power_add power_mult)
    then show ?thesis by (simp add: c_def P_def)
  qed
  have P0: "0 < P" by (simp add: P_def)
  have S: "SHIFT (lvl (Suc n)) = 21 + 9 * n" using n SHIFT_lvl [of "Suc n"] by simp
  have c48: "c * 512 dvd 2 ^ 48" "c * 512 = 2 ^ (21 + 9 * Suc n)" "c \<le> 2 ^ 39"
  proof -
    show p: "c * 512 = 2 ^ (21 + 9 * Suc n)"
      unfolding c_def using power_add [of "2 :: nat" "21 + 9 * n" 9] by (simp add: add.commute)
    show "c * 512 dvd 2 ^ 48" unfolding p using n by (intro le_imp_power_dvd) simp
    show "c \<le> 2 ^ 39" unfolding c_def using n by (intro power_increasing) simp_all
  qed
  have b48: "b \<le> 2 ^ 36" using rg(2,3) by simp
  have Jb: "Suc J * P \<le> 2 ^ 36"
  proof -
    have "4096 * P dvd 4096 * 2 ^ 36" using dvd_trans [OF dvd_triv_left c48(1)] unfolding cP by simp
    then have "P dvd 2 ^ 36" by simp
    then obtain q where q: "(2 :: nat) ^ 36 = P * q" by (rule dvdE)
    have "J * P < q * P" using J(1) b48 q unfolding P_def [symmetric] by (simp add: mult.commute)
    then have "Suc J \<le> q" using P0 by simp
    then show ?thesis unfolding q by (metis mult.commute mult_le_mono1)
  qed
  let ?pages = "pages_from (max a (J * P)) (min b (Suc J * P))"
  let ?j = "ix (lvl (Suc n)) e"
  have ue: "unat e = J * c" using e(2) unfolding P_def [symmetric] cP by simp
  have blk: "ix (lvl (Suc n)) va = ?j \<and> path (Suc n) va = path (Suc n) (start_address rg)"
    if va: "J * c \<le> unat va" "unat va < Suc J * c" "unat va < 2 ^ 48" for va :: usize
  proof -
    have d: "unat va div c = J" using va by (intro div_nat_eqI) (simp_all add: mult.commute)
    have c0: "0 < c" by (simp add: c_def)
    have "ix (lvl (Suc n)) va = J mod 512" using d by (simp add: unat_pg_index S c_def)
    moreover have "?j = J mod 512" using ue c0 by (simp add: unat_pg_index S flip: c_def)
    moreover have "path (Suc n) va = path (Suc n) (start_address rg)"
    proof -
      have "unat va div 2 ^ (21 + 9 * Suc n) = J div 512"
        unfolding c48(2) [symmetric] by (simp add: div_mult2_eq d)
      moreover have "unat (start_address rg) < 2 ^ 48"
        using rg ab unfolding unat_start_address by linarith
      ultimately show ?thesis
        using path_same [OF _ \<open>unat (start_address rg) < 2 ^ 48\<close> va(3), of "Suc n"] n same
        unfolding unat_start_address by simp
    qed
    ultimately show ?thesis by simp
  qed
  have pg: "J * c \<le> unat va \<and> unat va < Suc J * c \<and> unat va < 2 ^ 48" if "va \<in> set ?pages" for va
  proof -
    obtain k where k: "va = of_nat (4096 * k)" "J * P \<le> k" "k < Suc J * P"
      using \<open>va \<in> set ?pages\<close> by (auto simp: pages_from_def)
    have "4096 * k < 2 ^ 48" using k(3) Jb by simp
    then have "unat va = 4096 * k" unfolding k(1) by (simp add: unat_of_nat del: of_nat_mult)
    then show ?thesis using k(2,3) \<open>4096 * k < 2 ^ 48\<close> unfolding cP
      by (metis mult.left_commute mult_le_mono2 nat_mult_less_cancel1 zero_less_numeral)
  qed
  have len: "length (path (Suc n) (start_address rg)) < 3" using n by simp
  have slot: "pt_mem (fst ws') (slot t (ix (lvl (Suc n)) va)) = m (slot t ?j)"
    if "upper_same own m (pt_mem (fst ws'))" "va \<in> set ?pages" for ws' :: "('al, 'e) walk_state" and va
  proof -
    have i: "ix (lvl (Suc n)) va = ?j" using blk pg [OF that(2)] by blast
    show ?thesis unfolding i by (rule upper_sameD [OF that(1) t len ix_less])
  qed
  note at = upper_sameD [OF I t len ix_less, of "lvl (Suc n)" e]
  have we: "walk_entry (lvl (Suc n)) w t rg base idx ws =
    (case next_table_address (m (slot t ?j)) of
       Some u \<Rightarrow> st_then (intersection (new_region e (push_bit (SHIFT (lvl (Suc n))) 1)) rg, ws) (\<lambda>x ws.
          case x of Some sub \<Rightarrow> w u sub ws | None \<Rightarrow> (Panic, ws))
     | None \<Rightarrow> if is_valid (m (slot t ?j)) then (Err (MappingError NotL3Mapped), ws) else (Ok (), ws))"
    unfolding walk_entry_def Let_def e(1) get_desc_slot at by (simp split: option.split)
  have lt: "max a (J * P) < min b (Suc J * P)"
    using J ab P0 unfolding P_def [symmetric] by simp
  show ?thesis
    unfolding P_def [symmetric]
  proof (cases "next_table_address (m (slot t ?j))")
    case None
    show "walk_entry (lvl (Suc n)) w t rg base idx ws = st_iter (at_level (Suc n) f t) ?pages ws"
    proof (cases "is_valid (m (slot t ?j))")
      case True
      obtain va vs where p: "?pages = va # vs" using lt by (auto simp: pages_from_def upt_rec)
      then have "va \<in> set ?pages" by simp
      from slot [OF I this] show ?thesis
        unfolding p using None True at_level_stop [of ws t n va f] by (simp add: we)
    next
      case False
      have "at_level (Suc n) f t va ws = (Ok (), ws)" if "va \<in> set ?pages" for va
        using slot [OF I that] None False at_level_stop [of ws t n va f] by simp
      then have "st_iter (at_level (Suc n) f t) ?pages ws = (Ok (), ws)" by (rule st_iter_skip)
      moreover have "walk_entry (lvl (Suc n)) w t rg base idx ws = (Ok (), ws)"
        using None False by (simp add: we)
      ultimately show ?thesis by metis
    qed
  next
    case (Some u)
    have pb: "unat (2 ^ SHIFT (lvl (Suc n)) :: usize) = c"
      using n unfolding S c_def by (simp add: unat_exp)
    have er: "lo (new_region e (push_bit (SHIFT (lvl (Suc n))) 1)) = J * c"
      "hi (new_region e (push_bit (SHIFT (lvl (Suc n))) 1)) = Suc J * c"
      by (simp_all add: new_region_def lo_def hi_def ue pb)
    have SJ: "Suc J * c \<le> 2 ^ 48" using Jb unfolding cP by simp
    have wf: "wf_region (new_region e (push_bit (SHIFT (lvl (Suc n))) 1))" "wf_region rg"
      unfolding wf_region_def er
      using order.strict_trans1 [OF SJ, of "2 ^ 64"] order.strict_trans1 [OF rg(3), of "2 ^ 64"] by simp_all
    obtain x where x: "intersection (new_region e (push_bit (SHIFT (lvl (Suc n))) 1)) rg = Ok x"
      "opt_bytes x = {J * c..<Suc J * c} \<inter> {lo rg..<hi rg}"
      "\<And>i. x = Some i \<Longrightarrow> lo i = max (J * c) (lo rg) \<and> hi i = min (Suc J * c) (hi rg) \<and> lo i < hi i"
      using intersection_Ok [OF wf] unfolding bytes_of_def er by blast
    have mm: "max (J * c) (lo rg) = 4096 * max a (J * P)" "min (Suc J * c) (hi rg) = 4096 * min b (Suc J * P)"
      unfolding cP rg by (simp_all add: nat_mult_max_right nat_mult_min_right max.commute min.commute mult.left_commute)
    have ne: "max (J * c) (lo rg) < min (Suc J * c) (hi rg)" unfolding mm using lt by simp
    then have "max (J * c) (lo rg) \<in> opt_bytes x" unfolding x(2) by simp
    then obtain i where i: "x = Some i" by (cases x) auto
    note b = x(3) [OF i, unfolded mm]
    have ip: "iter_pages i = ?pages" using b by (subst iter_pages_eq) simp_all
    have li: "J * c \<le> lo i" "lo i < Suc J * c" "hi i \<le> Suc J * c" using x(3) [OF i] ne by auto
    have st: "unat (start_address i) = lo i" by (simp add: unat_start_address)
    have pi: "ix (lvl (Suc n)) (start_address i) = ?j"
      "path (Suc n) (start_address i) = path (Suc n) (start_address rg)"
      using blk [of "start_address i"] li SJ unfolding st by auto
    have u: "own u = Some (r, path n (start_address i))"
      using pt_treeD(3) [OF tree t len ix_less Some] path_step [OF n, of "start_address i"] pi by simp
    have "lo i < hi i" using x(3) [OF i] by blast
    then have "J * c \<le> hi i - 1" "hi i - 1 < Suc J * c" using li by linarith+
    then have dv: "lo i div c = J" "(hi i - 1) div c = J"
      using li(1,2) by (simp_all only: mult.commute [of _ c] div_nat_eqI)
    have f: "4096 dvd lo i" "4096 dvd hi i" "hi i \<le> 2 ^ 48"
      "lo i div 2 ^ (21 + 9 * n) = (hi i - 1) div 2 ^ (21 + 9 * n)"
      using b order_trans [OF li(3) SJ] dv [unfolded c_def] by simp_all
    have "walk_entry (lvl (Suc n)) w t rg base idx ws = w u i ws" using Some x(1) i by (simp add: we)
    also have "\<dots> = st_iter (at_level n f u) (iter_pages i) ws"
      by (rule w [unfolded walks_def, rule_format, OF u f(1,2) \<open>lo i < hi i\<close> f(3,4) I])
    also have "\<dots> = st_iter (at_level (Suc n) f t) ?pages ws"
      unfolding ip
    proof (rule st_iter_cong [where I = "\<lambda>ws. upper_same own m (pt_mem (fst ws))", THEN conjunct1, symmetric])
      fix va and ws' :: "('al, 'e) walk_state"
      assume va: "va \<in> set ?pages" "upper_same own m (pt_mem (fst ws'))"
      have "path (Suc n) va = path (Suc n) (start_address rg)" using blk pg [OF va(1)] by blast
      then have "upper_same own m (pt_mem (fst (snd (at_level (Suc n) f t va ws'))))"
        using at_level_upper [OF kf tree va(2), of t r "Suc n" va] t n by simp
      then show "at_level (Suc n) f t va ws' = at_level n f u va ws' \<and>
          upper_same own m (pt_mem (fst (snd (at_level (Suc n) f t va ws'))))"
        using at_level_down slot [OF va(2,1)] Some by metis
    qed (rule I)
    finally show "walk_entry (lvl (Suc n)) w t rg base idx ws = st_iter (at_level (Suc n) f t) ?pages ws" .
  qed
qed

lemma pages_split:
  assumes "a < Suc J * P"
  shows "pages_from (max a (J * P)) b =
    pages_from (max a (J * P)) (min b (Suc J * P)) @ pages_from (max a (Suc J * P)) b"
proof (cases "b \<le> Suc J * P")
  case True
  then have "pages_from (max a (Suc J * P)) b = []" by (simp add: pages_from_def)
  then show ?thesis using True by (simp add: min_def)
next
  case False
  then have "pages_from (max a (J * P)) b =
      pages_from (max a (J * P)) (Suc J * P) @ pages_from (Suc J * P) b"
    using assms by (intro pages_from_append) auto
  then show ?thesis using False assms by (simp add: max_def min_def)
qed

lemma st_iter_inv:
  assumes "\<And>x s. x \<in> set xs \<Longrightarrow> I s \<Longrightarrow> I (snd (f x s))" "I s"
  shows "I (snd (st_iter f xs s))"
  using st_iter_cong [of xs I f f s] assms by blast

lemma walks_table:
  fixes f :: "('al, 'e) modifier"
  assumes w: "walks n own m f w" and n: "n < 3" and tree: "pt_tree own m" and kf: "keeps_upper own f"
  shows "walks (Suc n) own m f (walk_table (lvl (Suc n)) w)"
  unfolding walks_def
proof (intro allI impI)
  fix t r rg and ws :: "('al, 'e) walk_state"
  assume t: "own t = Some (r, path (Suc n) (start_address rg))" and dl: "4096 dvd lo rg" and dh: "4096 dvd hi rg"
    and ne: "lo rg < hi rg" and h48: "hi rg \<le> 2 ^ 48"
    and same: "lo rg div 2 ^ (21 + 9 * Suc n) = (hi rg - 1) div 2 ^ (21 + 9 * Suc n)"
    and I: "upper_same own m (pt_mem (fst ws))"
  define P :: nat where "P = 512 ^ Suc n"
  define c :: nat where "c = 2 ^ (21 + 9 * n)"
  define q where "q = lo rg div 2 ^ (21 + 9 * Suc n)"
  obtain a b where ab: "lo rg = 4096 * a" "hi rg = 4096 * b" using dl dh by (auto simp: dvd_def)
  have cP: "c = 4096 * P"
  proof -
    have "(2 :: nat) ^ (12 + 9 * Suc n) = 2 ^ 12 * (2 ^ 9) ^ Suc n" by (simp only: power_add power_mult)
    then show ?thesis by (simp add: c_def P_def)
  qed
  have c512: "(2 :: nat) ^ (21 + 9 * Suc n) = c * 512"
    unfolding c_def using power_add [of "2 :: nat" "21 + 9 * n" 9] by (simp add: add.commute)
  have c0: "0 < c" by (simp add: c_def)
  have S: "SHIFT (lvl (Suc n)) = 21 + 9 * n" using n SHIFT_lvl [of "Suc n"] by simp
  let ?s = "ix (lvl (Suc n)) (start_address rg)" and ?e = "ix (lvl (Suc n)) (end_address_inclusive rg)"
  have ei: "unat (end_address_inclusive rg) = hi rg - 1"
    using ne h48 by (simp add: end_address_inclusive_def unat_add_usize unat_saturating_sub hi_def lo_def)
  have s: "lo rg div c = q * 512 + ?s"
    unfolding q_def c512 by (simp add: unat_pg_index S unat_start_address div_mult2_eq flip: c_def)
  have e: "(hi rg - 1) div c = q * 512 + ?e"
    unfolding q_def same unfolding c512 by (simp add: unat_pg_index S ei div_mult2_eq flip: c_def)
  obtain base where base: "align (start_address rg) (push_bit (SHIFT (lvl (Suc n)) + 9) 1) = Ok base"
    "unat base = q * 512 * c"
  proof -
    have p: "(push_bit (SHIFT (lvl (Suc n)) + 9) 1 :: usize) = 2 ^ (21 + 9 * Suc n)" unfolding S by simp
    have k: "21 + 9 * Suc n < 64" using n by simp
    have "is_power_of_two (2 ^ (21 + 9 * Suc n) :: usize)" using k by (intro is_power_of_two_exp) simp
    from align_Ok [OF this, of "start_address rg"] obtain z where
      z: "align (start_address rg) (2 ^ (21 + 9 * Suc n)) = Ok z"
      "unat z = round_down (unat (2 ^ (21 + 9 * Suc n) :: usize)) (lo rg)"
      unfolding unat_start_address by blast
    have "unat (2 ^ (21 + 9 * Suc n) :: usize) = 2 ^ (21 + 9 * Suc n)" using k by (intro unat_exp) simp
    then have "unat z = q * (c * 512)" using z(2) unfolding round_down_def q_def c512 by metis
    then show ?thesis using that [of z] z(1) unfolding p by (simp add: mult.commute mult.left_commute)
  qed
  have step: "st_iter (walk_entry (lvl (Suc n)) w t rg base) (map of_nat [i..<Suc ?e]) ws' =
      st_iter (at_level (Suc n) f t) (pages_from (max a ((q * 512 + i) * P)) b) ws'"
    if i: "?s \<le> i" "i \<le> Suc ?e" "upper_same own m (pt_mem (fst ws'))" for i and ws' :: "('al, 'e) walk_state"
    using i(2,1,3)
  proof (induction i arbitrary: ws' rule: inc_induct)
    case base
    have "hi rg - 1 < (q * 512 + Suc ?e) * c"
      using dividend_less_div_times [OF c0, of "hi rg - 1"] unfolding e by (simp add: algebra_simps)
    then have "b \<le> (q * 512 + Suc ?e) * P" unfolding ab(2) cP by simp
    then show ?case by (simp add: pages_from_def del: mult_Suc mult_Suc_right add_Suc_right)
  next
    case (step i)
    let ?J = "q * 512 + i"
    have Ja: "a < Suc ?J * P"
    proof -
      have "lo rg < Suc (lo rg div c) * c" using dividend_less_div_times [OF c0] by simp
      also have "\<dots> \<le> Suc ?J * c" unfolding s using step.prems(1) by (intro mult_le_mono1) simp
      finally show ?thesis unfolding ab cP by simp
    qed
    have Jb: "?J * P < b"
    proof -
      have "?J * c \<le> (hi rg - 1) div c * c" unfolding e using step.hyps by (intro mult_le_mono1) simp
      also have "\<dots> \<le> hi rg - 1" by simp
      finally have "?J * c < hi rg" using ne by linarith
      then show ?thesis unfolding ab cP by simp
    qed
    have i512: "i < 512" using step.hyps ix_less [of "lvl (Suc n)" "end_address_inclusive rg"] by linarith
    have Jc: "?J * c < 2 ^ 48" using Jb h48 unfolding ab cP by linarith
    define ev where "ev = add_bytes base (of_nat i * push_bit (SHIFT (lvl (Suc n))) 1)"
    have "unat ev = ?J * c"
    proof -
      have "unat (of_nat i * push_bit (SHIFT (lvl (Suc n))) 1 :: usize) = i * c"
      proof -
        have "unat (of_nat i :: usize) = i" using i512 by (simp add: unat_of_nat)
        moreover have "unat (2 ^ (21 + 9 * n) :: usize) = c" using n by (simp add: unat_exp c_def)
        moreover have "i * c < 2 ^ 64" using Jc by (simp add: algebra_simps)
        ultimately show ?thesis unfolding S by (simp add: unat_word_ariths)
      qed
      then show ?thesis unfolding ev_def add_bytes_def
        using Jc base(2) by (subst unat_add_usize) (simp_all add: algebra_simps)
    qed
    then have uev: "unat ev = 4096 * (?J * 512 ^ Suc n)" unfolding cP P_def by simp
    have J512: "lo rg div 2 ^ (21 + 9 * Suc n) = ?J div 512" using i512 unfolding q_def [symmetric] by simp
    have a_lt: "a < b" using ne unfolding ab by simp
    have we: "walk_entry (lvl (Suc n)) w t rg base (of_nat i) ws' =
        st_iter (at_level (Suc n) f t) (pages_from (max a (?J * P)) (min b (Suc ?J * P))) ws'"
      unfolding P_def
      by (rule walk_entry_pages [OF w n tree kf t ab h48 J512 _ _ ev_def [symmetric] uev step.prems(2) a_lt])
        (use Ja Jb in \<open>simp_all only: P_def\<close>)
    have inv: "upper_same own m (pt_mem (fst (snd
        (st_iter (at_level (Suc n) f t) (pages_from (max a (?J * P)) (min b (Suc ?J * P))) ws'))))"
      (is "?I (snd (st_iter _ ?ps ws'))")
    proof (rule st_iter_inv [where I = ?I])
      fix va and ws'' :: "('al, 'e) walk_state"
      assume va: "va \<in> set ?ps" "?I ws''"
      obtain k where k: "va = of_nat (4096 * k)" "?J * P \<le> k" "k < Suc ?J * P" "k < b"
        using va(1) by (auto simp: pages_from_def)
      have k48: "4096 * k < 2 ^ 48" using k(4) h48 unfolding ab by linarith
      have uv: "unat va = 4096 * k" using k48 unfolding k(1) by (simp add: unat_of_nat del: of_nat_mult)
      have "k div P = ?J"
        using k(2,3) unfolding mult.commute [of ?J P] mult.commute [of "Suc ?J" P] by (rule div_nat_eqI)
      then have "unat va div c = ?J" unfolding uv cP by simp
      then have "unat va div 2 ^ (21 + 9 * Suc n) = q" unfolding c512 using i512 by (simp add: div_mult2_eq)
      then have "path (Suc n) va = path (Suc n) (start_address rg)"
        using path_same [of "Suc n" "start_address rg" va] n k48 uv ne h48 unfolding unat_start_address q_def
        by simp
      then show "?I (snd (at_level (Suc n) f t va ws''))"
        using at_level_upper [OF kf tree va(2), of t r "Suc n" va] t n by simp
    qed (use step.prems in simp)
    have "(map of_nat [i..<Suc ?e] :: usize list) = of_nat i # map of_nat [Suc i..<Suc ?e]"
      using step.hyps by (simp add: upt_rec)
    then have "st_iter (walk_entry (lvl (Suc n)) w t rg base) (map of_nat [i..<Suc ?e]) ws' =
        st_then (st_iter (at_level (Suc n) f t) (pages_from (max a (?J * P)) (min b (Suc ?J * P))) ws')
          (\<lambda>_ z. st_iter (walk_entry (lvl (Suc n)) w t rg base) (map of_nat [Suc i..<Suc ?e]) z)"
      by (simp only: st_iter.simps we)
    also have "\<dots> =
        st_then (st_iter (at_level (Suc n) f t) (pages_from (max a (?J * P)) (min b (Suc ?J * P))) ws')
          (\<lambda>_ z. st_iter (at_level (Suc n) f t) (pages_from (max a (Suc ?J * P)) b) z)"
    proof (rule st_then_cong [OF refl])
      fix x z
      assume "st_iter (at_level (Suc n) f t) (pages_from (max a (?J * P)) (min b (Suc ?J * P))) ws' =
          (Ok x, z)"
      then have "upper_same own m (pt_mem (fst z))" using inv by simp
      then show "st_iter (walk_entry (lvl (Suc n)) w t rg base) (map of_nat [Suc i..<Suc ?e]) z =
          st_iter (at_level (Suc n) f t) (pages_from (max a (Suc ?J * P)) b) z"
        using step.IH [of z] step.prems(1) by simp
    qed
    also have "\<dots> = st_iter (at_level (Suc n) f t) (pages_from (max a (?J * P)) b) ws'"
      unfolding pages_split [OF Ja, of b] st_iter_append ..
    finally show ?case .
  qed
  have max: "max a ((q * 512 + ?s) * P) = a"
  proof -
    have "(q * 512 + ?s) * c \<le> lo rg" unfolding s [symmetric] by simp
    then show ?thesis unfolding ab cP by (simp add: max_def)
  qed
  have se: "?s \<le> Suc ?e"
  proof -
    have "lo rg div c \<le> (hi rg - 1) div c" using ne by (intro div_le_mono) simp
    then show ?thesis unfolding s e by simp
  qed
  have ip: "iter_pages rg = pages_from a b" using iter_pages_eq [OF dl dh] ab by simp
  show "walk_table (lvl (Suc n)) w t rg ws = st_iter (at_level (Suc n) f t) (iter_pages rg) ws"
    using step [OF order_refl se I] unfolding walk_table_def Let_def base(1) ip max by simp
qed

lemma walk_and_modify_region_run:
  assumes tree: "pt_tree own (pt_mem (fst ws))" and root: "own root = Some (root, [])"
    and f: "keeps_upper own f"
    and rg: "4096 dvd lo rg" "4096 dvd hi rg" "hi rg \<le> 2 ^ 48"
  shows "walk_and_modify_region f root rg ws = st_iter (at_page f root) (iter_pages rg) ws"
proof (cases "rg_size rg = 0")
  case True
  then have "iter_pages rg = []" by (simp add: iter_pages_def)
  then show ?thesis
    using True rg(1) by (simp add: walk_and_modify_region_def region_is_page_aligned_def
        is_page_aligned_iff unat_address)
next
  case False
  have ne: "lo rg < hi rg" using False by (simp add: lo_def hi_def unat_gt_0)
  have "walks (Suc 2) own (pt_mem (fst ws)) f (walk_table (lvl (Suc 2)) (walk_table (lvl (Suc 1))
      (walk_table (lvl (Suc 0)) (walk_L3 f))))"
    using walks_table [OF walks_table [OF walks_table [OF walks_L3 _ tree f] _ tree f] _ tree f]
    by (simp add: numeral_2_eq_2)
  then have w: "walks 3 own (pt_mem (fst ws)) f (walk f)"
    by (simp add: walk_def numeral_2_eq_2 numeral_3_eq_3)
  have r: "own root = Some (root, path 3 (start_address rg))" using root by simp
  have d: "lo rg div 2 ^ (21 + 9 * 3) = (hi rg - 1) div 2 ^ (21 + 9 * 3)"
    using rg(3) ne by simp
  have "walk f root rg ws = st_iter (at_level 3 f root) (iter_pages rg) ws"
    using w [unfolded walks_def, rule_format, OF r rg(1,2) ne rg(3) d] by (simp add: upper_same_def)
  then show ?thesis
    using False rg(1) by (simp add: walk_and_modify_region_def region_is_page_aligned_def
        is_page_aligned_iff unat_address at_page_def)
qed

text \<open>C15. The recursive walk over a page-aligned region below \<open>2 ^ 48\<close> does exactly what a page-by-page loop
  does that walks down from the root for each page of the region in ascending order: same outcome,
  same tables, same captured variables, also when it stops with an error at a block mapping or in
  the modifier. Like the loop, the walk passes over pages without a mapping, without an error. The
  modifier must leave the upper tables of the walked address space alone; it may fail and may change
  anything else, such as the tables of another address space.\<close>

theorem walk_and_modify_region_eq:
  assumes "pt_tree own (pt_mem (fst ws))" "own root = Some (root, [])" "keeps_upper own f"
    "4096 dvd lo rg" "4096 dvd hi rg" "hi rg \<le> 2 ^ 48"
  shows "walk_and_modify_region f root rg ws = st_iter (at_page f root) (iter_pages rg) ws"
  using assms by (rule walk_and_modify_region_run)

section \<open>Modifiers that only rewrite the descriptor\<close>

definition present :: "(usize \<Rightarrow> u64) \<Rightarrow> usize \<Rightarrow> usize \<Rightarrow> bool" where
  "present m root va \<longleftrightarrow> fst (entry m root va) = 0 \<and> occupied m root va"

abbreviation pte :: "(usize \<Rightarrow> u64) \<Rightarrow> usize \<Rightarrow> usize \<Rightarrow> u64" where
  "pte m root va \<equiv> snd (entry m root va)"

text \<open>No part of the region is mapped by a block.\<close>

definition no_blocks :: "(usize \<Rightarrow> u64) \<Rightarrow> usize \<Rightarrow> region \<Rightarrow> bool" where
  "no_blocks m root rg \<longleftrightarrow> (\<forall>va. lo rg \<le> unat va \<and> unat va < hi rg \<and> occupied m root va \<longrightarrow> present m root va)"

lemma ix_page: "ix l (page_aligned va) = ix l va"
proof -
  have "x div 4096 * 4096 div 2 ^ SHIFT l = x div 2 ^ SHIFT l" for x :: nat
  proof -
    have p: "(2 :: nat) ^ SHIFT l = 4096 * 2 ^ (SHIFT l - 12)"
      using power_add [of "2 :: nat" 12 "SHIFT l - 12"] SHIFT_bounds(1) [of l] by simp
    show ?thesis unfolding p by (simp add: div_mult2_eq)
  qed
  then show ?thesis by (simp add: unat_pg_index unat_page_aligned round_down_def)
qed

lemma leaf_page: "leaf n m t (page_aligned va) = leaf n m t va"
  by (induction n arbitrary: t) (simp_all add: ix_page split: option.split)

lemma entry_page [simp]: "entry m root (page_aligned va) = entry m root va"
  by (simp add: entry_def leaf_page ix_page split: prod.split)

lemma same_page_iff:
  assumes "unat va < 2 ^ 48" "unat va' < 2 ^ 48"
  shows "path 0 va' = path 0 va \<and> ix L3 va' = ix L3 va \<longleftrightarrow> page_aligned va' = page_aligned va"
proof -
  have "page_aligned va' = page_aligned va \<longleftrightarrow> unat va' div 4096 = unat va div 4096"
    by (simp add: word_unat_eq_iff unat_page_aligned round_down_def)
  then show ?thesis using same_block [OF assms, of 0] by simp
qed

lemma write_pte:
  fixes d :: u64
  assumes tree: "pt_tree own m" and root: "own root = Some (root, [])"
    and l: "leaf 3 m root va = (0, u)" and va: "unat va < 2 ^ 48"
  defines "m' \<equiv> m(slot u (ix L3 va) := d)"
  shows "upper_same own m m'" "pt_tree own m'"
    and "\<lbrakk>own r = Some (r, []); unat va' < 2 ^ 48\<rbrakk> \<Longrightarrow> entry m' r va' =
      (if r = root \<and> page_aligned va' = page_aligned va then (0, d) else entry m r va')"
proof -
  have u: "own u = Some (root, path 0 va)" using leaf_owned [OF tree _ _ l] root by simp
  show up: "upper_same own m m'" unfolding m'_def by (rule upper_same_L3 [OF tree u])
  show tree': "pt_tree own m'" by (rule upper_same_tree [OF tree up])
  assume r: "own r = Some (r, [])" and va': "unat va' < 2 ^ 48"
  obtain k v where lk: "leaf 3 m r va' = (k, v)" by (metis prod.exhaust)
  have lk': "leaf 3 m' r va' = (k, v)"
    unfolding lk [symmetric]
  proof (rule leaf_cong [OF tree _ r])
    show "next_table_address (m' (slot x j)) = next_table_address (m (slot x j))"
      if "own x = Some (y, p)" "length p < 3" "j < 512" for x y p j
      using upper_sameD [OF up that] by simp
  qed simp
  have v: "k \<le> 3" "own v = Some (r, path k va')" using leaf_owned [OF tree _ _ lk] r by auto
  have sl: "slot v (ix (lvl k) va') = slot u (ix L3 va) \<longleftrightarrow> v = u \<and> ix (lvl k) va' = ix L3 va"
    by (rule slot_eq_iff [OF pt_treeD(1) [OF tree v(2)] pt_treeD(1) [OF tree u]]) simp_all
  have iff: "v = u \<and> ix (lvl k) va' = ix L3 va \<longleftrightarrow> r = root \<and> page_aligned va' = page_aligned va"
  proof
    assume e: "v = u \<and> ix (lvl k) va' = ix L3 va"
    then have p: "r = root" "path k va' = path 0 va" using u v(2) by auto
    from arg_cong [OF p(2), of length] have "k = 0" using v(1) by simp
    then show "r = root \<and> page_aligned va' = page_aligned va"
      using same_page_iff [OF va va'] e p by simp
  next
    assume e: "r = root \<and> page_aligned va' = page_aligned va"
    then have "leaf 3 m r va' = (0, u)" using l leaf_page [of 3 m root va] leaf_page [of 3 m root va'] by simp
    then show "v = u \<and> ix (lvl k) va' = ix L3 va"
      using lk ix_page [of L3 va] ix_page [of L3 va'] e by simp
  qed
  show "entry m' r va' =
      (if r = root \<and> page_aligned va' = page_aligned va then (0, d) else entry m r va')"
  proof (cases "r = root \<and> page_aligned va' = page_aligned va")
    case True
    then have "k = 0" using lk l leaf_page [of 3 m root va] leaf_page [of 3 m root va'] by simp
    then show ?thesis using True lk' sl iff by (simp add: entry_def m'_def)
  next
    case False
    then have "slot v (ix (lvl k) va') \<noteq> slot u (ix L3 va)" unfolding sl iff .
    then have "m' (slot v (ix (lvl k) va')) = m (slot v (ix (lvl k) va'))" by (simp add: m'_def)
    then show ?thesis unfolding if_not_P [OF False] using lk lk' by (simp add: entry_def)
  qed
qed

text \<open>The entries after the pages \<open>vs\<close> have been rewritten with \<open>g\<close>.\<close>

definition rewritten ::
  "(usize \<Rightarrow> u64 \<Rightarrow> u64) \<Rightarrow> owner \<Rightarrow> usize \<Rightarrow> usize set \<Rightarrow> (usize \<Rightarrow> u64) \<Rightarrow> (usize \<Rightarrow> u64) \<Rightarrow> bool" where
  "rewritten g own root vs m m' \<longleftrightarrow> (\<forall>r va. own r = Some (r, []) \<and> unat va < 2 ^ 48 \<longrightarrow>
     entry m' r va = (if r = root \<and> page_aligned va \<in> vs \<and> present m root va
       then (0, g (page_aligned va) (pte m root va)) else entry m r va))"

lemma rewrite_pages:
  fixes g :: "usize \<Rightarrow> u64 \<Rightarrow> u64" and h :: "usize \<Rightarrow> u64 \<Rightarrow> 'e \<Rightarrow> 'e" and s :: "'al pt_state"
  defines "f \<equiv> \<lambda>va d (s :: 'al pt_state, e :: 'e). (Ok (g va d), (s, h va d e))"
  assumes tree: "pt_tree own (pt_mem s)" and root: "own root = Some (root, [])"
    and vs: "distinct vs" "\<forall>va\<in>set vs. page_aligned va = va \<and> unat va < 2 ^ 48 \<and>
      (occupied (pt_mem s) root va \<longrightarrow> present (pt_mem s) root va)"
  shows "\<exists>m'. st_iter (at_page f root) vs (s, e) = (Ok (), (s\<lparr>pt_mem := m'\<rparr>,
      fold (\<lambda>va e. if present (pt_mem s) root va then h va (pte (pt_mem s) root va) e else e) vs e)) \<and>
    pt_tree own m' \<and> rewritten g own root (set vs) (pt_mem s) m'"
  using tree vs
proof (induction vs arbitrary: s e)
  case Nil
  then show ?case by (intro exI [of _ "pt_mem s"]) (simp add: rewritten_def)
next
  case (Cons va vs)
  let ?m = "pt_mem s"
  have va: "page_aligned va = va" "unat va < 2 ^ 48" "occupied ?m root va \<longrightarrow> present ?m root va"
    using Cons.prems(3) by auto
  show ?case
  proof (cases "present ?m root va")
    case False
    then have "\<not> occupied ?m root va" using va(3) by blast
    then have step: "at_page f root va (s, e) = (Ok (), (s, e))"
      by (auto simp: at_page_def at_level_def modify_page_def get_desc_slot occupied_def entry_def
          split: prod.splits)
    obtain m' where m': "st_iter (at_page f root) vs (s, e) = (Ok (), (s\<lparr>pt_mem := m'\<rparr>,
        fold (\<lambda>va e. if present ?m root va then h va (pte ?m root va) e else e) vs e))"
      "pt_tree own m'" "rewritten g own root (set vs) ?m m'"
      using Cons.IH [of s e] Cons.prems by auto
    have "rewritten g own root (set (va # vs)) ?m m'"
      unfolding rewritten_def
    proof (intro allI impI)
      fix r and va' :: usize assume r: "own r = Some (r, []) \<and> unat va' < 2 ^ 48"
      have "\<not> present ?m root va'" if "page_aligned va' = va"
        using False entry_page [of ?m root va'] that by (simp add: present_def occupied_def)
      then show "entry m' r va' = (if r = root \<and> page_aligned va' \<in> set (va # vs) \<and> present ?m root va'
          then (0, g (page_aligned va') (pte ?m root va')) else entry ?m r va')"
        using m'(3) r unfolding rewritten_def by auto
    qed
    then show ?thesis using step m' False by (intro exI [of _ m']) simp
  next
    case True
    let ?d = "pte ?m root va"
    obtain u where l: "leaf 3 ?m root va = (0, u)"
      using True by (auto simp: present_def entry_def split: prod.splits)
    have d: "?m (slot u (ix L3 va)) = ?d" using l by (simp add: entry_def)
    define m1 where "m1 = ?m(slot u (ix L3 va) := g va ?d)"
    let ?s1 = "s\<lparr>pt_mem := m1\<rparr>"
    have pm: "pt_mem ?s1 = m1" by simp
    have step: "at_page f root va (s, e) = (Ok (), (?s1, h va ?d e))"
      using l d True
      by (simp add: at_page_def at_level_def modify_page_def get_desc_slot set_desc_slot f_def m1_def
          present_def occupied_def Let_def)
    note w = write_pte [OF Cons.prems(1) root l va(2), where d = "g va ?d", folded m1_def]
    have e1: "entry m1 root va' = entry ?m root va'" if "va' \<in> set vs" for va'
      using w(3) [OF root, of va'] that Cons.prems(2,3) va(1) by auto
    have p1: "present m1 root va' \<longleftrightarrow> present ?m root va'" "pte m1 root va' = pte ?m root va'"
      "occupied m1 root va' \<longleftrightarrow> occupied ?m root va'" if "va' \<in> set vs" for va'
      using e1 [OF that] by (simp_all add: present_def occupied_def)
    have "\<forall>va\<in>set vs. page_aligned va = va \<and> unat va < 2 ^ 48 \<and>
      (occupied (pt_mem ?s1) root va \<longrightarrow> present (pt_mem ?s1) root va)"
      using Cons.prems(3) p1 by simp
    then obtain m' where m': "st_iter (at_page f root) vs (?s1, h va ?d e) = (Ok (), (?s1\<lparr>pt_mem := m'\<rparr>,
        fold (\<lambda>va e. if present m1 root va then h va (pte m1 root va) e else e) vs (h va ?d e)))"
      "pt_tree own m'" "rewritten g own root (set vs) m1 m'"
      using Cons.IH [of ?s1 "h va ?d e", unfolded pm] w(2) Cons.prems(2) unfolding pm by auto
    have fo: "fold (\<lambda>va e. if present m1 root va then h va (pte m1 root va) e else e) vs (h va ?d e) =
        fold (\<lambda>va e. if present ?m root va then h va (pte ?m root va) e else e) (va # vs) e"
      using True p1 by (simp cong: fold_cong if_cong)
    have "rewritten g own root (set (va # vs)) ?m m'"
      unfolding rewritten_def
    proof (intro allI impI)
      fix r and va' :: usize assume r: "own r = Some (r, []) \<and> unat va' < 2 ^ 48"
      have m'e: "entry m' r va' = (if r = root \<and> page_aligned va' \<in> set vs \<and> present m1 root va'
          then (0, g (page_aligned va') (pte m1 root va')) else entry m1 r va')"
        using m'(3) r unfolding rewritten_def by blast
      show "entry m' r va' = (if r = root \<and> page_aligned va' \<in> set (va # vs) \<and> present ?m root va'
          then (0, g (page_aligned va') (pte ?m root va')) else entry ?m r va')"
      proof (cases "r = root \<and> page_aligned va' = va")
        case True
        then have "entry ?m root va' = entry ?m root va" using entry_page [of ?m root va'] by simp
        moreover have "page_aligned va' \<notin> set vs" using True Cons.prems(2) by auto
        ultimately show ?thesis
          using m'e w(3) [OF root, of va'] r True va(1) \<open>present ?m root va\<close>
          by (simp add: present_def occupied_def)
      next
        case False
        then have "entry m1 r va' = entry ?m r va'" using w(3) [of r va'] r va(1) by auto
        then show ?thesis using m'e False by (auto simp: present_def occupied_def)
      qed
    qed
    then show ?thesis using step m'(1,2) fo by (intro exI [of _ m']) simp
  qed
qed

end
