(* ===== verification/AddressSpaceProps.thy ===== *)
theory AddressSpaceProps
  imports PageWalkProps
begin

text \<open>
  The operations of an address space (\<open>src/arch/arm64/memory/address_space.rs\<close>): what unmapping,
  protecting and mapping a page do to the translation, to the frames behind it and to the other
  address spaces, and that mapping succeeds while frames are free. The concrete address space at the
  end serves the closed instances of the page-table theorems.
\<close>

lemma in_iter_pages:
  assumes "4096 dvd lo rg" "4096 dvd hi rg" "hi rg \<le> 2 ^ 48"
  shows "distinct (iter_pages rg)"
    and "\<forall>va\<in>set (iter_pages rg). page_aligned va = va \<and> lo rg \<le> unat va \<and> unat va < hi rg"
    and "unat va < 2 ^ 48 \<Longrightarrow> page_aligned va \<in> set (iter_pages rg) \<longleftrightarrow> lo rg \<le> unat va \<and> unat va < hi rg"
proof -
  obtain a b where ab: "lo rg = 4096 * a" "hi rg = 4096 * b" using assms by (auto simp: dvd_def)
  have ip: "iter_pages rg = pages_from a b" using iter_pages_eq [OF assms(1,2)] ab by simp
  have u: "unat (of_nat (4096 * k) :: usize) = 4096 * k" if "k < 2 ^ 36" for k
    using that by (simp add: unat_of_nat del: of_nat_mult)
  have b: "b \<le> 2 ^ 36" using assms(3) ab by simp
  have pa: "page_aligned (of_nat (4096 * k)) = of_nat (4096 * k)" if "k < 2 ^ 36" for k
    unfolding word_unat_eq_iff unat_page_aligned u [OF that] by (simp add: round_down_def)
  show "distinct (iter_pages rg)"
    unfolding ip pages_from_def
  proof (subst distinct_map, intro conjI inj_onI)
    fix j k assume jk: "j \<in> set [a..<b]" "k \<in> set [a..<b]" "(of_nat (4096 * j) :: usize) = of_nat (4096 * k)"
    then have "j < 2 ^ 36" "k < 2 ^ 36" using b by auto
    then show "j = k" using arg_cong [OF jk(3), of unat] u by (simp del: of_nat_mult)
  qed simp
  show "\<forall>va\<in>set (iter_pages rg). page_aligned va = va \<and> lo rg \<le> unat va \<and> unat va < hi rg"
    unfolding ip pages_from_def ab using b pa u by (auto simp del: of_nat_mult)
  show "page_aligned va \<in> set (iter_pages rg) \<longleftrightarrow> lo rg \<le> unat va \<and> unat va < hi rg"
    if va: "unat va < 2 ^ 48"
  proof -
    have k: "unat va div 4096 < 2 ^ 36" using va by (simp add: less_mult_imp_div_less)
    have e: "page_aligned va = of_nat (4096 * (unat va div 4096))"
      unfolding word_unat_eq_iff unat_page_aligned u [OF k] by (simp add: round_down_def)
    have "page_aligned va \<in> set (iter_pages rg) \<longleftrightarrow> unat va div 4096 \<in> {a..<b}"
    proof
      assume "page_aligned va \<in> set (iter_pages rg)"
      then obtain j where j: "j \<in> {a..<b}" "of_nat (4096 * j) = page_aligned va"
        unfolding ip pages_from_def by auto
      have "4096 * j = 4096 * (unat va div 4096)"
        using arg_cong [OF j(2), of unat] j(1) b u [of j] u [OF k] unfolding e by (simp del: of_nat_mult)
      then show "unat va div 4096 \<in> {a..<b}" using j(1) by simp
    next
      assume "unat va div 4096 \<in> {a..<b}"
      then show "page_aligned va \<in> set (iter_pages rg)" unfolding ip pages_from_def e by simp
    qed
    also have "\<dots> \<longleftrightarrow> lo rg \<le> unat va \<and> unat va < hi rg"
      unfolding ab by (auto simp: less_eq_div_iff_mult_less_eq div_less_iff_less_mult mult.commute)
    finally show ?thesis .
  qed
qed

lemma walk_rewrites:
  fixes g :: "usize \<Rightarrow> u64 \<Rightarrow> u64" and h :: "usize \<Rightarrow> u64 \<Rightarrow> 'e \<Rightarrow> 'e" and s :: "'al pt_state"
  defines "f \<equiv> \<lambda>va d (s :: 'al pt_state, e :: 'e). (Ok (g va d), (s, h va d e))"
  assumes tree: "pt_tree own (pt_mem s)" and root: "own root = Some (root, [])"
    and rg: "4096 dvd lo rg" "4096 dvd hi rg" "hi rg \<le> 2 ^ 48" and nb: "no_blocks (pt_mem s) root rg"
  shows "\<exists>m'. walk_and_modify_region f root rg (s, e) = (Ok (), (s\<lparr>pt_mem := m'\<rparr>,
      fold (\<lambda>va e. if present (pt_mem s) root va then h va (pte (pt_mem s) root va) e else e)
        (iter_pages rg) e)) \<and> pt_tree own m' \<and>
    (\<forall>r va. own r = Some (r, []) \<and> unat va < 2 ^ 48 \<longrightarrow> entry m' r va =
      (if r = root \<and> lo rg \<le> unat va \<and> unat va < hi rg \<and> present (pt_mem s) root va
       then (0, g (page_aligned va) (pte (pt_mem s) root va)) else entry (pt_mem s) r va))"
proof -
  have k: "keeps_upper own f" by (simp add: keeps_upper_def f_def upper_same_def split: prod.split)
  have vs: "\<forall>va\<in>set (iter_pages rg). page_aligned va = va \<and> unat va < 2 ^ 48 \<and>
      (occupied (pt_mem s) root va \<longrightarrow> present (pt_mem s) root va)"
    using in_iter_pages(2) [OF rg] rg(3) nb unfolding no_blocks_def by fastforce
  obtain m' where m': "st_iter (at_page f root) (iter_pages rg) (s, e) = (Ok (), (s\<lparr>pt_mem := m'\<rparr>,
      fold (\<lambda>va e. if present (pt_mem s) root va then h va (pte (pt_mem s) root va) e else e) (iter_pages rg) e))"
    "pt_tree own m'" "rewritten g own root (set (iter_pages rg)) (pt_mem s) m'"
    using rewrite_pages [OF tree root in_iter_pages(1) [OF rg] vs, of g h e] unfolding f_def by blast
  have w: "walk_and_modify_region f root rg (s, e) = st_iter (at_page f root) (iter_pages rg) (s, e)"
    using walk_and_modify_region_run [OF _ root k rg] tree by simp
  show ?thesis
  proof (intro exI [of _ m'] conjI allI impI)
    fix r and va :: usize assume r: "own r = Some (r, []) \<and> unat va < 2 ^ 48"
    then show "entry m' r va = (if r = root \<and> lo rg \<le> unat va \<and> unat va < hi rg \<and> present (pt_mem s) root va
       then (0, g (page_aligned va) (pte (pt_mem s) root va)) else entry (pt_mem s) r va)"
      using m'(3) [unfolded rewritten_def, rule_format, of r va] in_iter_pages(3) [OF rg, of va] by simp
  qed (use w m' in simp_all)
qed

section \<open>Unmapping and protecting ranges\<close>

text \<open>The frame behind a present page.\<close>

definition frame_at :: "reg_ops \<Rightarrow> (usize \<Rightarrow> u64) \<Rightarrow> usize \<Rightarrow> usize \<Rightarrow> usize option" where
  "frame_at R m root va =
     (if present m root va then map_option to_pfn (mapped_address R L3Descriptor (pte m root va)) else None)"

lemma fold_frames:
  "fold (\<lambda>va e. if present m root va
      then case mapped_address R L3Descriptor (pte m root va) of
             Some a \<Rightarrow> e @ [to_pfn a] | None \<Rightarrow> e else e) vs e =
   e @ List.map_filter (frame_at R m root) vs"
  by (induction vs arbitrary: e)
    (auto simp: frame_at_def map_filter_simps split: option.split)

lemma unmap_range_rewrites:
  assumes tree: "pt_tree own (pt_mem s)" and root: "own (l0_table as) = Some (l0_table as, [])"
    and rg: "4096 dvd lo rg" "4096 dvd hi rg" "hi rg \<le> 2 ^ 48" and nb: "no_blocks (pt_mem s) (l0_table as) rg"
  shows "\<exists>m'. unmap_range R as rg s =
      (Ok (List.map_filter (frame_at R (pt_mem s) (l0_table as)) (iter_pages rg)), s\<lparr>pt_mem := m'\<rparr>) \<and>
    pt_tree own m' \<and>
    (\<forall>r va. own r = Some (r, []) \<and> unat va < 2 ^ 48 \<longrightarrow> entry m' r va =
      (if r = l0_table as \<and> lo rg \<le> unat va \<and> unat va < hi rg \<and> present (pt_mem s) (l0_table as) va
       then (0, invalid) else entry (pt_mem s) r va))"
proof -
  let ?h = "\<lambda>va d e. case mapped_address R L3Descriptor d of Some a \<Rightarrow> e @ [to_pfn a] | None \<Rightarrow> e"
  obtain m' where "walk_and_modify_region (\<lambda>va d (s, e). (Ok invalid, (s, ?h va d e))) (l0_table as) rg (s, []) =
      (Ok (), (s\<lparr>pt_mem := m'\<rparr>, List.map_filter (frame_at R (pt_mem s) (l0_table as)) (iter_pages rg)))"
    "pt_tree own m'"
    "\<forall>r va. own r = Some (r, []) \<and> unat va < 2 ^ 48 \<longrightarrow> entry m' r va =
      (if r = l0_table as \<and> lo rg \<le> unat va \<and> unat va < hi rg \<and> present (pt_mem s) (l0_table as) va
       then (0, invalid) else entry (pt_mem s) r va)"
    using walk_rewrites [OF tree root rg nb, of "\<lambda>_ _. invalid" ?h "[]"] unfolding fold_frames by auto
  then show ?thesis by (intro exI [of _ m']) (simp add: unmap_range_def)
qed

text \<open>C5. Unmapping a page-aligned range that contains no block mapping returns, in ascending order,
  the frame of every page that was mapped in it; afterwards nothing in the range is mapped, every other
  address of this and of every other address space translates as before, and the tables stay a tree.\<close>

theorem unmap_range_correct:
  assumes tree: "pt_tree own (pt_mem s)" and root: "own (l0_table as) = Some (l0_table as, [])"
    and rg: "4096 dvd lo rg" "4096 dvd hi rg" "hi rg \<le> 2 ^ 48" and nb: "no_blocks (pt_mem s) (l0_table as) rg"
  shows "\<exists>m'. unmap_range R as rg s =
      (Ok (List.map_filter (frame_at R (pt_mem s) (l0_table as)) (iter_pages rg)), s\<lparr>pt_mem := m'\<rparr>) \<and>
    pt_tree own m' \<and>
    (\<forall>r va. own r = Some (r, []) \<and> unat va < 2 ^ 48 \<longrightarrow>
      (if r = l0_table as \<and> lo rg \<le> unat va \<and> unat va < hi rg
       then \<not> occupied m' r va else view R m' r va = view R (pt_mem s) r va))"
proof -
  let ?root = "l0_table as" and ?m = "pt_mem s"
  obtain m' where m': "unmap_range R as rg s =
      (Ok (List.map_filter (frame_at R ?m ?root) (iter_pages rg)), s\<lparr>pt_mem := m'\<rparr>)" "pt_tree own m'"
    "\<And>r va. own r = Some (r, []) \<Longrightarrow> unat va < 2 ^ 48 \<Longrightarrow> entry m' r va =
      (if r = ?root \<and> lo rg \<le> unat va \<and> unat va < hi rg \<and> present ?m ?root va
       then (0, invalid) else entry ?m r va)"
    using unmap_range_rewrites [OF tree root rg nb] by blast
  have "if r = ?root \<and> lo rg \<le> unat va \<and> unat va < hi rg
       then \<not> occupied m' r va else view R m' r va = view R ?m r va"
    if "own r = Some (r, [])" "unat va < 2 ^ 48" for r va
  proof (cases "r = ?root \<and> lo rg \<le> unat va \<and> unat va < hi rg")
    case True
    then have "\<not> occupied m' r va"
      using m'(3) [OF that] nb by (auto simp: occupied_def no_blocks_def invalid_def is_valid_def split: if_splits)
    then show ?thesis using True by simp
  next
    case False
    then have "entry m' r va = entry ?m r va" using m'(3) [OF that] by auto
    then show ?thesis unfolding if_not_P [OF False] by (rule view_entry)
  qed
  then show ?thesis using m'(1,2) by blast
qed

definition protect_desc :: "reg_ops \<Rightarrow> pte_permissions \<Rightarrow> u64 \<Rightarrow> u64" where
  "protect_desc R perms d =
     (if \<not> pp_execute perms \<and> \<not> pp_read perms \<and> \<not> pp_write perms
      then mark_as_swapped d else set_permissions R d perms)"

lemma protect_range_rewrites:
  assumes tree: "pt_tree own (pt_mem s)" and root: "own (l0_table as) = Some (l0_table as, [])"
    and rg: "4096 dvd lo rg" "4096 dvd hi rg" "hi rg \<le> 2 ^ 48" and nb: "no_blocks (pt_mem s) (l0_table as) rg"
  shows "\<exists>m'. protect_range R as rg perms s = (Ok (), s\<lparr>pt_mem := m'\<rparr>) \<and> pt_tree own m' \<and>
    (\<forall>r va. own r = Some (r, []) \<and> unat va < 2 ^ 48 \<longrightarrow> entry m' r va =
      (if r = l0_table as \<and> lo rg \<le> unat va \<and> unat va < hi rg \<and> present (pt_mem s) (l0_table as) va
       then (0, protect_desc R perms (pte (pt_mem s) (l0_table as) va)) else entry (pt_mem s) r va))"
proof -
  have f: "(\<lambda>_ desc ws. (Ok (if \<not> pp_execute perms \<and> \<not> pp_read perms \<and> \<not> pp_write perms
      then mark_as_swapped desc else set_permissions R desc perms), ws)) =
    (\<lambda>(va :: usize) d (s :: 'a pt_state, e :: unit). (Ok (protect_desc R perms d), (s, e)))"
    by (auto simp: fun_eq_iff protect_desc_def)
  show ?thesis
    using walk_rewrites [OF tree root rg nb, of "\<lambda>_ d. protect_desc R perms d" "\<lambda>_ _ e. e" "()"]
    unfolding protect_range_def f by force
qed

text \<open>C10. Changing the protection of a page-aligned range that contains no block mapping to
  permissions that allow some access keeps the physical address of every mapped page of the range.
  The page gets the requested permissions, except that it becomes readable whether reading was requested or
  not; unmapped pages stay unmapped and nothing else changes.\<close>

theorem protect_range_correct:
  assumes R: "bitfields R"
    and tree: "pt_tree own (pt_mem s)" and root: "own (l0_table as) = Some (l0_table as, [])"
    and rg: "4096 dvd lo rg" "4096 dvd hi rg" "hi rg \<le> 2 ^ 48" and nb: "no_blocks (pt_mem s) (l0_table as) rg"
    and some: "pp_execute perms \<or> pp_read perms \<or> pp_write perms"
  shows "\<exists>m'. protect_range R as rg perms s = (Ok (), s\<lparr>pt_mem := m'\<rparr>) \<and> pt_tree own m' \<and>
    (\<forall>r va. own r = Some (r, []) \<and> unat va < 2 ^ 48 \<longrightarrow> view R m' r va =
      (if r = l0_table as \<and> lo rg \<le> unat va \<and> unat va < hi rg
       then map_option (\<lambda>(a, _). (a, perms\<lparr>pp_read := True\<rparr>)) (view R (pt_mem s) r va)
       else view R (pt_mem s) r va))"
proof -
  let ?root = "l0_table as" and ?m = "pt_mem s"
  obtain m' where m': "protect_range R as rg perms s = (Ok (), s\<lparr>pt_mem := m'\<rparr>)" "pt_tree own m'"
    "\<And>r va. own r = Some (r, []) \<Longrightarrow> unat va < 2 ^ 48 \<Longrightarrow> entry m' r va =
      (if r = ?root \<and> lo rg \<le> unat va \<and> unat va < hi rg \<and> present ?m ?root va
       then (0, set_permissions R (pte ?m ?root va) perms) else entry ?m r va)"
    using protect_range_rewrites [OF tree root rg nb, of R perms] some by (auto simp: protect_desc_def)
  have "view R m' r va =
      (if r = ?root \<and> lo rg \<le> unat va \<and> unat va < hi rg
       then map_option (\<lambda>(a, _). (a, perms\<lparr>pp_read := True\<rparr>)) (view R ?m r va) else view R ?m r va)"
    if "own r = Some (r, [])" "unat va < 2 ^ 48" for r va
  proof (cases "r = ?root \<and> lo rg \<le> unat va \<and> unat va < hi rg \<and> present ?m ?root va")
    case True
    obtain d where d: "entry ?m r va = (0, d)"
      using True by (cases "entry ?m r va") (auto simp: present_def)
    have e: "entry m' r va = (0, set_permissions R d perms)"
      using m'(3) [OF that] True d by auto
    have "wf_format L3Descriptor" by (simp add: wf_format_def)
    note p = bitfields.set_permissions_low [OF R] bitfields.mapped_address_set_permissions [OF R this]
      bitfields.permissions_set_permissions [OF R, of d L3Descriptor perms]
    have "view R m' r va = map_option (\<lambda>(a, _). (a, perms\<lparr>pp_read := True\<rparr>)) (view R ?m r va)"
    proof (cases "d AND 3 = map_bits L3Descriptor")
      case True
      then show ?thesis
        using p bitfields.permissions_bits [OF R, of L3Descriptor d]
        unfolding view_def d e by (simp split: option.split)
    next
      case False
      then show ?thesis using p unfolding view_def d e by simp
    qed
    then show ?thesis using True by simp
  next
    case False
    then have e: "entry m' r va = entry ?m r va" using m'(3) [OF that] by auto
    have "view R ?m r va = None" if "r = ?root \<and> lo rg \<le> unat va \<and> unat va < hi rg"
    proof -
      have "\<not> occupied ?m ?root va" using nb False that by (auto simp: no_blocks_def)
      then show ?thesis using that view_invalid [of ?m r va] by (metis occupied_def prod.collapse)
    qed
    then show ?thesis using view_entry [OF e, of R] by auto
  qed
  then show ?thesis using m'(1,2) by blast
qed

section \<open>Single pages\<close>

lemma page_bounds:
  assumes "unat va < 2 ^ 48"
  shows "4096 dvd unat (page_aligned va)" "unat (page_aligned va) \<le> unat va"
    "unat va < unat (page_aligned va) + 4096" "unat (page_aligned va) + 4096 \<le> 2 ^ 48"
proof -
  have u: "unat (page_aligned va) = 4096 * (unat va div 4096)"
    by (simp add: unat_page_aligned round_down_def mult.commute)
  show "4096 dvd unat (page_aligned va)" unfolding u by simp
  show "unat (page_aligned va) \<le> unat va" "unat va < unat (page_aligned va) + 4096"
    unfolding u using mult_div_mod_eq [of 4096 "unat va"] mod_less_divisor [of 4096 "unat va"] by linarith+
  have "unat va div 4096 < 2 ^ 36" using assms by (simp add: less_mult_imp_div_less)
  then show "unat (page_aligned va) + 4096 \<le> 2 ^ 48" unfolding u by simp
qed

lemma page_aligned_idem [simp]: "page_aligned (page_aligned va) = page_aligned va"
  by (simp add: word_unat_eq_iff unat_page_aligned round_down_def)

definition page_of :: "usize \<Rightarrow> region" where
  "page_of va = new_region (page_aligned va) PAGE_SIZE"

lemma page_of:
  assumes "unat va < 2 ^ 48"
  shows "lo (page_of va) = unat (page_aligned va)" "hi (page_of va) = unat (page_aligned va) + 4096"
    "iter_pages (page_of va) = [page_aligned va]"
proof -
  show l: "lo (page_of va) = unat (page_aligned va)" "hi (page_of va) = unat (page_aligned va) + 4096"
    by (simp_all add: page_of_def lo_def hi_def new_region_def PAGE_SIZE_def)
  show "iter_pages (page_of va) = [page_aligned va]"
    by (simp add: page_of_def iter_pages_def new_region_def PAGE_SIZE_def PAGE_SHIFT_def start_address_def
        add_pages_def drop_bit_eq_div)
qed

lemma walk_one_page:
  assumes "pt_tree own (pt_mem (fst ws))" "own root = Some (root, [])" "keeps_upper own f" "unat va < 2 ^ 48"
  shows "walk_and_modify_region f root (page_of va) ws = at_page f root (page_aligned va) ws"
proof -
  have "st_then x (\<lambda>_ s. (Ok (), s)) = x" for x :: "unit outcome \<times> 'c \<times> 'd"
    by (cases x; cases "fst x") auto
  moreover have "4096 dvd lo (page_of va)" "4096 dvd hi (page_of va)" "hi (page_of va) \<le> 2 ^ 48"
    using page_of [OF assms(4)] page_bounds [OF assms(4)] by (simp_all only: dvd_add_triv_right_iff)
  ultimately show ?thesis
    using walk_and_modify_region_run [OF assms(1-3)] page_of(3) [OF assms(4)] by simp
qed

lemma get_pte_run:
  assumes tree: "pt_tree own (pt_mem s)" and root: "own root = Some (root, [])" and va: "unat va < 2 ^ 48"
  shows "get_pte root va s =
    (if present (pt_mem s) root va then Ok (Some (pte (pt_mem s) root va))
     else if occupied (pt_mem s) root va then Err (MappingError NotL3Mapped) else Ok None, s)"
proof -
  let ?f = "\<lambda>_ pte (s, descriptor). (Ok pte, (s, Some pte))"
  let ?m = "pt_mem s"
  have k: "keeps_upper own ?f" by (simp add: keeps_upper_def upper_same_def split: prod.split)
  obtain n t where l: "leaf 3 ?m root va = (n, t)" by (metis prod.exhaust)
  have l': "leaf 3 ?m root (page_aligned va) = (n, t)" using l by (simp add: leaf_page)
  have e: "entry ?m root va = (n, ?m (slot t (ix (lvl n) va)))" using l by (simp add: entry_def)
  have "at_page ?f root (page_aligned va) (s, None) =
    (if occupied ?m root va \<and> n \<noteq> 0 then (Err (MappingError NotL3Mapped), (s, None))
     else (Ok (), (s, if present ?m root va then Some (pte ?m root va) else None)))"
    using l' by (simp add: at_page_def at_level_def ix_page modify_page_def get_desc_slot set_desc_slot
        Let_def present_def occupied_def e)
  then show ?thesis
    using walk_one_page [OF _ root k va, of "(s, None)"] tree
    by (auto simp: get_pte_def page_of_def present_def e)
qed

definition translation :: "reg_ops \<Rightarrow> (usize \<Rightarrow> u64) \<Rightarrow> usize \<Rightarrow> usize \<Rightarrow> page_info option" where
  "translation R m root va =
     map_option (\<lambda>(a, p). \<lparr>pi_pfn = to_pfn a, pi_perms = p\<rparr>) (view R m root va)"

lemma to_pfn_offset: "to_pfn ((d AND NOT (mask 12) AND mask 48) + (va AND mask 12)) = to_pfn (d AND NOT (mask 12) AND mask 48)"
proof -
  have "(d AND NOT (mask 12) AND mask 48) + (va AND mask 12) =
    (d AND NOT (mask 12) AND mask 48) OR (va AND mask 12)"
    by (rule disjunctive_add) (auto simp: bit_and_iff bit_not_iff bit_mask_iff)
  then show ?thesis
    by (simp add: to_pfn_def PAGE_SHIFT_def)
      (rule bit_word_eqI, auto simp: bit_drop_bit_eq bit_or_iff bit_and_iff bit_mask_iff)
qed

lemma translate_run:
  assumes R: "bitfields R" and tree: "pt_tree own (pt_mem s)"
    and root: "own (l0_table as) = Some (l0_table as, [])" and va: "unat va < 2 ^ 48"
  shows "translate R as va s =
    (if occupied (pt_mem s) (l0_table as) va \<and> \<not> present (pt_mem s) (l0_table as) va then Panic
     else Ok (translation R (pt_mem s) (l0_table as) va), s)"
proof -
  let ?m = "pt_mem s" and ?root = "l0_table as"
  have wf: "wf_format L3Descriptor" by (simp add: wf_format_def)
  have va': "unat (page_aligned va) < 2 ^ 48" using page_bounds [OF va] va by linarith
  note g = get_pte_run [OF tree root va']
  have pr: "present ?m ?root (page_aligned va) = present ?m ?root va"
    "occupied ?m ?root (page_aligned va) = occupied ?m ?root va" by (simp_all add: present_def occupied_def)
  obtain n d where e: "entry ?m ?root va = (n, d)" by (metis prod.exhaust)
  have sh: "tbl_shift L3Descriptor = 12" "map_bits L3Descriptor = 3" by (simp_all add: L3Descriptor_def)
  show ?thesis
  proof (cases "present ?m ?root va")
    case True
    then have n: "n = 0" using e by (simp add: present_def)
    show ?thesis
      using True e n bitfields.mapped_address_bits [OF R wf, of d] bitfields.permissions_bits [OF R, of L3Descriptor d]
      by (auto simp: translate_def g pr translation_def view_def sh to_pfn_offset)
  next
    case False
    then show ?thesis
      using e view_invalid [OF e, of R] by (auto simp: translate_def g pr translation_def occupied_def)
  qed
qed

section \<open>Mapping a page succeeds\<close>

text \<open>An allocator that fails only when it has no page left.\<close>

locale live_pt_allocator = pt_allocator +
  assumes allocate_live: "\<lbrakk>ainv (pt_alloc s); avail (pt_alloc s) \<noteq> {}\<rbrakk> \<Longrightarrow> \<exists>a s'. allocate s = (Ok a, s')"

sublocale frame_list \<subseteq> live: live_pt_allocator "allocate_page_table L" "frames_ok \<alpha>" free_frame_addrs
proof
  show "\<exists>a s'. allocate_page_table L s = (Ok a, s')"
    if "frames_ok \<alpha> (pt_alloc s)" "free_frame_addrs (pt_alloc s) \<noteq> {}" for s
    using allocate_page_table_run [OF that(1)] that(2) by blast
qed

context live_pt_allocator
begin

lemma map_at_level_live:
  assumes ok: "pt_ok ainv avail own s" and root: "own r = Some (r, [])"
    and t: "own t = Some (r, path (Suc n) va)" "n < 3"
    and free: "\<not> occupied (pt_mem s) r va" and av: "avail (pt_alloc s) \<noteq> {}"
  shows "\<exists>u s' own'. map_at_level allocate (lvl (Suc n)) t va s = (Ok u, s') \<and>
    pt_ok ainv avail own' s' \<and> own' r = Some (r, []) \<and> own' u = Some (r, path n va) \<and>
    (\<exists>a. avail (pt_alloc s) - {a} \<subseteq> avail (pt_alloc s')) \<and> \<not> occupied (pt_mem s') r va"
proof -
  obtain res s' own' where m: "map_at_level allocate (lvl (Suc n)) t va s = (res, s')"
    "pt_ok ainv avail own' s'" "own \<subseteq>\<^sub>m own'" "same_view tock_registers own (pt_mem s) (pt_mem s')"
    "\<exists>a. avail (pt_alloc s) - {a} \<subseteq> avail (pt_alloc s')"
    "(\<exists>e. res = Err e) \<or> (\<exists>u. res = Ok u \<and> own' u = Some (r, path n va))"
    using map_at_level_run [OF ok t, of tock_registers] by blast
  have tree: "pt_tree own (pt_mem s)" and ai: "ainv (pt_alloc s)" using ok by (auto simp: pt_ok_def)
  let ?d = "pt_mem s (slot t (ix (lvl (Suc n)) va))"
  have "\<not> is_valid ?d" if "next_table_address ?d = None"
  proof -
    have "leaf 3 (pt_mem s) r va = (Suc n, t)" using leaf_via [OF tree t(1)] t(2) that by simp
    then show ?thesis using free by (simp add: occupied_def entry_def)
  qed
  moreover obtain a s1 where "allocate s = (Ok a, s1)" using allocate_live [OF ai av] by blast
  ultimately have "\<not> (\<exists>e. res = Err e)"
    using m(1) by (auto simp: map_at_level_def get_desc_slot Let_def split: option.splits if_splits)
  then obtain u where "res = Ok u" "own' u = Some (r, path n va)" using m(6) by blast
  moreover have "\<not> occupied (pt_mem s') r va" using m(4) root free by (simp add: same_view_def)
  ultimately show ?thesis using m owned_mono [OF m(3) root] by blast
qed

lemma map_step_page:
  assumes R: "bitfields R" and ok: "pt_ok ainv avail own s" and root: "own root = Some (root, [])"
    and attrs: "attrs_ok attrs" "rg_size (ma_virt attrs) = PAGE_SIZE" "va = start_address (ma_virt attrs)"
    and free: "\<not> occupied (pt_mem s) root va" and av: "3 \<le> card (avail (pt_alloc s))"
  shows "\<exists>s'. map_step allocate R root attrs s = (Ok 1, s') \<and> present (pt_mem s') root va"
proof -
  let ?pa = "start_address (ma_phys attrs)"
  have sz: "rg_size (ma_phys attrs) = PAGE_SIZE" using attrs(1,2) by (simp add: attrs_ok_def)
  have big: "\<not> could_map L1Descriptor (ma_phys attrs) va" "\<not> could_map L2Descriptor (ma_phys attrs) va"
    by (simp_all add: could_map_def sz L1Descriptor_def L2Descriptor_def PAGE_SIZE_def)
  have al: "aligned_to 12 va" "aligned_to 12 ?pa" "unat ?pa < 2 ^ 48"
    using attrs sz by (simp_all add: aligned_to_iff unat_start_address attrs_ok_def hi_def lo_def PAGE_SIZE_def)
  have small: "could_map L3Descriptor (ma_phys attrs) va"
    using al by (simp add: could_map_def sz L3Descriptor_def PAGE_SIZE_def)
  have wf: "wf_format L3Descriptor" "tbl_shift L3Descriptor = 12" by (simp_all add: wf_format_def L3Descriptor_def)
  have r3: "own root = Some (root, path (Suc 2) va)" using root by simp
  have two: "A - {a} - {b} \<noteq> {}" if "3 \<le> card A" for A :: "usize set" and a b
  proof
    assume "A - {a} - {b} = {}"
    then have "A \<subseteq> {a, b}" by blast
    then have "card A \<le> card {a, b}" by (intro card_mono) simp_all
    then show False using that card_insert_le_m1 [of 2 "{b}" a] by simp
  qed
  have av0: "avail (pt_alloc s) \<noteq> {}" using av by auto
  obtain u1 s1 own1 a1 where m1: "map_at_level allocate (lvl (Suc 2)) root va s = (Ok u1, s1)"
    "pt_ok ainv avail own1 s1" "own1 root = Some (root, [])" "own1 u1 = Some (root, path 2 va)"
    "avail (pt_alloc s) - {a1} \<subseteq> avail (pt_alloc s1)" "\<not> occupied (pt_mem s1) root va"
    using map_at_level_live [OF ok root r3 _ free av0] by auto
  have av1: "avail (pt_alloc s1) \<noteq> {}" using m1(5) two [OF av, of a1 a1] by auto
  have u1: "own1 u1 = Some (root, path (Suc 1) va)" using m1(4) by (simp add: numeral_2_eq_2)
  obtain u2 s2 own2 a2 where m2: "map_at_level allocate (lvl (Suc 1)) u1 va s1 = (Ok u2, s2)"
    "pt_ok ainv avail own2 s2" "own2 root = Some (root, [])" "own2 u2 = Some (root, path (Suc 0) va)"
    "avail (pt_alloc s1) - {a2} \<subseteq> avail (pt_alloc s2)" "\<not> occupied (pt_mem s2) root va"
    using map_at_level_live [OF m1(2,3) u1 _ m1(6) av1] by auto
  have av2: "avail (pt_alloc s2) \<noteq> {}" using m1(5) m2(5) two [OF av, of a1 a2] by blast
  obtain u3 s3 own3 where m3: "map_at_level allocate (lvl (Suc 0)) u2 va s2 = (Ok u3, s3)"
    "pt_ok ainv avail own3 s3" "own3 root = Some (root, [])" "own3 u3 = Some (root, path 0 va)"
    "\<not> occupied (pt_mem s3) root va"
    using map_at_level_live [OF m2(2,3,4) _ m2(6) av2] by auto
  have tree: "pt_tree own3 (pt_mem s3)" using m3(2) by (simp add: pt_ok_def)
  have l: "leaf 3 (pt_mem s3) root va = (0, u3)" using leaf_via [OF tree m3(4)] by simp
  then have inv: "\<not> is_valid (get_desc L3 u3 va (pt_mem s3))"
    using m3(5) by (simp add: occupied_def entry_def get_desc_slot)
  obtain d where d: "new_map_pa R L3Descriptor ?pa (ma_mem_type attrs) (ma_perms attrs) = Ok d"
    "d AND 3 = map_bits L3Descriptor"
    using bitfields.new_map_pa_Ok [OF R wf(1), of ?pa] al(2,3) wf(2) by metis
  let ?m = "(pt_mem s3)(slot u3 (ix L3 va) := d)"
  have va: "unat va < 2 ^ 48"
    using attrs by (simp add: attrs_ok_def unat_start_address hi_def lo_def PAGE_SIZE_def)
  have "entry ?m root va = (0, d)" using write_pte(3) [OF tree m3(3) l va m3(3) va] by simp
  then have "present ?m root va" using d(2) by (simp add: present_def occupied_def is_valid_def L3Descriptor_def)
  moreover have "map_step allocate R root attrs s = (Ok 1, s3\<lparr>pt_mem := ?m\<rparr>)"
    using m1(1) m2(1) m3(1) inv big small attrs(3) d(1)
    by (simp add: map_step_def try_map_pa_def numeral_2_eq_2 set_desc_slot)
  ultimately show ?thesis by simp
qed

lemma map_loop_page:
  assumes "bitfields R" "pt_ok ainv avail own s" "own root = Some (root, [])"
    and attrs: "attrs_ok attrs" "rg_size (ma_virt attrs) = PAGE_SIZE"
    and "\<not> occupied (pt_mem s) root (start_address (ma_virt attrs))" "3 \<le> card (avail (pt_alloc s))"
  shows "\<exists>s'. map_loop allocate R root attrs s = (Ok (), s') \<and>
    present (pt_mem s') root (start_address (ma_virt attrs))"
proof -
  obtain s1 where m: "map_step allocate R root attrs s = (Ok 1, s1)"
    "present (pt_mem s1) root (start_address (ma_virt attrs))"
    using map_step_page [OF assms(1-5) refl assms(6,7)] by blast
  have "rg_size (ma_virt (advance 1 attrs)) = 0"
    using attrs(2) by (simp add: advance_def region_add_pages_def Let_def PAGE_SHIFT_def PAGE_SIZE_def
        saturating_sub_def)
  then have "map_loop allocate R root (advance 1 attrs) s1 = (Ok (), s1)" by (simp add: map_loop.simps)
  then show ?thesis using m attrs(2) by (simp add: map_loop.simps [of allocate R root attrs s] PAGE_SIZE_def)
qed

end

context frame_list
begin

lemmas map_loop_page_frames = live.map_loop_page

end

lemma map_page_run:
  assumes L: "frame_list L \<alpha>" and R: "bitfields R"
    and ok: "pt_ok (frames_ok \<alpha>) free_frame_addrs own s" and root: "own (l0_table as) = Some (l0_table as, [])"
    and va: "4096 dvd unat va" "unat va < 2 ^ 48" and page: "unat page < 2 ^ 36"
    and free: "\<not> occupied (pt_mem s) (l0_table as) va" and av: "3 \<le> card (free_frame_addrs (pt_alloc s))"
  shows "\<exists>s' own'. map_page L R as page va perms s = (Ok (), s') \<and> own \<subseteq>\<^sub>m own' \<and>
    pt_ok (frames_ok \<alpha>) free_frame_addrs own' s' \<and> present (pt_mem s') (l0_table as) va \<and>
    view R (pt_mem s') (l0_table as) va = Some (pa page, perms\<lparr>pp_read := True\<rparr>) \<and>
    (\<forall>r va'. own r = Some (r, []) \<and> unat va' < 2 ^ 48 \<and> (r \<noteq> l0_table as \<or> page_aligned va' \<noteq> va) \<longrightarrow>
      view R (pt_mem s') r va' = view R (pt_mem s) r va')"
proof -
  let ?root = "l0_table as"
  let ?a = "\<lparr>ma_phys = as_phys_range page, ma_virt = new_region va PAGE_SIZE, ma_mem_type = Normal,
    ma_perms = perms\<rparr>"
  have pv: "page_aligned va = va" using va(1) by (simp add: word_unat_eq_iff unat_page_aligned round_down_def)
  have upa: "unat (pa page) = 4096 * unat page" using page by (intro unat_pa) simp
  have attrs: "attrs_ok ?a"
    using va page page_bounds [OF va(2)] pv upa
    by (simp add: attrs_ok_def as_phys_range_def new_region_def lo_def hi_def PAGE_SIZE_def)
  have run: "map_page L R as page va perms s = map_loop (allocate_page_table L) R ?root ?a s"
    using attrs by (simp add: map_page_def map_range_def attrs_ok_def region_is_page_aligned_def
        is_page_aligned_iff unat_address as_phys_range_def new_region_def)
  obtain s' where s': "map_loop (allocate_page_table L) R ?root ?a s = (Ok (), s')" "present (pt_mem s') ?root va"
    using frame_list.map_loop_page_frames [OF L R ok root attrs] free av
    by (auto simp: new_region_def start_address_def)
  obtain own' where o: "own \<subseteq>\<^sub>m own'" "pt_ok (frames_ok \<alpha>) free_frame_addrs own' s'"
    "maps_prefix R own ?root ?a 4096 (pt_mem s) (pt_mem s')"
    using frame_list.map_loop_frames [OF L R ok root attrs] s'(1)
    by (auto simp: new_region_def PAGE_SIZE_def)
  have in_page: "lo (new_region va PAGE_SIZE) \<le> unat va' \<and> unat va' < lo (new_region va PAGE_SIZE) + 4096 \<longleftrightarrow>
      page_aligned va' = va" for va' :: usize
    using div_block [OF va(1), of "unat va'"] va(1) pv
    by (auto simp: lo_def new_region_def word_unat_eq_iff unat_page_aligned round_down_def)
  have "view R (pt_mem s') ?root va = Some (pa page, perms\<lparr>pp_read := True\<rparr>)"
    using o(3) va(2) in_page [of va] pv
    by (simp add: maps_prefix_def as_phys_range_def new_region_def start_address_def)
  moreover have "view R (pt_mem s') r va' = view R (pt_mem s) r va'"
    if "own r = Some (r, [])" "unat va' < 2 ^ 48" "r \<noteq> ?root \<or> page_aligned va' \<noteq> va" for r va'
    using o(3) that in_page [of va'] by (cases "r = ?root") (auto simp: maps_prefix_def)
  ultimately show ?thesis using run s' o by auto
qed

text \<open>C14. Whenever three frames are free, mapping a frame at an unmapped page succeeds, and a lookup of
  any address of that page then returns the frame with the requested permissions (a mapped page is always
  readable); no other page of this or another address space changes.\<close>

theorem map_page_live:
  assumes L: "frame_list L \<alpha>" and R: "bitfields R"
    and ok: "pt_ok (frames_ok \<alpha>) free_frame_addrs own s" and root: "own (l0_table as) = Some (l0_table as, [])"
    and va: "4096 dvd unat va" "unat va < 2 ^ 48" and page: "unat page < 2 ^ 36"
    and free: "\<not> occupied (pt_mem s) (l0_table as) va" and av: "3 \<le> card (free_frame_addrs (pt_alloc s))"
  shows "\<exists>s' own'. map_page L R as page va perms s = (Ok (), s') \<and> own \<subseteq>\<^sub>m own' \<and>
    pt_ok (frames_ok \<alpha>) free_frame_addrs own' s' \<and>
    (\<forall>va'. page_aligned va' = va \<longrightarrow> translate R as va' s' =
      (Ok (Some \<lparr>pi_pfn = page, pi_perms = perms\<lparr>pp_read := True\<rparr>\<rparr>), s')) \<and>
    (\<forall>r va'. own r = Some (r, []) \<and> unat va' < 2 ^ 48 \<and> (r \<noteq> l0_table as \<or> page_aligned va' \<noteq> va) \<longrightarrow>
      view R (pt_mem s') r va' = view R (pt_mem s) r va')"
proof -
  obtain s' own' where m: "map_page L R as page va perms s = (Ok (), s')" "own \<subseteq>\<^sub>m own'"
    "pt_ok (frames_ok \<alpha>) free_frame_addrs own' s'" "present (pt_mem s') (l0_table as) va"
    "view R (pt_mem s') (l0_table as) va = Some (pa page, perms\<lparr>pp_read := True\<rparr>)"
    "\<forall>r va'. own r = Some (r, []) \<and> unat va' < 2 ^ 48 \<and> (r \<noteq> l0_table as \<or> page_aligned va' \<noteq> va) \<longrightarrow>
      view R (pt_mem s') r va' = view R (pt_mem s) r va'"
    using map_page_run [OF assms, of perms] by blast
  have tree: "pt_tree own' (pt_mem s')" using m(3) by (simp add: pt_ok_def)
  have pfn: "to_pfn (pa page) = page" using page by (intro to_pfn_pa) simp
  have "translate R as va' s' = (Ok (Some \<lparr>pi_pfn = page, pi_perms = perms\<lparr>pp_read := True\<rparr>\<rparr>), s')"
    if "page_aligned va' = va" for va'
  proof -
    have "translate R as va' s' = translate R as va s'"
      using that page_aligned_idem [of va'] by (simp add: translate_def)
    then show ?thesis
      using translate_run [OF R tree owned_mono [OF m(2) root] va(2)] m(4,5) pfn
      by (simp add: translation_def)
  qed
  then show ?thesis using m by blast
qed

lemma page_aligned_iff: "page_aligned va = va \<longleftrightarrow> 4096 dvd unat va"
  by (simp add: word_unat_eq_iff unat_page_aligned round_down_def) (metis dvd_div_mult_self dvd_triv_right)

lemma no_blocks_page:
  assumes va: "4096 dvd unat va" "unat va < 2 ^ 48" and pr: "present m root va"
  shows "no_blocks m root (page_of va)"
  unfolding no_blocks_def
proof (intro allI impI)
  have pv: "page_aligned va = va" using va(1) by (simp add: page_aligned_iff)
  fix x :: usize assume "lo (page_of va) \<le> unat x \<and> unat x < hi (page_of va) \<and> occupied m root x"
  then have "unat va \<le> unat x" "unat x < unat va + 4096" using page_of(1,2) [OF va(2)] pv by auto
  then have "page_aligned x = va"
    using div_block [OF va(1), of "unat x"] va(1)
    by (auto simp: word_unat_eq_iff unat_page_aligned round_down_def)
  then have "entry m root x = entry m root va" using entry_page [of m root x] by simp
  then show "present m root x" using pr by (simp add: present_def occupied_def)
qed

lemma protect_page:
  assumes tree: "pt_tree own (pt_mem s)" and root: "own (l0_table as) = Some (l0_table as, [])"
    and va: "4096 dvd unat va" "unat va < 2 ^ 48" and pr: "present (pt_mem s) (l0_table as) va"
  shows "\<exists>s'. protect_range R as (page_of va) p s = (Ok (), s') \<and> pt_tree own (pt_mem s') \<and>
    entry (pt_mem s') (l0_table as) va = (0, protect_desc R p (pte (pt_mem s) (l0_table as) va))"
proof -
  let ?m = "pt_mem s" and ?root = "l0_table as"
  have pv: "page_aligned va = va" using va(1) by (simp add: page_aligned_iff)
  have rg: "lo (page_of va) = unat va" "hi (page_of va) = unat va + 4096"
    using page_of(1,2) [OF va(2)] pv by simp_all
  note nb = no_blocks_page [OF va pr]
  have b: "4096 dvd lo (page_of va)" "4096 dvd hi (page_of va)" "hi (page_of va) \<le> 2 ^ 48"
    using va page_bounds(4) [OF va(2)] pv unfolding rg by simp_all
  obtain m' where m': "protect_range R as (page_of va) p s = (Ok (), s\<lparr>pt_mem := m'\<rparr>)" "pt_tree own m'"
    "\<And>r x. own r = Some (r, []) \<Longrightarrow> unat x < 2 ^ 48 \<Longrightarrow> entry m' r x =
      (if r = ?root \<and> lo (page_of va) \<le> unat x \<and> unat x < hi (page_of va) \<and> present ?m ?root x
       then (0, protect_desc R p (pte ?m ?root x)) else entry ?m r x)"
    using protect_range_rewrites [OF tree root b nb, of R p] by blast
  have "entry m' ?root va = (0, protect_desc R p (pte ?m ?root va))"
    using m'(3) [OF root va(2)] pr rg by simp
  then show ?thesis using m'(1,2) by (intro exI [of _ "s\<lparr>pt_mem := m'\<rparr>"]) simp
qed

lemma map_page_occupied:
  assumes va: "4096 dvd unat va" and pr: "present (pt_mem s) (l0_table as) va" and page: "unat page < 2 ^ 36"
  shows "map_page L R as page va perms s = (Err (MappingError AlreadyMapped), s)"
proof -
  let ?root = "l0_table as"
  let ?a = "\<lparr>ma_phys = as_phys_range page, ma_virt = new_region va PAGE_SIZE, ma_mem_type = Normal,
    ma_perms = perms\<rparr>"
  have upa: "unat (pa page) = 4096 * unat page" using page by (intro unat_pa) simp
  obtain u where l: "leaf (Suc (Suc (Suc 0))) (pt_mem s) ?root va = (0, u)"
    and d: "is_valid (pt_mem s (slot u (ix L3 va)))"
    using pr by (auto simp: present_def occupied_def entry_def numeral_3_eq_3 split: prod.splits)
  have cm: "\<not> could_map L1Descriptor (as_phys_range page) va" "\<not> could_map L2Descriptor (as_phys_range page) va"
    "could_map L3Descriptor (as_phys_range page) va"
    using va upa
    by (simp_all add: could_map_def as_phys_range_def new_region_def L1Descriptor_def L2Descriptor_def
        L3Descriptor_def PAGE_SIZE_def aligned_to_iff start_address_def)
  obtain u1 u2 where n: "next_table_address (pt_mem s (slot ?root (ix L0 va))) = Some u1"
    "next_table_address (pt_mem s (slot u1 (ix L1 va))) = Some u2"
    "next_table_address (pt_mem s (slot u2 (ix L2 va))) = Some u"
    using l by (auto split: option.splits)
  have "map_step (allocate_page_table L) R ?root ?a s = (Err (MappingError AlreadyMapped), s)"
    using n d cm by (simp add: map_step_def map_at_level_def try_map_pa_def get_desc_slot new_region_def
        start_address_def)
  then show ?thesis
    using va upa by (simp add: map_page_def map_range_def map_loop.simps as_phys_range_def new_region_def
        region_is_page_aligned_def is_page_aligned_iff unat_address PAGE_SIZE_def)
qed

lemma mark_as_swapped_low: "mark_as_swapped d AND 3 = 2"
  by (simp add: and_3_cases mark_as_swapped_def SWAPPED_BIT_def STATE_MASK_def bit_or_iff bit_and_iff
      bit_not_iff bit_low)

text \<open>C36. Taking all access away from a mapped page cannot be undone: the entry is marked as swapped
  out, a later change of the protection keeps that mark, so the page stays without translation whatever
  access is granted, and mapping a frame there fails with \<open>AlreadyMapped\<close>.\<close>

theorem protect_none_irreversible:
  assumes R: "bitfields R" and tree: "pt_tree own (pt_mem s)"
    and root: "own (l0_table as) = Some (l0_table as, [])"
    and va: "4096 dvd unat va" "unat va < 2 ^ 48" and pr: "present (pt_mem s) (l0_table as) va"
    and none: "\<not> pp_execute p" "\<not> pp_read p" "\<not> pp_write p"
    and page: "unat page < 2 ^ 36"
  shows "\<exists>s1 s2. protect_range R as (page_of va) p s = (Ok (), s1) \<and>
    protect_range R as (page_of va) q s1 = (Ok (), s2) \<and>
    translate R as va s2 = (Ok None, s2) \<and>
    map_page L R as page va perms s2 = (Err (MappingError AlreadyMapped), s2)"
proof -
  let ?root = "l0_table as"
  note sw = mark_as_swapped_low
  obtain s1 where s1: "protect_range R as (page_of va) p s = (Ok (), s1)" "pt_tree own (pt_mem s1)"
    "entry (pt_mem s1) ?root va = (0, protect_desc R p (pte (pt_mem s) ?root va))"
    using protect_page [OF tree root va pr] by blast
  have d1: "pte (pt_mem s1) ?root va AND 3 = 2" using s1(3) none sw by (simp add: protect_desc_def)
  then have "present (pt_mem s1) ?root va" using s1(3) by (simp add: present_def occupied_def is_valid_def)
  then obtain s2 where s2: "protect_range R as (page_of va) q s1 = (Ok (), s2)" "pt_tree own (pt_mem s2)"
    "entry (pt_mem s2) ?root va = (0, protect_desc R q (pte (pt_mem s1) ?root va))"
    using protect_page [OF s1(2) root va] by blast
  have d2: "pte (pt_mem s2) ?root va AND 3 = 2"
    using s2(3) d1 sw bitfields.set_permissions_low [OF R] by (simp add: protect_desc_def)
  then have pr2: "present (pt_mem s2) ?root va" using s2(3) by (simp add: present_def occupied_def is_valid_def)
  have "view R (pt_mem s2) ?root va = None" using s2(3) d2 by (simp add: view_def L3Descriptor_def)
  then have "translate R as va s2 = (Ok None, s2)"
    using translate_run [OF R s2(2) root va(2)] pr2 by (simp add: translation_def)
  then show ?thesis using s1(1) s2(1) map_page_occupied [OF va(1) pr2 page] by blast
qed

section \<open>Instances\<close>

text \<open>Four free frames, and an address space whose only table, at \<open>0x1000\<close>, is empty.\<close>

definition pool4 :: "nat list frame_allocator" where
  "pool4 = \<lparr>pages = [\<lparr>fr_state = Free 2, fr_pfn = 8\<rparr>, \<lparr>fr_state = Uninitialized, fr_pfn = 9\<rparr>,
       \<lparr>fr_state = Uninitialized, fr_pfn = 10\<rparr>, \<lparr>fr_state = Uninitialized, fr_pfn = 11\<rparr>],
     base_page = 8, total_pages = 4, free_pages = 4, free_lists = [[], [], [0]] @ replicate 8 []\<rparr>"

lemma pool4_blocks: "free_block pool4 i k \<longleftrightarrow> i = 0 \<and> k = 2" "\<not> allocated_block pool4 i k"
  by (auto simp: free_block_def allocated_block_def pool4_def less_Suc_eq nth_Cons split: nat.splits)

lemma pool4_free: "free_set pool4 = {0, 1, 2, 3}"
  by (auto simp: in_free_set pool4_blocks blk_def)

lemma pool4_inv: "frames_ok id pool4"
proof -
  have "fa_wf pool4"
    by (simp add: fa_wf_def pool4_def MAX_ORDER_def less_Suc_eq nth_Cons split: nat.splits)
  moreover have "blocks_ok pool4 {}"
    by (rule blocks_okI)
      (auto simp: block_def pool4_blocks, auto simp: pool4_def MAX_ORDER_def)
  moreover have "lists_ok id pool4"
    unfolding lists_ok_def pool4_blocks
    by (auto simp: pool4_def MAX_ORDER_def nth_Cons nth_append numeral_eq_Suc split: nat.splits)
  moreover have "coalesced pool4" by (simp add: coalesced_def pool4_blocks)
  moreover have "unat (free_pages pool4) = card (free_set pool4)"
    by (simp add: pool4_free) (simp add: pool4_def)
  ultimately show ?thesis by (simp add: buddy_inv_def)
qed

lemma pool4_addrs: "free_frame_addrs pool4 = {0x8000, 0x9000, 0xa000, 0xb000}"
  by (simp add: free_frame_addrs_def pool4_free pa_def PAGE_SHIFT_def) (simp add: pool4_def)

definition pt0 :: "nat list frame_allocator pt_state" where
  "pt0 = \<lparr>pt_mem = \<lambda>_. 0, pt_alloc = pool4\<rparr>"

definition as0 :: arm64_process_address_space where "as0 = \<lparr>l0_table = 0x1000\<rparr>"

definition own0 :: owner where "own0 = [0x1000 \<mapsto> (0x1000, [])]"

lemma own0_root: "own0 (l0_table as0) = Some (l0_table as0, [])"
  by (simp add: own0_def as0_def)

lemma pt0_ok: "pt_ok (frames_ok id) free_frame_addrs own0 pt0"
  using pool4_inv
  by (auto simp: pt_ok_def pt0_def pt_tree_def own0_def pool4_addrs is_page_aligned_iff)

lemma pt0_empty: "\<not> occupied (pt_mem pt0) root va"
  by (simp add: occupied_def entry_def pt0_def leaf_zero is_valid_def)

text \<open>Frame 7 mapped at \<open>0x5000\<close>.\<close>

lemma mapped_page:
  "\<exists>s own. map_page list_ops_list tock_registers as0 7 0x5000 (pte_rw True) pt0 = (Ok (), s) \<and>
     pt_ok (frames_ok id) free_frame_addrs own s \<and> own (l0_table as0) = Some (l0_table as0, []) \<and>
     present (pt_mem s) (l0_table as0) 0x5000 \<and>
     view tock_registers (pt_mem s) (l0_table as0) 0x5000 = Some (0x7000, pte_rw True) \<and>
     no_blocks (pt_mem s) (l0_table as0) (page_of 0x5000)"
proof -
  have "3 \<le> card (free_frame_addrs (pt_alloc pt0))" by (simp add: pt0_def pool4_addrs)
  then obtain s own where "map_page list_ops_list tock_registers as0 7 0x5000 (pte_rw True) pt0 = (Ok (), s)"
    "own0 \<subseteq>\<^sub>m own" "pt_ok (frames_ok id) free_frame_addrs own s" "present (pt_mem s) (l0_table as0) 0x5000"
    "view tock_registers (pt_mem s) (l0_table as0) 0x5000 = Some (pa 7, (pte_rw True)\<lparr>pp_read := True\<rparr>)"
    using map_page_run [OF list_frames.frame_list_axioms tock.bitfields_axioms pt0_ok own0_root _ _ _ pt0_empty,
        of "0x5000" 7 "pte_rw True"] by auto
  then show ?thesis
    using owned_mono [of own0 own, OF _ own0_root] no_blocks_page [of "0x5000" "pt_mem s" "l0_table as0"]
    by (auto simp: pa_def PAGE_SHIFT_def pte_rw_def)
qed

theorem map_range_correct_witness:
  "\<exists>res s' own' k. map_range (allocate_page_table list_ops_list) tock_registers 0x1000
      \<lparr>ma_phys = new_region 0x200000 0x201000, ma_virt = new_region 0x400000 0x201000,
       ma_mem_type = Normal, ma_perms = pte_rw True\<rparr> pt0 = (res, s') \<and>
    own0 \<subseteq>\<^sub>m own' \<and> pt_ok (frames_ok id) free_frame_addrs own' s' \<and>
    ((\<exists>e. res = Err e) \<or> res = Ok () \<and>
      view tock_registers (pt_mem s') 0x1000 0x400123 = Some (0x200123, pte_rw True))"
proof -
  let ?a = "\<lparr>ma_phys = new_region 0x200000 0x201000, ma_virt = new_region 0x400000 0x201000,
       ma_mem_type = Normal, ma_perms = pte_rw True\<rparr>"
  have "attrs_ok ?a" by (simp add: attrs_ok_def new_region_def lo_def hi_def)
  then obtain res s' own' k where r: "map_range (allocate_page_table list_ops_list) tock_registers 0x1000 ?a pt0 = (res, s')"
    "own0 \<subseteq>\<^sub>m own'" "pt_ok (frames_ok id) free_frame_addrs own' s'"
    "maps_prefix tock_registers own0 0x1000 ?a k (pt_mem pt0) (pt_mem s')"
    "(\<exists>e. res = Err e) \<or> res = Ok () \<and> k = 0x201000"
    using map_range_correct [OF list_frames.frame_list_axioms tock.bitfields_axioms pt0_ok own0_root, of ?a]
    by (auto simp: as0_def new_region_def)
  have "view tock_registers (pt_mem s') 0x1000 0x400123 = Some (0x200123, pte_rw True)" if "k = 0x201000"
    using conjunct1 [OF r(4) [unfolded maps_prefix_def], rule_format, of "0x400123"] that
    by (simp add: new_region_def lo_def start_address_def pte_rw_def)
  then show ?thesis using r by blast
qed

theorem walk_and_modify_region_eq_witness:
  "walk_and_modify_region (\<lambda>va d ws. (Ok invalid, ws)) 0x1000 (new_region 0x1ff000 0x3000) (pt0, ()) =
   st_iter (at_page (\<lambda>va d ws. (Ok invalid, ws)) 0x1000) [0x1ff000, 0x200000, 0x201000] (pt0, ())"
proof -
  have "pt_tree own0 (pt_mem (fst (pt0, ())))" "own0 0x1000 = Some (0x1000, [])"
    using pt0_ok own0_root by (simp_all add: pt_ok_def as0_def)
  moreover have "keeps_upper own0 (\<lambda>va d ws. (Ok invalid, ws))"
    by (simp add: keeps_upper_def upper_same_def)
  moreover have "4096 dvd lo (new_region 0x1ff000 0x3000)" "4096 dvd hi (new_region 0x1ff000 0x3000)"
    "hi (new_region 0x1ff000 0x3000) \<le> 2 ^ 48" by (simp_all add: lo_def hi_def new_region_def)
  moreover have "iter_pages (new_region 0x1ff000 0x3000) = [0x1ff000, 0x200000, 0x201000]"
    by (simp add: iter_pages_def new_region_def PAGE_SHIFT_def drop_bit_eq_div add_pages_def PAGE_SIZE_def
        start_address_def upt_rec)
  ultimately show ?thesis
    using walk_and_modify_region_eq [of own0 "(pt0, ())" "0x1000" "\<lambda>va d ws. (Ok invalid, ws)" "new_region 0x1ff000 0x3000"]
    by simp
qed

lemma page5: "4096 dvd lo (page_of 0x5000)" "4096 dvd hi (page_of 0x5000)" "hi (page_of 0x5000) \<le> 2 ^ 48"
  "iter_pages (page_of 0x5000) = [0x5000]" "page_aligned 0x5000 = 0x5000"
proof -
  show "page_aligned 0x5000 = 0x5000" by (simp add: page_aligned_iff)
  then show "4096 dvd lo (page_of 0x5000)" "4096 dvd hi (page_of 0x5000)" "hi (page_of 0x5000) \<le> 2 ^ 48"
    "iter_pages (page_of 0x5000) = [0x5000]"
    using page_of [of "0x5000"] by simp_all
qed

theorem unmap_range_correct_witness:
  "\<exists>s s'. map_page list_ops_list tock_registers as0 7 0x5000 (pte_rw True) pt0 = (Ok (), s) \<and>
     unmap_range tock_registers as0 (page_of 0x5000) s = (Ok [7], s') \<and>
     \<not> occupied (pt_mem s') (l0_table as0) 0x5000"
proof -
  obtain s own where s: "map_page list_ops_list tock_registers as0 7 0x5000 (pte_rw True) pt0 = (Ok (), s)"
    "pt_ok (frames_ok id) free_frame_addrs own s" "own (l0_table as0) = Some (l0_table as0, [])"
    "present (pt_mem s) (l0_table as0) 0x5000"
    "view tock_registers (pt_mem s) (l0_table as0) 0x5000 = Some (0x7000, pte_rw True)"
    "no_blocks (pt_mem s) (l0_table as0) (page_of 0x5000)"
    using mapped_page by blast
  have tree: "pt_tree own (pt_mem s)" using s(2) by (simp add: pt_ok_def)
  have "0x5000 AND mask 12 = (0 :: usize)" by (simp add: mask_eq_exp_minus_1)
  then have "frame_at tock_registers (pt_mem s) (l0_table as0) 0x5000 = Some 7"
    using s(4,5) by (auto simp: frame_at_def present_def view_def to_pfn_def PAGE_SHIFT_def drop_bit_eq_div
        split: if_splits option.splits outcome.splits prod.splits)
  then obtain m' where m': "unmap_range tock_registers as0 (page_of 0x5000) s = (Ok [7], s\<lparr>pt_mem := m'\<rparr>)"
    "\<And>va. unat va < 2 ^ 48 \<Longrightarrow> lo (page_of 0x5000) \<le> unat va \<Longrightarrow> unat va < hi (page_of 0x5000) \<Longrightarrow>
      \<not> occupied m' (l0_table as0) va"
    using unmap_range_correct [OF tree s(3) page5(1-3) s(6), of tock_registers] s(3)
    by (auto simp: page5(4) map_filter_simps)
  have "\<not> occupied m' (l0_table as0) 0x5000"
    using m'(2) [of "0x5000"] page5(5) page_of [of "0x5000"] by simp
  then show ?thesis using s(1) m'(1) by (intro exI [of _ s] exI [of _ "s\<lparr>pt_mem := m'\<rparr>"]) simp
qed

theorem protect_range_correct_witness:
  "\<exists>s s'. map_page list_ops_list tock_registers as0 7 0x5000 (pte_rw True) pt0 = (Ok (), s) \<and>
     protect_range tock_registers as0 (page_of 0x5000) (pte_ro True) s = (Ok (), s') \<and>
     view tock_registers (pt_mem s') (l0_table as0) 0x5000 = Some (0x7000, pte_ro True)"
proof -
  obtain s own where s: "map_page list_ops_list tock_registers as0 7 0x5000 (pte_rw True) pt0 = (Ok (), s)"
    "pt_ok (frames_ok id) free_frame_addrs own s" "own (l0_table as0) = Some (l0_table as0, [])"
    "view tock_registers (pt_mem s) (l0_table as0) 0x5000 = Some (0x7000, pte_rw True)"
    "no_blocks (pt_mem s) (l0_table as0) (page_of 0x5000)"
    using mapped_page by blast
  have tree: "pt_tree own (pt_mem s)" using s(2) by (simp add: pt_ok_def)
  have ro: "pp_execute (pte_ro True) \<or> pp_read (pte_ro True) \<or> pp_write (pte_ro True)"
    "(pte_ro True)\<lparr>pp_read := True\<rparr> = pte_ro True" by (simp_all add: pte_ro_def)
  obtain m' where m': "protect_range tock_registers as0 (page_of 0x5000) (pte_ro True) s = (Ok (), s\<lparr>pt_mem := m'\<rparr>)"
    "\<And>va. unat va < 2 ^ 48 \<Longrightarrow> view tock_registers m' (l0_table as0) va =
      (if lo (page_of 0x5000) \<le> unat va \<and> unat va < hi (page_of 0x5000)
       then map_option (\<lambda>(a, _). (a, pte_ro True)) (view tock_registers (pt_mem s) (l0_table as0) va)
       else view tock_registers (pt_mem s) (l0_table as0) va)"
    using protect_range_correct [OF tock.bitfields_axioms tree s(3) page5(1-3) s(5) ro(1)] s(3) ro(2) by auto
  have "view tock_registers m' (l0_table as0) 0x5000 = Some (0x7000, pte_ro True)"
    using m'(2) [of "0x5000"] s(4) page5(5) page_of [of "0x5000"] by simp
  then show ?thesis using s(1) m'(1) by (intro exI [of _ s] exI [of _ "s\<lparr>pt_mem := m'\<rparr>"]) simp
qed

theorem map_page_live_witness:
  "\<exists>s. map_page list_ops_list tock_registers as0 7 0x5000 (pte_rw True) pt0 = (Ok (), s) \<and>
     translate tock_registers as0 0x5678 s = (Ok (Some \<lparr>pi_pfn = 7, pi_perms = pte_rw True\<rparr>), s)"
proof -
  have "page_aligned 0x5678 = 0x5000" by (simp add: word_unat_eq_iff unat_page_aligned round_down_def)
  moreover have "3 \<le> card (free_frame_addrs (pt_alloc pt0))" by (simp add: pt0_def pool4_addrs)
  moreover have "(pte_rw True)\<lparr>pp_read := True\<rparr> = pte_rw True" by (simp add: pte_rw_def)
  ultimately show ?thesis
    using map_page_live [OF list_frames.frame_list_axioms tock.bitfields_axioms pt0_ok own0_root _ _ _ pt0_empty,
        of "0x5000" 7 "pte_rw True"] by auto
qed

theorem protect_none_irreversible_witness:
  "\<exists>s s1 s2. map_page list_ops_list tock_registers as0 7 0x5000 (pte_rw True) pt0 = (Ok (), s) \<and>
     protect_range tock_registers as0 (page_of 0x5000) (pte_rw True\<lparr>pp_read := False, pp_write := False\<rparr>) s =
       (Ok (), s1) \<and>
     protect_range tock_registers as0 (page_of 0x5000) (pte_rw True) s1 = (Ok (), s2) \<and>
     translate tock_registers as0 0x5000 s2 = (Ok None, s2) \<and>
     map_page list_ops_list tock_registers as0 7 0x5000 (pte_rw True) s2 =
       (Err (MappingError AlreadyMapped), s2)"
proof -
  obtain s own where s: "map_page list_ops_list tock_registers as0 7 0x5000 (pte_rw True) pt0 = (Ok (), s)"
    "pt_ok (frames_ok id) free_frame_addrs own s" "own (l0_table as0) = Some (l0_table as0, [])"
    "present (pt_mem s) (l0_table as0) 0x5000"
    using mapped_page by blast
  have tree: "pt_tree own (pt_mem s)" using s(2) by (simp add: pt_ok_def)
  show ?thesis
    using protect_none_irreversible [OF tock.bitfields_axioms tree s(3) _ _ s(4),
        of "pte_rw True\<lparr>pp_read := False, pp_write := False\<rparr>" 7 "pte_rw True" list_ops_list "pte_rw True"] s(1)
    by (auto simp: pte_rw_def)
qed

end
