(* ===== verification/MemoryMapArm64.thy ===== *)
theory MemoryMapArm64
  imports MemoryMapProps AddressSpaceProps
begin

text \<open>
  The arm64 page tables as the page tables of a memory map. The state below a map is the address space of
  the process with the memory and the frame allocator. The interface \<open>user_address_space\<close> holds on it,
  with the end of the user address space at \<open>2 ^ 48\<close>, so the theorems on memory maps apply to the
  modelled tables. Creating a second address space and cloning into it are arguments: no
  operation below calls them.
\<close>

type_synonym 'al arm64_state = "arm64_process_address_space \<times> 'al pt_state"

definition arm64_as ::
  "reg_ops \<Rightarrow> 'al arm64_state outcome \<Rightarrow>
   (region \<Rightarrow> pte_permissions \<Rightarrow> 'al arm64_state \<Rightarrow> 'al arm64_state \<Rightarrow> unit outcome \<times> 'al arm64_state \<times> 'al arm64_state) \<Rightarrow>
   'al arm64_state as_ops" where
  "arm64_as R new clone = \<lparr>
     as_new = new,
     as_unmap_range = (\<lambda>r (as, s). case unmap_range R as r s of (q, s') \<Rightarrow> (q, (as, s'))),
     as_protect_range = (\<lambda>r p (as, s). case protect_range R as r p s of (q, s') \<Rightarrow> (q, (as, s'))),
     as_protect_and_clone_region = clone\<rparr>"

text \<open>The tables form a tree and user pages are mapped one by one.\<close>

definition arm64_ok :: "'al arm64_state \<Rightarrow> bool" where
  "arm64_ok x \<longleftrightarrow> (\<exists>own. pt_tree own (pt_mem (snd x)) \<and> own (l0_table (fst x)) = Some (l0_table (fst x), []) \<and>
     (\<forall>va. unat va < 2 ^ 48 \<and> occupied (pt_mem (snd x)) (l0_table (fst x)) va \<longrightarrow>
        present (pt_mem (snd x)) (l0_table (fst x)) va))"

definition arm64_mapped :: "'al arm64_state \<Rightarrow> nat set" where
  "arm64_mapped x = {a. a < 2 ^ 48 \<and> occupied (pt_mem (snd x)) (l0_table (fst x)) (of_nat a)}"

text \<open>Rewriting the page entries of a region, each to a page entry, or to an entry without the valid bits,
  keeps \<open>arm64_ok\<close>; what stays mapped follows from the rewritten entries.\<close>

lemma arm64_rewrite:
  assumes tree: "pt_tree own m'" and root: "own (l0_table as) = Some (l0_table as, [])"
    and pages: "\<forall>va. unat va < 2 ^ 48 \<and> occupied (pt_mem s) (l0_table as) va \<longrightarrow> present (pt_mem s) (l0_table as) va"
    and new: "\<forall>r va. own r = Some (r, []) \<and> unat va < 2 ^ 48 \<longrightarrow> entry m' r va =
      (if r = l0_table as \<and> lo rg \<le> unat va \<and> unat va < hi rg \<and> present (pt_mem s) (l0_table as) va
       then (0, g va (pte (pt_mem s) (l0_table as) va)) else entry (pt_mem s) r va)"
    and valid: "\<And>va d. is_valid d \<Longrightarrow> is_valid (g va d) = keep"
  shows "arm64_ok (as, s\<lparr>pt_mem := m'\<rparr>)"
    "arm64_mapped (as, s\<lparr>pt_mem := m'\<rparr>) = (if keep then arm64_mapped (as, s) else arm64_mapped (as, s) - bytes_of rg)"
proof -
  let ?root = "l0_table as" and ?m = "pt_mem s"
  have e: "entry m' ?root va = (if lo rg \<le> unat va \<and> unat va < hi rg \<and> present ?m ?root va
      then (0, g va (pte ?m ?root va)) else entry ?m ?root va)" if "unat va < 2 ^ 48" for va
    using new root that by simp
  have oc: "occupied m' ?root va \<longleftrightarrow>
      occupied ?m ?root va \<and> (keep \<or> \<not> (lo rg \<le> unat va \<and> unat va < hi rg))" if "unat va < 2 ^ 48" for va
    using e [OF that] pages that valid [of "pte ?m ?root va" va]
    by (auto simp: occupied_def present_def split: if_splits)
  have "present m' ?root va" if "unat va < 2 ^ 48" "occupied m' ?root va" for va
    using e [OF that(1)] pages that oc [OF that(1)] valid [of "pte ?m ?root va" va]
    by (auto simp: occupied_def present_def split: if_splits)
  then show "arm64_ok (as, s\<lparr>pt_mem := m'\<rparr>)" using tree root by (auto simp: arm64_ok_def)
  have "unat (of_nat a :: usize) = a" if "a < 2 ^ 48" for a using that by (simp add: unat_of_nat)
  then show "arm64_mapped (as, s\<lparr>pt_mem := m'\<rparr>) = (if keep then arm64_mapped (as, s) else arm64_mapped (as, s) - bytes_of rg)"
    using oc by (auto simp: arm64_mapped_def bytes_of_def)
qed

lemma protect_desc_valid:
  assumes "bitfields R" "is_valid d"
  shows "is_valid (protect_desc R p d)"
  using assms bitfields.set_permissions_low [OF assms(1)] mark_as_swapped_low
  by (auto simp: protect_desc_def is_valid_def)

theorem arm64_address_space:
  assumes R: "bitfields R"
  shows "user_address_space (arm64_as R new clone) arm64_ok arm64_mapped (2 ^ 48)"
proof
  fix x :: "'a arm64_state" and r p
  assume ok: "arm64_ok x" and r: "page_region_ok r" "hi r \<le> 2 ^ 48"
  obtain as s where x: "x = (as, s)" by (cases x)
  obtain own where own: "pt_tree own (pt_mem s)" "own (l0_table as) = Some (l0_table as, [])"
    and pages: "\<forall>va. unat va < 2 ^ 48 \<and> occupied (pt_mem s) (l0_table as) va \<longrightarrow> present (pt_mem s) (l0_table as) va"
    using ok by (auto simp: x arm64_ok_def)
  have al: "4096 dvd lo r" "4096 dvd hi r" using r(1) by (simp_all add: page_region_ok_def)
  have nb: "no_blocks (pt_mem s) (l0_table as) r" using pages r(2) by (auto simp: no_blocks_def)
  obtain ps m' where m': "unmap_range R as r s = (Ok ps, s\<lparr>pt_mem := m'\<rparr>)" "pt_tree own m'"
    "\<forall>t va. own t = Some (t, []) \<and> unat va < 2 ^ 48 \<longrightarrow> entry m' t va =
      (if t = l0_table as \<and> lo r \<le> unat va \<and> unat va < hi r \<and> present (pt_mem s) (l0_table as) va
       then (0, invalid) else entry (pt_mem s) t va)"
    using unmap_range_rewrites [OF own al r(2) nb, of R] by blast
  have "arm64_ok (as, s\<lparr>pt_mem := m'\<rparr>)" "arm64_mapped (as, s\<lparr>pt_mem := m'\<rparr>) = arm64_mapped (as, s) - bytes_of r"
    using arm64_rewrite [OF m'(2) own(2) pages m'(3), of False] by (simp_all add: is_valid_def invalid_def)
  then show "\<exists>ps s'. as_unmap_range (arm64_as R new clone) r x = (Ok ps, s') \<and> arm64_ok s' \<and>
      arm64_mapped s' = arm64_mapped x - bytes_of r"
    using m'(1) by (auto simp: x arm64_as_def)
  obtain m2 where m2: "protect_range R as r p s = (Ok (), s\<lparr>pt_mem := m2\<rparr>)" "pt_tree own m2"
    "\<forall>t va. own t = Some (t, []) \<and> unat va < 2 ^ 48 \<longrightarrow> entry m2 t va =
      (if t = l0_table as \<and> lo r \<le> unat va \<and> unat va < hi r \<and> present (pt_mem s) (l0_table as) va
       then (0, protect_desc R p (pte (pt_mem s) (l0_table as) va)) else entry (pt_mem s) t va)"
    using protect_range_rewrites [OF own al r(2) nb, of R p] by blast
  have "arm64_ok (as, s\<lparr>pt_mem := m2\<rparr>)" "arm64_mapped (as, s\<lparr>pt_mem := m2\<rparr>) = arm64_mapped (as, s)"
    using arm64_rewrite [where g = "\<lambda>_. protect_desc R p", OF m2(2) own(2) pages m2(3), of True]
      protect_desc_valid [OF R] by simp_all
  then show "\<exists>s'. as_protect_range (arm64_as R new clone) r p x = (Ok (), s') \<and> arm64_ok s' \<and>
      arm64_mapped s' = arm64_mapped x"
    using m2(1) by (auto simp: x arm64_as_def)
next
  show "unat MMAP_BASE \<le> 2 ^ 48" by (simp add: MMAP_BASE_def)
qed

interpretation arm64: user_address_space "arm64_as tock_registers new clone" arm64_ok arm64_mapped "2 ^ 48"
  for new clone
  by (rule arm64_address_space [OF tock.bitfields_axioms])

section \<open>Instances\<close>

text \<open>A file mapping and empty arm64 tables.\<close>

definition arm64_map :: "(nat, nat list frame_allocator arm64_state) memory_map" where
  "arm64_map = \<lparr>vmas = vmas file_map, address_space = (as0, pt0)\<rparr>"

lemma pt0_arm64: "arm64_ok (as0, pt0)" "arm64_mapped (as0, pt0) = {}"
  using pt0_ok own0_root pt0_empty by (auto simp: arm64_ok_def arm64_mapped_def pt_ok_def)

lemma file_map_at: "attr_at (vmas file_map) a = (if 0x1000 \<le> a \<and> a < 0x4000 then Some (vma_ro, Some 7) else None)"
  by (auto simp: attr_at_def vma_at_def attr_def file_map_def new_vmarea_def new_file_kind_def new_region_def
      bytes_of_def lo_def hi_def)

lemma arm64_map_ok: "mm_ok arm64_ok arm64_mapped (2 ^ 48) arm64_map"
  using file_map_ok pt0_arm64 by (auto simp: mm_ok_def below_def arm64_map_def file_map_at split: if_splits)

theorem mmap_correct_witness:
  "\<forall>new clone. \<exists>r mm'. mmap (arm64_as tock_registers new clone) arm64_map Any 0x1800 vma_rw Anon =
      (Ok (start_address r), mm') \<and> unat (rg_size r) = 0x2000 \<and> region_free (vmas arm64_map) r \<and>
    attr_at (vmas mm') (lo r) = Some (vma_rw, None) \<and> attr_at (vmas mm') 0x1000 = Some (vma_ro, Some 7) \<and>
    mm_ok arm64_ok arm64_mapped (2 ^ 48) mm'"
proof (intro allI)
  fix new :: "nat list frame_allocator arm64_state outcome" and clone
  let ?A = "arm64_as tock_registers new clone" and ?q = "new_region 0x5000 0x2000"
  have n: "round_len 0x1800 = 0x2000" by code_simp
  have "page_region_ok ?q" "hi ?q \<le> unat MMAP_BASE" "rg_size ?q = 0x2000" "region_free (vmas arm64_map) ?q"
    by (simp_all add: new_region_def page_region_ok_def wf_region_def lo_def hi_def MMAP_BASE_def region_free_def
        bytes_of_def arm64_map_def file_map_at)
  then have "\<not> no_room (vmas arm64_map) 0x2000" unfolding no_room_def by blast
  then obtain r mm' where r: "mmap ?A arm64_map Any 0x1800 vma_rw Anon = (Ok (start_address r), mm')"
    "page_region_ok r" "unat (rg_size r) = round_up 4096 (unat (0x1800 :: usize))"
    "region_free (vmas arm64_map) r \<and> hi r \<le> 2 ^ 48"
    "\<And>a. attr_at (vmas mm') a =
        (if a \<in> bytes_of r then Some (attr (new_vmarea r Anon vma_rw)) else attr_at (vmas arm64_map) a)"
    "hi r \<le> 2 ^ 48 \<longrightarrow> mm_ok arm64_ok arm64_mapped (2 ^ 48) mm'"
    using mmap_correct [OF arm64.user_address_space_axioms arm64_map_ok, of "0x1800" Any new clone vma_rw Anon] n
    by (auto simp: refused_def request_fits_def)
  have m: "attr_at (vmas arm64_map) 0x1000 = Some (vma_ro, Some 7)" by (simp add: arm64_map_def file_map_at)
  then have "0x1000 \<notin> bytes_of r" using r(4) by (auto simp: region_free_def)
  then have "attr_at (vmas mm') 0x1000 = Some (vma_ro, Some 7)" using r(5) m by simp
  moreover have "attr_at (vmas mm') (lo r) = Some (vma_rw, None)"
    using r(5) page_region_okD(4) [OF r(2)] by (simp add: attr_def new_vmarea_def)
  ultimately show "\<exists>r mm'. mmap ?A arm64_map Any 0x1800 vma_rw Anon = (Ok (start_address r), mm') \<and>
    unat (rg_size r) = 0x2000 \<and> region_free (vmas arm64_map) r \<and>
    attr_at (vmas mm') (lo r) = Some (vma_rw, None) \<and> attr_at (vmas mm') 0x1000 = Some (vma_ro, Some 7) \<and>
    mm_ok arm64_ok arm64_mapped (2 ^ 48) mm'"
    using r(1,3,4,6) by (intro exI [of _ r] exI [of _ mm']) (simp add: round_up_def)
qed

theorem munmap_correct_witness:
  "\<forall>new clone. \<exists>ps mm'. munmap (arm64_as tock_registers new clone) arm64_map (new_region 0x2000 0x1000) = (Ok ps, mm') \<and>
    mm_ok arm64_ok arm64_mapped (2 ^ 48) mm' \<and>
    attr_at (vmas mm') 0x2abc = None \<and> attr_at (vmas mm') 0x1abc = Some (vma_ro, Some 7) \<and>
    attr_at (vmas mm') 0x3abc = Some (vma_ro, Some 7)"
proof (intro allI)
  fix new :: "nat list frame_allocator arm64_state outcome" and clone
  let ?r = "new_region 0x2000 0x1000"
  have "region_is_page_aligned ?r \<and> rg_size ?r \<noteq> 0" "hi ?r + 4095 < 2 ^ 64" "lo ?r = 0x2000" "hi ?r = 0x3000"
    by (simp_all add: region_is_page_aligned_def is_page_aligned_iff new_region_def lo_def hi_def)
  then show "\<exists>ps mm'. munmap (arm64_as tock_registers new clone) arm64_map ?r = (Ok ps, mm') \<and>
    mm_ok arm64_ok arm64_mapped (2 ^ 48) mm' \<and>
    attr_at (vmas mm') 0x2abc = None \<and> attr_at (vmas mm') 0x1abc = Some (vma_ro, Some 7) \<and>
    attr_at (vmas mm') 0x3abc = Some (vma_ro, Some 7)"
    using munmap_correct [OF arm64.user_address_space_axioms arm64_map_ok, of ?r new clone]
    by (auto simp: arm64_map_def file_map_at round_up_def)
qed


theorem resize_brk_correct_witness:
  "\<forall>new clone. \<exists>vm'. resize_brk (arm64_as tock_registers new clone) \<lparr>mm_map = arm64_map, brk = new_region 0x5000 0x1000\<rparr> 0x7800 =
      (Ok 0x7800, vm') \<and> hi (brk vm') = 0x8000 \<and>
    attr_at (vmas (mm_map vm')) 0x6abc = Some (vma_rw, None) \<and> attr_at (vmas (mm_map vm')) 0x8000 = None \<and>
    brk_ok arm64_ok arm64_mapped (2 ^ 48) vm'"
proof (intro allI)
  fix new :: "nat list frame_allocator arm64_state outcome" and clone
  let ?vm = "\<lparr>mm_map = arm64_map, brk = new_region 0x5000 0x1000\<rparr>"
  have ok: "brk_ok arm64_ok arm64_mapped (2 ^ 48) ?vm"
    using arm64_map_ok by (simp add: brk_ok_def new_region_def wf_region_def lo_def hi_def)
  have E: "round_up 4096 (unat (0x7800 :: usize)) = 0x8000" by (simp add: round_up_def)
  have b: "lo (brk ?vm) = 0x5000" "hi (brk ?vm) = 0x6000" by (simp_all add: new_region_def lo_def hi_def)
  have at: "attr_at (vmas (mm_map ?vm)) a = (if 0x1000 \<le> a \<and> a < 0x4000 then Some (vma_ro, Some 7) else None)" for a
    by (simp add: arm64_map_def file_map_at)
  have free: "(0x8000 > (0x6000 :: nat) \<and> (\<exists>a. 0x6000 \<le> a \<and> a < 0x8000 \<and> attr_at (vmas (mm_map ?vm)) a \<noteq> None)) = False"
    unfolding at by auto
  obtain vm' where "resize_brk (arm64_as tock_registers new clone) ?vm 0x7800 = (Ok 0x7800, vm')"
    "brk_ok arm64_ok arm64_mapped (2 ^ 48) vm'" "hi (brk vm') = 0x8000"
    "\<forall>a. attr_at (vmas (mm_map vm')) a = (if 0x6000 \<le> a \<and> a < 0x8000 then Some (vma_rw, None)
       else if 0x8000 \<le> a \<and> a < 0x6000 then None else attr_at (vmas (mm_map ?vm)) a)"
    using resize_brk_correct [OF arm64.user_address_space_axioms ok, of "0x7800" new clone]
    unfolding E b free by auto
  then show "\<exists>vm'. resize_brk (arm64_as tock_registers new clone) ?vm 0x7800 = (Ok 0x7800, vm') \<and> hi (brk vm') = 0x8000 \<and>
    attr_at (vmas (mm_map vm')) 0x6abc = Some (vma_rw, None) \<and> attr_at (vmas (mm_map vm')) 0x8000 = None \<and>
    brk_ok arm64_ok arm64_mapped (2 ^ 48) vm'"
    unfolding at by auto
qed

end
