(* ===== verification/FdTable.thy ===== *)
theory FdTable
  imports Prelude
begin

text \<open>
  The file descriptor table of a process (\<open>src/process/fd_table.rs\<close>) and the system calls that change
  it: \<open>dup\<close> and \<open>dup3\<close> (\<open>fd_table/dup.rs\<close>), \<open>fcntl\<close> (\<open>fd_table/fcntl.rs\<close>) and \<open>close\<close>
  (\<open>src/fs/syscalls/close.rs\<close>). A descriptor is an \<open>i32\<close>, kept as its 32 bits; an open file is an
  opaque handle, the \<open>Arc\<close> of the source. The vector of entries is a list, its growth panics beyond
  the size Rust allows for an allocation.
\<close>

section \<open>Descriptors\<close>

type_synonym fd = "32 word"

definition AT_FDCWD :: fd where "AT_FDCWD = -100"

definition is_atcwd :: "fd \<Rightarrow> bool" where "is_atcwd f \<longleftrightarrow> f = AT_FDCWD"

definition fd_from :: "u64 \<Rightarrow> fd" where "fd_from value = ucast value"

definition CLOEXEC :: u32 where "CLOEXEC = 1"

definition O_CLOEXEC :: u32 where "O_CLOEXEC = 0x80000"

text \<open>The cast of an \<open>i32\<close> to \<open>usize\<close> extends the sign.\<close>

definition as_usize :: "fd \<Rightarrow> usize" where "as_usize f = scast f"

section \<open>The table\<close>

record 'f file_descriptor_entry =
  fe_file :: 'f
  fe_flags :: u32

record 'f file_descriptor_table =
  entries :: "'f file_descriptor_entry option list"
  next_fd_hint :: nat

definition MAX_FDS :: nat where "MAX_FDS = 8192"

definition new_fd_table :: "'f file_descriptor_table" where
  "new_fd_table = \<lparr>entries = [], next_fd_hint = 0\<rparr>"

text \<open>\<open>self.entries.get(fd.0 as usize)\<close> and then the entry, if there is one.\<close>

definition entry_of :: "'f file_descriptor_table \<Rightarrow> fd \<Rightarrow> 'f file_descriptor_entry option" where
  "entry_of t f =
     (let i = unat (as_usize f) in if i < length (entries t) then entries t ! i else None)"

definition get_fd :: "'f file_descriptor_table \<Rightarrow> fd \<Rightarrow> 'f option" where
  "get_fd t f = map_option fe_file (entry_of t f)"

text \<open>The search of \<open>find_free_fd\<close> from index \<open>i\<close> on.\<close>

fun free_from :: "'a option list \<Rightarrow> nat \<Rightarrow> nat option" where
  "free_from [] i = None"
| "free_from (e # es) i = (if e = None then Some i else free_from es (Suc i))"

definition find_free_fd :: "'f file_descriptor_table \<Rightarrow> fd outcome \<times> 'f file_descriptor_table" where
  "find_free_fd t =
     (case free_from (drop (next_fd_hint t) (entries t)) (next_fd_hint t) of
        Some i \<Rightarrow> (Ok (of_nat i), t\<lparr>next_fd_hint := i + 1\<rparr>)
      | None \<Rightarrow>
          let next = length (entries t)
          in if next \<ge> MAX_FDS then (Err (Fs TooManyFiles), t)
             else (Ok (of_nat next), t\<lparr>next_fd_hint := next + 1\<rparr>))"

text \<open>An entry takes 16 bytes, and no allocation exceeds \<open>isize::MAX\<close> bytes.\<close>

definition vec_capacity :: usize where "vec_capacity = 0x7ffffffffffffff"

definition insert_at ::
  "'f file_descriptor_table \<Rightarrow> fd \<Rightarrow> 'f file_descriptor_entry \<Rightarrow>
   'f file_descriptor_entry option outcome \<times> 'f file_descriptor_table" where
  "insert_at t f entry =
     (let fd_idx = as_usize f; len = length (entries t); new_len = unat (fd_idx + 1) in
      if unat fd_idx \<ge> len \<and> fd_idx + 1 > vec_capacity then (Panic, t)
      else
        let es = (if unat fd_idx \<ge> len
                  then take new_len (entries t) @ replicate (new_len - len) None else entries t)
        in if unat fd_idx < length es
           then (Ok (es ! unat fd_idx), t\<lparr>entries := es[unat fd_idx := Some entry]\<rparr>)
           else (Panic, t\<lparr>entries := es\<rparr>))"

definition insert_fd ::
  "'f file_descriptor_table \<Rightarrow> 'f \<Rightarrow> fd outcome \<times> 'f file_descriptor_table" where
  "insert_fd t file =
     st_then (find_free_fd t) (\<lambda>f t.
     st_then (insert_at t f \<lparr>fe_file = file, fe_flags = 0\<rparr>) (\<lambda>_ t. (Ok f, t)))"

definition remove_fd ::
  "'f file_descriptor_table \<Rightarrow> fd \<Rightarrow> 'f option \<times> 'f file_descriptor_table" where
  "remove_fd t f =
     (case entry_of t f of
        Some old_entry \<Rightarrow>
          let fd_idx = unat (as_usize f)
          in (Some (fe_file old_entry),
              t\<lparr>entries := (entries t)[fd_idx := None], next_fd_hint := min (next_fd_hint t) fd_idx\<rparr>)
      | None \<Rightarrow> (None, t))"

definition clone_for_exec :: "'f file_descriptor_table \<Rightarrow> 'f file_descriptor_table" where
  "clone_for_exec t =
     \<lparr>entries = map (\<lambda>entry. case entry of
          Some e \<Rightarrow> if fe_flags e AND CLOEXEC \<noteq> CLOEXEC then Some e else None
        | None \<Rightarrow> None) (entries t),
      next_fd_hint = 0\<rparr>"

section \<open>System calls\<close>

definition sys_dup :: "'f file_descriptor_table \<Rightarrow> fd \<Rightarrow> usize outcome \<times> 'f file_descriptor_table" where
  "sys_dup t f =
     st_then (ok_or (get_fd t f) BadFd, t) (\<lambda>file t.
     st_then (insert_fd t file) (\<lambda>new_fd t. (Ok (as_usize new_fd), t)))"

definition sys_dup3 ::
  "'f file_descriptor_table \<Rightarrow> fd \<Rightarrow> fd \<Rightarrow> u32 \<Rightarrow> usize outcome \<times> 'f file_descriptor_table" where
  "sys_dup3 t oldfd newfd flags =
     (if oldfd = newfd then (Err InvalidValue, t)
      else if flags AND NOT O_CLOEXEC \<noteq> 0 then (Err InvalidValue, t)
      else st_then (ok_or (get_fd t oldfd) BadFd, t) (\<lambda>old_file t.
           st_then (insert_at t newfd
                      \<lparr>fe_file = old_file,
                       fe_flags = (if flags AND O_CLOEXEC = O_CLOEXEC then CLOEXEC else 0)\<rparr>) (\<lambda>_ t.
           (Ok (as_usize newfd), t))))"

text \<open>The flags an open file carries are those of its shared state, the argument \<open>file_flags\<close>.\<close>

definition sys_fcntl ::
  "('f \<Rightarrow> u32) \<Rightarrow> 'f file_descriptor_table \<Rightarrow> fd \<Rightarrow> u32 \<Rightarrow> usize \<Rightarrow>
   usize outcome \<times> 'f file_descriptor_table" where
  "sys_fcntl file_flags t f op arg =
     (if op = 0 then (Panic, t)
      else if op = 1 then
        st_then (ok_or (entry_of t f) BadFd, t) (\<lambda>e t. (Ok (ucast (fe_flags e)), t))
      else if op = 2 then
        st_then (ok_or (entry_of t f) BadFd, t) (\<lambda>e t.
          let new_flags = ucast arg :: u32 in
          if new_flags AND NOT CLOEXEC \<noteq> 0 then (Err InvalidValue, t)
          else (Ok 0, t\<lparr>entries := (entries t)[unat (as_usize f) := Some (e\<lparr>fe_flags := new_flags\<rparr>)]\<rparr>))
      else if op = 3 then
        st_then (ok_or (entry_of t f) BadFd, t) (\<lambda>e t. (Ok (ucast (file_flags (fe_file e))), t))
      else if op = 4 then (Panic, t)
      else (Err InvalidValue, t))"

text \<open>Closing gives up one reference to the file; \<open>release\<close> is the outcome of that, \<open>Ok\<close> while other
  references remain.\<close>

definition sys_close ::
  "('f \<Rightarrow> unit outcome) \<Rightarrow> 'f file_descriptor_table \<Rightarrow> fd \<Rightarrow> usize outcome \<times> 'f file_descriptor_table" where
  "sys_close release t f =
     (let (file, t') = remove_fd t f
      in st_then (ok_or file BadFd, t') (\<lambda>file t. (and_then (release file) (\<lambda>_. Ok 0), t)))"

section \<open>The invariant\<close>

definition slot_at :: "'f file_descriptor_table \<Rightarrow> nat \<Rightarrow> 'f file_descriptor_entry option" where
  "slot_at t i = (if i < length (entries t) then entries t ! i else None)"

text \<open>Nothing below the hint is free, and every index of the table is a non-negative descriptor.\<close>

definition fd_ok :: "'f file_descriptor_table \<Rightarrow> bool" where
  "fd_ok t \<longleftrightarrow> length (entries t) \<le> 2 ^ 31 \<and> next_fd_hint t \<le> length (entries t) \<and>
     (\<forall>i<next_fd_hint t. entries t ! i \<noteq> None)"

lemma as_usize_of_nat:
  assumes "i < 2 ^ 31"
  shows "as_usize (of_nat i) = of_nat i" "unat (as_usize (of_nat i)) = i"
proof -
  have "sint (of_nat i :: fd) = int i"
    using assms by (intro signed_of_nat [THEN trans]) (simp add: signed_take_bit_eq_if_positive bit_iff_odd take_bit_int_eq_self)
  then show "as_usize (of_nat i) = of_nat i"
    by (simp add: as_usize_def scast_eq)
  then show "unat (as_usize (of_nat i)) = i"
    using assms by (simp add: unat_of_nat)
qed

lemma free_from_Some:
  "free_from es i = Some k \<Longrightarrow> i \<le> k \<and> k < i + length es \<and> es ! (k - i) = None \<and> (\<forall>j<k - i. es ! j \<noteq> None)"
proof (induction es arbitrary: i)
  case (Cons e es)
  show ?case
  proof (cases e)
    case None
    then show ?thesis using Cons.prems by simp
  next
    case (Some x)
    then have k: "Suc i \<le> k" "k < Suc i + length es" "es ! (k - Suc i) = None" "\<forall>j<k - Suc i. es ! j \<noteq> None"
      using Cons.IH [of "Suc i"] Cons.prems by auto
    have "k - i = Suc (k - Suc i)" using k(1) by simp
    then show ?thesis using k Some by (auto simp: less_Suc_eq_0_disj)
  qed
qed simp

lemma free_from_None: "free_from es i = None \<Longrightarrow> \<forall>j<length es. es ! j \<noteq> None"
  by (induction es i rule: free_from.induct) (auto simp: less_Suc_eq_0_disj split: if_splits)

text \<open>Writing at a descriptor that is not negative extends the table as needed and changes that entry
  only.\<close>

lemma insert_at_run:
  assumes "i < 2 ^ 31"
  shows "\<exists>t'. insert_at t (of_nat i) e = (Ok (slot_at t i), t') \<and>
    slot_at t' = (slot_at t)(i := Some e) \<and> length (entries t') = max (length (entries t)) (Suc i) \<and>
    next_fd_hint t' = next_fd_hint t"
proof -
  let ?es = "entries t" and ?x = "as_usize (of_nat i)"
  have u: "unat ?x = i" "unat (?x + 1) = Suc i"
    using as_usize_of_nat [OF assms] assms by (simp_all add: unat_add_usize)
  have c: "\<not> vec_capacity < ?x + 1" using assms u(2) by (simp add: vec_capacity_def word_less_nat_alt)
  define es where "es = (if i \<ge> length ?es then take (Suc i) ?es @ replicate (Suc i - length ?es) None else ?es)"
  have l: "length es = max (length ?es) (Suc i)" by (auto simp: es_def)
  have n: "es ! j = slot_at t j" if "j < length es" for j
    using that by (auto simp: es_def slot_at_def nth_append)
  let ?t = "t\<lparr>entries := es[i := Some e]\<rparr>"
  have "insert_at t (of_nat i) e = (Ok (slot_at t i), ?t)"
    using c by (auto simp: insert_at_def u Let_def es_def slot_at_def nth_append)
  moreover have "slot_at ?t = (slot_at t)(i := Some e)"
    using n l by (auto simp: slot_at_def [of ?t] fun_eq_iff nth_list_update) (auto simp: slot_at_def)
  ultimately show ?thesis using l by auto
qed

lemma fd_okI:
  assumes "fd_ok t" "\<And>i. i < next_fd_hint t' \<Longrightarrow> slot_at t' i \<noteq> None"
    "next_fd_hint t' \<le> length (entries t')" "length (entries t') \<le> 2 ^ 31"
  shows "fd_ok t'"
  using assms by (fastforce simp: fd_ok_def slot_at_def)

lemma fd_ok_slot: "fd_ok t \<Longrightarrow> i < next_fd_hint t \<Longrightarrow> slot_at t i \<noteq> None"
  by (auto simp: fd_ok_def slot_at_def)

lemma find_free_fd_run:
  assumes ok: "fd_ok t"
  shows "(\<exists>i. find_free_fd t = (Ok (of_nat i), t\<lparr>next_fd_hint := Suc i\<rparr>) \<and> i < 2 ^ 31 \<and>
      i \<le> length (entries t) \<and> slot_at t i = None \<and> (\<forall>j<i. slot_at t j \<noteq> None)) \<or>
    find_free_fd t = (Err (Fs TooManyFiles), t) \<and> (\<forall>j<MAX_FDS. slot_at t j \<noteq> None)"
proof (cases "free_from (drop (next_fd_hint t) (entries t)) (next_fd_hint t)")
  case (Some i)
  note f = free_from_Some [OF Some]
  have b: "next_fd_hint t \<le> i" "i < length (entries t)" "entries t ! i = None"
    using f ok by (auto simp: fd_ok_def)
  have "slot_at t j \<noteq> None" if "j < i" for j
  proof (cases "j < next_fd_hint t")
    case True
    then show ?thesis by (rule fd_ok_slot [OF ok])
  next
    case False
    then have "drop (next_fd_hint t) (entries t) ! (j - next_fd_hint t) \<noteq> None" using f that by auto
    then show ?thesis using False b(2) that by (simp add: slot_at_def)
  qed
  moreover have "i < 2 ^ 31" using b(2) ok by (simp add: fd_ok_def)
  ultimately show ?thesis using Some b by (auto simp: find_free_fd_def slot_at_def)
next
  case None
  have all: "slot_at t j \<noteq> None" if "j < length (entries t)" for j
  proof (cases "j < next_fd_hint t")
    case True
    then show ?thesis by (rule fd_ok_slot [OF ok])
  next
    case False
    then show ?thesis
      using free_from_None [OF None] that
      by (auto simp: slot_at_def dest!: spec [of _ "j - next_fd_hint t"])
  qed
  then show ?thesis using None by (auto simp: find_free_fd_def MAX_FDS_def slot_at_def Let_def)
qed

lemma insert_fd_run:
  assumes ok: "fd_ok t"
  shows "(\<exists>i t'. insert_fd t file = (Ok (of_nat i), t') \<and> fd_ok t' \<and> i < 2 ^ 31 \<and> slot_at t i = None \<and>
      (\<forall>j<i. slot_at t j \<noteq> None) \<and>
      slot_at t' = (slot_at t)(i \<mapsto> \<lparr>fe_file = file, fe_flags = 0\<rparr>)) \<or>
    insert_fd t file = (Err (Fs TooManyFiles), t) \<and> (\<forall>j<MAX_FDS. slot_at t j \<noteq> None)"
  using find_free_fd_run [OF ok]
proof (elim disjE exE conjE)
  fix i assume f: "find_free_fd t = (Ok (of_nat i), t\<lparr>next_fd_hint := Suc i\<rparr>)" "i < 2 ^ 31"
    "i \<le> length (entries t)" "slot_at t i = None" "\<forall>j<i. slot_at t j \<noteq> None"
  let ?t = "t\<lparr>next_fd_hint := Suc i\<rparr>" and ?e = "\<lparr>fe_file = file, fe_flags = 0\<rparr>"
  have s: "slot_at ?t = slot_at t" by (simp add: fun_eq_iff slot_at_def)
  obtain t' where t': "insert_at ?t (of_nat i) ?e = (Ok (slot_at t i), t')"
    "slot_at t' = (slot_at t)(i := Some ?e)" "length (entries t') = max (length (entries t)) (Suc i)"
    "next_fd_hint t' = Suc i"
    using insert_at_run [OF f(2), of ?t ?e] s by auto
  have "fd_ok t'"
    using t' f ok by (intro fd_okI [OF ok]) (auto simp: fd_ok_def less_Suc_eq)
  moreover have "insert_fd t file = (Ok (of_nat i), t')" using f(1) t'(1) by (simp add: insert_fd_def)
  ultimately show ?thesis using f t'(2) by auto
qed (simp add: insert_fd_def)

lemma as_usize_negative:
  assumes "2 ^ 31 \<le> unat (f :: fd)"
  shows "unat (as_usize f) = 2 ^ 64 - 2 ^ 32 + unat f"
proof -
  have lt: "unat f < 2 ^ 32" using unsigned_less [of f] by simp
  then have "odd (unat f div 2 ^ 31)" using div_nat_eqI [of "2 ^ 31" 1 "unat f"] assms by simp
  then have "bit f 31" using bit_unsigned_iff [of f 31, where 'a = nat] by (simp add: bit_iff_odd)
  moreover have "take_bit 32 (uint f) = uint f"
    using unsigned_less [of f, where 'a = int] by (intro take_bit_int_eq_self) simp_all
  ultimately have "sint f = int (unat f) - 2 ^ 32"
    by (simp add: sint_uint signed_take_bit_eq_take_bit_minus bit_uint_iff)
  then have "as_usize f = ucast f - 2 ^ 32" by (simp add: as_usize_def scast_eq)
  moreover have "unat (ucast f :: usize) = unat f" using lt by (simp add: unsigned_ucast_eq take_bit_nat_eq_self)
  ultimately show ?thesis using lt by (simp add: unat_sub_if_size word_size)
qed

lemma insert_at_negative:
  assumes "length (entries t) \<le> 2 ^ 31" "2 ^ 31 \<le> unat f"
  shows "fst (insert_at t f e) = Panic"
proof -
  note u = as_usize_negative [OF assms(2)]
  have lt: "unat f < 2 ^ 32" using unsigned_less [of f] by simp
  show ?thesis
  proof (cases "Suc (unat f) < 2 ^ 32")
    case True
    then have "unat (as_usize f + 1) = 2 ^ 64 - 2 ^ 32 + unat f + 1"
      using u by (simp add: unat_add_usize)
    then show ?thesis using u assms by (simp add: insert_at_def Let_def vec_capacity_def word_less_nat_alt)
  next
    case False
    then have "as_usize f = -1" using u lt by (simp add: word_unat_eq_iff unsigned_minus_1_eq_mask mask_eq_exp_minus_1)
    moreover have "length (entries t) \<le> unat (as_usize f)" using u assms by simp
    ultimately show ?thesis by (simp add: insert_at_def Let_def)
  qed
qed

lemma update_Some: "\<lbrakk>xs ! i \<noteq> None; i < length xs\<rbrakk> \<Longrightarrow> xs[j := Some e] ! i \<noteq> None"
  by (cases "i = j") simp_all

lemma sys_dup_ok: "fd_ok t \<Longrightarrow> fd_ok (snd (sys_dup t f))"
  using insert_fd_run [of t "the (get_fd t f)"] by (cases "get_fd t f") (auto simp: sys_dup_def)

lemma sys_dup3_cases:
  assumes ok: "fd_ok t"
  shows "(\<exists>e. sys_dup3 t a b flags = (Err e, t)) \<or> 2 ^ 31 \<le> unat b \<and> fst (sys_dup3 t a b flags) = Panic \<or>
    (\<exists>e t'. sys_dup3 t a b flags = (Ok (as_usize b), t') \<and> fd_ok t' \<and> get_fd t a = Some (fe_file e) \<and>
       slot_at t' = (slot_at t)(unat b \<mapsto> e))"
proof (cases "a = b \<or> flags AND NOT O_CLOEXEC \<noteq> 0 \<or> get_fd t a = None")
  case True
  then show ?thesis by (auto simp: sys_dup3_def)
next
  case False
  then obtain fl where get: "get_fd t a = Some fl" by blast
  let ?e = "\<lparr>fe_file = fl, fe_flags = (if flags AND O_CLOEXEC = O_CLOEXEC then CLOEXEC else 0)\<rparr>"
  have run: "sys_dup3 t a b flags = st_then (insert_at t b ?e) (\<lambda>_ t. (Ok (as_usize b), t))"
    using False get by (simp add: sys_dup3_def)
  show ?thesis
  proof (cases "unat b < 2 ^ 31")
    case True
    obtain t' where t': "insert_at t (of_nat (unat b)) ?e = (Ok (slot_at t (unat b)), t')"
      "slot_at t' = (slot_at t)(unat b := Some ?e)" "length (entries t') = max (length (entries t)) (Suc (unat b))"
      "next_fd_hint t' = next_fd_hint t"
      using insert_at_run [OF True] by blast
    have "fd_ok t'"
      using t' ok True fd_ok_slot [OF ok] by (intro fd_okI [OF ok]) (auto simp: fd_ok_def)
    then show ?thesis using run t'(1,2) get by (auto intro!: exI [of _ ?e])
  next
    case False
    then have "fst (insert_at t b ?e) = Panic" using ok by (intro insert_at_negative) (auto simp: fd_ok_def)
    then show ?thesis using run False by (cases "insert_at t b ?e") simp
  qed
qed

lemma remove_fd_ok:
  assumes "fd_ok t"
  shows "fd_ok (snd (remove_fd t f))"
proof (cases "entry_of t f")
  case (Some e)
  then have "unat (as_usize f) < length (entries t)"
    by (simp add: entry_of_def Let_def split: if_splits)
  then show ?thesis
    using assms Some by (auto simp: remove_fd_def Let_def fd_ok_def nth_list_update)
qed (use assms in \<open>simp add: remove_fd_def\<close>)

lemma sys_fcntl_ok:
  assumes "fd_ok t"
  shows "fd_ok (snd (sys_fcntl ff t f op arg))"
  using assms
  by (cases "entry_of t f") (auto simp: sys_fcntl_def Let_def fd_ok_def intro!: update_Some [simplified])

lemma clone_for_exec_ok: "fd_ok t \<Longrightarrow> fd_ok (clone_for_exec t)"
  by (simp add: clone_for_exec_def fd_ok_def)

text \<open>The tables a process can get to; a system call that panics has no successor.\<close>

inductive fd_reach :: "'f file_descriptor_table \<Rightarrow> bool" where
  new: "fd_reach new_fd_table"
| ins: "fd_reach t \<Longrightarrow> insert_fd t file = (r, t') \<Longrightarrow> fd_reach t'"
| dup: "fd_reach t \<Longrightarrow> sys_dup t f = (r, t') \<Longrightarrow> fd_reach t'"
| dup3: "fd_reach t \<Longrightarrow> sys_dup3 t a b flags = (r, t') \<Longrightarrow> r \<noteq> Panic \<Longrightarrow> fd_reach t'"
| fcntl: "fd_reach t \<Longrightarrow> sys_fcntl ff t f op arg = (r, t') \<Longrightarrow> fd_reach t'"
| close: "fd_reach t \<Longrightarrow> sys_close rel t f = (r, t') \<Longrightarrow> fd_reach t'"
| exec: "fd_reach t \<Longrightarrow> fd_reach (clone_for_exec t)"

lemma fd_reach_ok: "fd_reach t \<Longrightarrow> fd_ok t"
proof (induction rule: fd_reach.induct)
  case new
  show ?case by (simp add: new_fd_table_def fd_ok_def)
next
  case (ins t fl r t')
  then show ?case using insert_fd_run [of t fl] by auto
next
  case (dup t f r t')
  then show ?case using sys_dup_ok [of t f] by simp
next
  case (dup3 t a b flags r t')
  then show ?case using sys_dup3_cases [of t a b flags] by auto
next
  case (fcntl t ff f op arg r t')
  then show ?case using sys_fcntl_ok [of t ff f op arg] by simp
next
  case (close t rel f r t')
  then show ?case
    using remove_fd_ok [of t f]
    by (cases "remove_fd t f"; cases "fst (remove_fd t f)") (auto simp: sys_close_def)
qed (rule clone_for_exec_ok)

text \<open>C6. In every table a process can get to, opening a file installs it, with no flags, at the lowest
  descriptor that is free and changes no other descriptor; it fails, with the table unchanged, only when
  the first 8192 descriptors are all in use.\<close>

theorem insert_fd_lowest:
  assumes "fd_reach t"
  shows "(\<exists>i t'. insert_fd t fl = (Ok (of_nat i), t') \<and> unat (as_usize (of_nat i)) = i \<and>
      slot_at t i = None \<and> (\<forall>j<i. slot_at t j \<noteq> None) \<and>
      slot_at t' = (slot_at t)(i \<mapsto> \<lparr>fe_file = fl, fe_flags = 0\<rparr>) \<and> get_fd t' (of_nat i) = Some fl) \<or>
    insert_fd t fl = (Err (Fs TooManyFiles), t) \<and> (\<forall>j<MAX_FDS. slot_at t j \<noteq> None)"
  using insert_fd_run [OF fd_reach_ok [OF assms], of fl]
proof (elim disjE exE conjE)
  fix i t' assume r: "insert_fd t fl = (Ok (of_nat i), t')" "i < 2 ^ 31" "slot_at t i = None"
    "\<forall>j<i. slot_at t j \<noteq> None" "slot_at t' = (slot_at t)(i \<mapsto> \<lparr>fe_file = fl, fe_flags = 0\<rparr>)"
  have "get_fd t' (of_nat i) = map_option fe_file (slot_at t' i)"
    by (simp add: get_fd_def entry_of_def slot_at_def Let_def as_usize_of_nat(2) [OF r(2)])
  then have "get_fd t' (of_nat i) = Some fl" using r(5) by simp
  then show ?thesis using r as_usize_of_nat(2) [OF r(2)] by blast
qed simp

lemmas eval_fd = insert_fd_def find_free_fd_def new_fd_table_def insert_at_def sys_dup3_def get_fd_def
  entry_of_def as_usize_def MAX_FDS_def vec_capacity_def Let_def

theorem insert_fd_lowest_witness:
  "\<exists>t'. insert_fd (snd (insert_fd new_fd_table ''a'')) ''b'' = (Ok 1, t') \<and> get_fd t' 1 = Some ''b''"
proof -
  let ?t = "snd (insert_fd new_fd_table ''a'')"
  have t: "insert_fd new_fd_table ''a'' = (Ok 0, \<lparr>entries = [Some \<lparr>fe_file = ''a'', fe_flags = 0\<rparr>], next_fd_hint = 1\<rparr>)"
    by (simp add: eval_fd)
  have "fd_reach ?t" using fd_reach.ins [OF fd_reach.new t] t by simp
  note low = insert_fd_lowest [OF this, of "''b''"]
  have s: "slot_at ?t 0 \<noteq> None" "slot_at ?t 1 = None" by (simp_all add: t slot_at_def)
  have "i = 1" if "slot_at ?t i = None" "\<forall>j<i. slot_at ?t j \<noteq> None" for i
    using s that by (metis less_one linorder_neqE_nat)
  note one = this
  from low show ?thesis
  proof (elim disjE exE conjE)
    fix i t' assume a: "insert_fd ?t ''b'' = (Ok (of_nat i), t')" "slot_at ?t i = None"
      "\<forall>j<i. slot_at ?t j \<noteq> None" "get_fd t' (of_nat i) = Some ''b''"
    show ?thesis using a(1,4) unfolding one [OF a(2,3)] of_nat_1 by blast
  next
    assume "\<forall>j<MAX_FDS. slot_at ?t j \<noteq> None"
    then have "slot_at ?t 1 \<noteq> None" by (rule allE [of _ 1]) (simp add: MAX_FDS_def)
    then show ?thesis using s(2) by blast
  qed
qed

text \<open>C37. Duplicating a valid descriptor onto a negative one panics the kernel: the descriptor is
  converted to an index by sign extension and the table cannot be extended to it.\<close>

theorem sys_dup3_negative_panics:
  assumes "fd_reach t" "get_fd t oldfd \<noteq> None" "oldfd \<noteq> newfd" "2 ^ 31 \<le> unat newfd"
    "flags \<in> {0, O_CLOEXEC}"
  shows "fst (sys_dup3 t oldfd newfd flags) = Panic"
proof -
  have "length (entries t) \<le> 2 ^ 31" using fd_reach_ok [OF assms(1)] by (simp add: fd_ok_def)
  then have "fst (insert_at t newfd e) = Panic" for e by (rule insert_at_negative [OF _ assms(4)])
  then have p: "insert_at t newfd e = (Panic, snd (insert_at t newfd e))" for e by (metis prod.collapse)
  have q: "fst (st_then (insert_at t newfd e) k) = Panic"
    for e and k :: "_ \<Rightarrow> _ \<Rightarrow> usize outcome \<times> _" by (subst p) simp
  obtain fl where "get_fd t oldfd = Some fl" using assms(2) by blast
  moreover have "flags AND NOT O_CLOEXEC = 0" using assms(5) by auto
  ultimately show ?thesis using assms(3) by (simp add: sys_dup3_def q)
qed

theorem sys_dup3_negative_panics_witness:
  "fst (sys_dup3 (snd (insert_fd new_fd_table ''a'')) 0 (-1) 0) = Panic"
proof -
  have t: "insert_fd new_fd_table ''a'' = (Ok 0, \<lparr>entries = [Some \<lparr>fe_file = ''a'', fe_flags = 0\<rparr>], next_fd_hint = 1\<rparr>)"
    by (simp add: eval_fd)
  have "fd_reach (snd (insert_fd new_fd_table ''a''))" using fd_reach.ins [OF fd_reach.new t] t by simp
  moreover have "get_fd (snd (insert_fd new_fd_table ''a'')) 0 \<noteq> None" by (simp add: eval_fd)
  moreover have "2 ^ 31 \<le> unat (-1 :: fd)" by (simp add: unsigned_minus_1_eq_mask mask_eq_exp_minus_1)
  ultimately show ?thesis by (intro sys_dup3_negative_panics) simp_all
qed

end
