(* ===== verification/Esr.thy ===== *)
theory Esr
  imports Prelude
begin

text \<open>
  Decoding of the arm64 exception syndrome register (\<open>src/arch/arm64/exceptions/esr.rs\<close>). The value of
  the fault address register, which the source reads with an \<open>mrs\<close> instruction, is an argument.
\<close>

datatype ifsc_category = TranslationFault | PermissionFault | AccessFlagFault | OtherFault

definition category :: "u8 \<Rightarrow> ifsc_category" where
  "category c =
     (if 0b000100 \<le> c \<and> c \<le> 0b000111 \<or> c = 0b101010 \<or> c = 0b101011 \<or>
         c \<le> 0b000011 \<or> c = 0b101001 \<or> c = 0b101100 then TranslationFault
      else if 0b001100 \<le> c \<and> c \<le> 0b001111 then PermissionFault
      else if 0b001000 \<le> c \<and> c \<le> 0b001011 then AccessFlagFault
      else OtherFault)"

record abort_iss =
  ai_ifsc :: u8
  ai_write :: bool
  ai_far :: "u64 option"

definition abort_iss_from :: "u64 \<Rightarrow> u64 \<Rightarrow> abort_iss" where
  "abort_iss_from far_el1 iss =
     \<lparr>ai_ifsc = ucast (iss AND 0b111111),
      ai_write = (drop_bit 6 iss AND 1 = 1),
      ai_far = (if drop_bit 10 iss AND 1 = 0 then Some far_el1 else None)\<rparr>"

record svc_iss =
  svc_imm :: u16

definition svc_iss_from :: "u64 \<Rightarrow> svc_iss" where
  "svc_iss_from iss = \<lparr>svc_imm = ucast (iss AND 0xFFFF)\<rparr>"

datatype exception =
    InstrAbortLowerEL abort_iss | InstrAbortCurrentEL abort_iss
  | DataAbortLowerEL abort_iss | DataAbortCurrentEL abort_iss
  | SVC64 svc_iss | SVC32 svc_iss
  | TrappedWFIorWFE u64 | TrappedMCRorMRC u64 | TrappedMCRRorMRRC u64 | TrappedMCRorMRC2 u64
  | TrappedLDCorSTC u64 | TrappedFP u64 | TrappedMRRC u64 | BranchTarget u64
  | IllegalExecutionState u64 | HVC64 u64 | SMC64 u64 | TrappedMsrMrs u64 | TrappedSve u64
  | PointerAuth u64 | PCAlignmentFault u64 | SPAlignmentFault u64 | TrappedFP32 u64
  | TrappedFP64 u64 | SError u64 | BreakpointLowerEL u64 | BreakpointCurrentEL u64
  | SoftwareStepLowerEL u64 | SoftwareStepCurrentEL u64 | WatchpointLowerEL u64
  | WatchpointCurrentEL u64 | Bkpt32 u64 | Brk64 u64 | UnknownException u64

definition exception_from :: "u64 \<Rightarrow> u64 \<Rightarrow> exception" where
  "exception_from far_el1 value =
     (let ec = drop_bit 26 value AND 0b111111; iss = value AND 0x1FFFFFF in
      if ec = 0b100000 then InstrAbortLowerEL (abort_iss_from far_el1 iss)
      else if ec = 0b100001 then InstrAbortCurrentEL (abort_iss_from far_el1 iss)
      else if ec = 0b100100 then DataAbortLowerEL (abort_iss_from far_el1 iss)
      else if ec = 0b100101 then DataAbortCurrentEL (abort_iss_from far_el1 iss)
      else if ec = 0b010101 then SVC64 (svc_iss_from iss)
      else if ec = 0b010001 then SVC32 (svc_iss_from iss)
      else if ec = 0b000001 then TrappedWFIorWFE iss
      else if ec = 0b000011 then TrappedMCRorMRC iss
      else if ec = 0b000100 then TrappedMCRRorMRRC iss
      else if ec = 0b000101 then TrappedMCRorMRC2 iss
      else if ec = 0b000110 then TrappedLDCorSTC iss
      else if ec = 0b000111 then TrappedFP iss
      else if ec = 0b001100 then TrappedMRRC iss
      else if ec = 0b001101 then BranchTarget iss
      else if ec = 0b001110 then IllegalExecutionState iss
      else if ec = 0b010110 then HVC64 iss
      else if ec = 0b010111 then SMC64 iss
      else if ec = 0b011000 then TrappedMsrMrs iss
      else if ec = 0b011001 then TrappedSve iss
      else if ec = 0b011100 then PointerAuth iss
      else if ec = 0b100010 then PCAlignmentFault iss
      else if ec = 0b100110 then SPAlignmentFault iss
      else if ec = 0b101000 then TrappedFP32 iss
      else if ec = 0b101100 then TrappedFP64 iss
      else if ec = 0b101111 then SError iss
      else if ec = 0b110000 then BreakpointLowerEL iss
      else if ec = 0b110001 then BreakpointCurrentEL iss
      else if ec = 0b110010 then SoftwareStepLowerEL iss
      else if ec = 0b110011 then SoftwareStepCurrentEL iss
      else if ec = 0b110100 then WatchpointLowerEL iss
      else if ec = 0b110101 then WatchpointCurrentEL iss
      else if ec = 0b111000 then Bkpt32 iss
      else if ec = 0b111100 then Brk64 iss
      else UnknownException ec)"

section \<open>Syndromes of translation faults\<close>

text \<open>The syndrome the architecture reports for a data access from user space that finds no mapping at
  table level \<open>l\<close>: class, write flag and fault status code.\<close>

definition data_abort_syndrome :: "bool \<Rightarrow> nat \<Rightarrow> u64" where
  "data_abort_syndrome wr l =
     push_bit 26 0b100100 OR (if wr then push_bit 6 1 else 0) OR (0b000100 + of_nat l)"

lemma exception_from_data_abort:
  assumes "drop_bit 26 v AND 0b111111 = 0b100100"
  shows "exception_from a v = DataAbortLowerEL (abort_iss_from a (v AND 0x1FFFFFF))"
  unfolding exception_from_def Let_def assms by simp

lemma data_abort_syndrome_cases:
  "l \<le> 3 \<Longrightarrow> data_abort_syndrome wr l \<in>
     (if wr then {0x90000044, 0x90000045, 0x90000046, 0x90000047}
      else {0x90000004, 0x90000005, 0x90000006, 0x90000007})"
proof -
  assume "l \<le> 3"
  then have "l = 0 \<or> l = 1 \<or> l = 2 \<or> l = 3" by linarith
  then show ?thesis unfolding data_abort_syndrome_def by (cases wr; elim disjE; simp)
qed

lemma data_abort_syndrome_decode:
  assumes "l \<le> 3"
  shows "\<exists>info. exception_from a (data_abort_syndrome wr l) = DataAbortLowerEL info \<and>
    category (ai_ifsc info) = TranslationFault \<and> ai_write info = wr \<and> ai_far info = Some a"
proof -
  note c = data_abort_syndrome_cases [OF assms, of wr]
  have "drop_bit 26 (data_abort_syndrome wr l) AND 0b111111 = 0b100100"
    using c by (cases wr) (auto simp: drop_bit_eq_div)
  moreover have "ai_write (abort_iss_from a (data_abort_syndrome wr l AND 0x1FFFFFF)) = wr"
    "ai_far (abort_iss_from a (data_abort_syndrome wr l AND 0x1FFFFFF)) = Some a"
    "category (ai_ifsc (abort_iss_from a (data_abort_syndrome wr l AND 0x1FFFFFF))) = TranslationFault"
    using c by (cases wr; auto simp: abort_iss_from_def category_def drop_bit_eq_div)+
  ultimately show ?thesis using exception_from_data_abort by blast
qed

end
