(* ===== verification/Fault.thy ===== *)
theory Fault
  imports Esr MemoryMap PageTable
begin

text \<open>
  Page faults: the architecture-independent handlers (\<open>src/memory/fault.rs\<close>), the arm64 entry points
  (\<open>src/arch/arm64/memory/fault.rs\<close>) and the system calls that shape the address space they work on
  (\<open>src/memory/mmap.rs\<close>). The state is the kernel's physical memory and frame allocator; the faulting
  task's VM is an argument, for the handlers do not change its areas and an arm64 address space is the
  address of its root table. Assertions that the release profile removes are left out.
\<close>

section \<open>Pages\<close>

text \<open>Byte \<open>a\<close> of a memory that is kept in 64-bit slots, little endian.\<close>

definition write_byte :: "usize \<Rightarrow> u8 \<Rightarrow> (usize \<Rightarrow> u64) \<Rightarrow> (usize \<Rightarrow> u64)" where
  "write_byte a b m =
     (let w = a AND NOT 7; k = 8 * unat (a AND 7)
      in m(w := (m w AND NOT (push_bit k 0xff)) OR push_bit k (ucast b)))"

primrec write_bytes :: "usize \<Rightarrow> u8 list \<Rightarrow> (usize \<Rightarrow> u64) \<Rightarrow> (usize \<Rightarrow> u64)" where
  "write_bytes a [] m = m"
| "write_bytes a (b # bs) m = write_bytes (a + 1) bs (write_byte a b m)"

definition copy_page :: "usize \<Rightarrow> usize \<Rightarrow> (usize \<Rightarrow> u64) \<Rightarrow> (usize \<Rightarrow> u64)" where
  "copy_page src dst m = (\<lambda>x. if x - dst < PAGE_SIZE then m (x - dst + src) else m x)"

definition drop_page ::
  "'l list_ops \<Rightarrow> usize \<Rightarrow> 'l frame_allocator pt_state \<Rightarrow> unit outcome \<times> 'l frame_allocator pt_state" where
  "drop_page L pfn s =
     (case drop_allocation L (pt_alloc s) (as_phys_range pfn) of
        Ok fa \<Rightarrow> (Ok (), s\<lparr>pt_alloc := fa\<rparr>)
      | Err e \<Rightarrow> (Err e, s) | Panic \<Rightarrow> (Panic, s) | Diverge \<Rightarrow> (Diverge, s))"

text \<open>\<open>Result::unwrap\<close>.\<close>

definition unwrap_st :: "'a outcome \<times> 's \<Rightarrow> 'a outcome \<times> 's" where
  "unwrap_st r = (case r of (Err e, s) \<Rightarrow> (Panic, s) | _ \<Rightarrow> r)"

section \<open>The handlers\<close>

text \<open>A deferred resolution holds what the future of the source captures: the area, the file read it
  needs and the frame it fills.\<close>

datatype 'i fault_resolution = Resolved | Denied | DeferredRead "'i vmarea" "'i vma_file_read" usize

definition handle_demand_fault ::
  "'l list_ops \<Rightarrow> reg_ops \<Rightarrow> ('i, arm64_process_address_space) process_vm \<Rightarrow> usize \<Rightarrow> access_kind \<Rightarrow>
   'l frame_allocator pt_state \<Rightarrow> 'i fault_resolution outcome \<times> 'l frame_allocator pt_state" where
  "handle_demand_fault L R vm faulting_addr kind s =
     st_then (find_vma_for_fault vm faulting_addr kind, s) (\<lambda>found s.
     case found of
       None \<Rightarrow> (Ok Denied, s)
     | Some vma \<Rightarrow>
         st_then (claim_zeroed L s) (\<lambda>new_page s.
         case resolve_fault vma faulting_addr of
           Some vma_read \<Rightarrow> (Ok (DeferredRead vma vma_read new_page), s)
         | None \<Rightarrow>
             st_then (unwrap_st (map_page L R (address_space (mm_map vm)) new_page
                        (page_aligned faulting_addr) (pte_from_vma (vm_permissions vma)) s)) (\<lambda>_ s.
             (Ok Resolved, s))))"

text \<open>The future of a deferred resolution, run when the file system has delivered the data: \<open>read_at\<close>
  is the outcome of the inode's read, the bytes it put at the start of the buffer. \<open>vm\<close> is the task's VM
  at that later time.\<close>

definition complete_deferred ::
  "'l list_ops \<Rightarrow> reg_ops \<Rightarrow> ('i \<Rightarrow> u64 \<Rightarrow> nat \<Rightarrow> u8 list outcome) \<Rightarrow>
   ('i, arm64_process_address_space) process_vm \<Rightarrow> usize \<Rightarrow> access_kind \<Rightarrow>
   'i vmarea \<Rightarrow> 'i vma_file_read \<Rightarrow> usize \<Rightarrow> 'l frame_allocator pt_state \<Rightarrow>
   unit outcome \<times> 'l frame_allocator pt_state" where
  "complete_deferred L R read_at vm faulting_addr kind vma rd new_page s =
     (if fr_page_offset rd + fr_read_len rd < fr_page_offset rd \<or>
         fr_page_offset rd + fr_read_len rd > PAGE_SIZE then (Panic, s)
      else case read_at (fr_inode rd) (fr_file_offset rd) (unat (fr_read_len rd)) of
        Err e \<Rightarrow> st_then (drop_page L new_page s) (\<lambda>_ s. (Err e, s))
      | Panic \<Rightarrow> (Panic, s) | Diverge \<Rightarrow> (Diverge, s)
      | Ok bytes \<Rightarrow>
          let s1 = s\<lparr>pt_mem := write_bytes (pa new_page + fr_page_offset rd)
                      (take (unat (fr_read_len rd)) bytes) (pt_mem s)\<rparr>
          in st_then (find_vma_for_fault vm faulting_addr kind, s1) (\<lambda>found s.
             if found = Some vma
             then map_page L R (address_space (mm_map vm)) new_page (page_aligned faulting_addr)
                    (pte_from_vma (vm_permissions vma)) s
             else drop_page L new_page s))"

definition handle_protection_fault ::
  "'l list_ops \<Rightarrow> reg_ops \<Rightarrow> ('i, arm64_process_address_space) process_vm \<Rightarrow> usize \<Rightarrow> access_kind \<Rightarrow>
   page_info \<Rightarrow> 'l frame_allocator pt_state \<Rightarrow>
   'i fault_resolution outcome \<times> 'l frame_allocator pt_state" where
  "handle_protection_fault L R vm faulting_addr kind info s =
     (if kind = Write \<and> pp_cow (pi_perms info) then
        let new_pte_perms = from_cow (pi_perms info); as = address_space (mm_map vm) in
        case is_allocated_exclusive (pt_alloc s) (pi_pfn info) of
          None \<Rightarrow> (Diverge, s)
        | Some r \<Rightarrow>
            st_then (r, s) (\<lambda>exclusive s.
            if exclusive
            then st_then (protect_range R as (page_region faulting_addr) new_pte_perms s) (\<lambda>_ s.
                 (Ok Resolved, s))
            else
              st_then (claim_zeroed L s) (\<lambda>new_page s.
              let s1 = s\<lparr>pt_mem := copy_page (pa (pi_pfn info)) (pa new_page) (pt_mem s)\<rparr>
              in st_then (unwrap_st (remap R as faulting_addr new_page new_pte_perms s1)) (\<lambda>_ s.
                 st_then (drop_page L (pi_pfn info) s) (\<lambda>_ s.
                 (Ok Resolved, s)))))
      else (Ok Denied, s))"

section \<open>The arm64 entry points\<close>

definition determine_access_kind :: "exception \<Rightarrow> abort_iss \<Rightarrow> access_kind" where
  "determine_access_kind exc info =
     (case exc of
        InstrAbortLowerEL _ \<Rightarrow> Execute
      | _ \<Rightarrow> if ai_write info then Write else Read)"

definition run_mem_fault_handler ::
  "'l list_ops \<Rightarrow> reg_ops \<Rightarrow> ('i, arm64_process_address_space) process_vm \<Rightarrow> exception \<Rightarrow> abort_iss \<Rightarrow>
   'l frame_allocator pt_state \<Rightarrow> 'i fault_resolution outcome \<times> 'l frame_allocator pt_state" where
  "run_mem_fault_handler L R vm exc info s =
     (let access_kind = determine_access_kind exc info in
      case ai_far info of
        None \<Rightarrow> (Panic, s)
      | Some fault_addr \<Rightarrow>
          (case category (ai_ifsc info) of
             TranslationFault \<Rightarrow> handle_demand_fault L R vm fault_addr access_kind s
           | PermissionFault \<Rightarrow>
               st_then (translate R (address_space (mm_map vm)) fault_addr s) (\<lambda>pg_info s.
               case pg_info of
                 None \<Rightarrow> (Panic, s)
               | Some pg_info \<Rightarrow> handle_protection_fault L R vm fault_addr access_kind pg_info s)
           | _ \<Rightarrow> (Panic, s)))"

text \<open>A fault taken from user space: \<open>Some\<close> work is left when the resolution is deferred.\<close>

definition handle_mem_fault ::
  "'l list_ops \<Rightarrow> reg_ops \<Rightarrow> ('i, arm64_process_address_space) process_vm \<Rightarrow> exception \<Rightarrow> abort_iss \<Rightarrow>
   'l frame_allocator pt_state \<Rightarrow>
   ('i vmarea \<times> 'i vma_file_read \<times> usize) option outcome \<times> 'l frame_allocator pt_state" where
  "handle_mem_fault L R vm exc info s =
     (case run_mem_fault_handler L R vm exc info s of
        (Ok Resolved, s) \<Rightarrow> (Ok None, s)
      | (Ok (DeferredRead v rd p), s) \<Rightarrow> (Ok (Some (v, rd, p)), s)
      | (Diverge, s) \<Rightarrow> (Diverge, s)
      | (_, s) \<Rightarrow> (Panic, s))"

record exception_state =
  ex_x0 :: u64
  ex_elr :: u64

definition UACESS_ABORT_DENIED :: u64 where "UACESS_ABORT_DENIED = 1"

definition UACESS_ABORT_DEFERRED :: u64 where "UACESS_ABORT_DEFERRED = 2"

record fixup_table =
  fx_start :: usize
  fx_end :: usize
  fx_fixup :: usize

definition is_in_fixup :: "fixup_table \<Rightarrow> usize \<Rightarrow> bool outcome" where
  "is_in_fixup t addr =
     and_then (from_start_end_address (fx_start t) (fx_end t)) (\<lambda>r. Ok (contains_address r addr))"

text \<open>A fault of the kernel while it accesses user memory: the access either proceeds, fails, or awaits
  the deferred work, whose pointer goes to further registers of the saved state.\<close>

definition handle_uacess_abort ::
  "'l list_ops \<Rightarrow> reg_ops \<Rightarrow> fixup_table \<Rightarrow> ('i, arm64_process_address_space) process_vm \<Rightarrow> exception \<Rightarrow>
   abort_iss \<Rightarrow> exception_state \<Rightarrow> 'l frame_allocator pt_state \<Rightarrow>
   (exception_state \<times> ('i vmarea \<times> 'i vma_file_read \<times> usize) option) outcome \<times>
   'l frame_allocator pt_state" where
  "handle_uacess_abort L R fx vm exc info est s =
     (case run_mem_fault_handler L R vm exc info s of
        (Ok Resolved, s) \<Rightarrow> (Ok (est, None), s)
      | (Ok Denied, s) \<Rightarrow> (Ok (est\<lparr>ex_x0 := UACESS_ABORT_DENIED, ex_elr := fx_fixup fx\<rparr>, None), s)
      | (Ok (DeferredRead v rd p), s) \<Rightarrow>
          (Ok (est\<lparr>ex_x0 := UACESS_ABORT_DEFERRED, ex_elr := fx_fixup fx\<rparr>, Some (v, rd, p)), s)
      | (Diverge, s) \<Rightarrow> (Diverge, s)
      | (_, s) \<Rightarrow> (Panic, s))"

definition handle_kernel_mem_fault ::
  "'l list_ops \<Rightarrow> reg_ops \<Rightarrow> fixup_table \<Rightarrow> ('i, arm64_process_address_space) process_vm \<Rightarrow> exception \<Rightarrow>
   abort_iss \<Rightarrow> exception_state \<Rightarrow> 'l frame_allocator pt_state \<Rightarrow>
   (exception_state \<times> ('i vmarea \<times> 'i vma_file_read \<times> usize) option) outcome \<times>
   'l frame_allocator pt_state" where
  "handle_kernel_mem_fault L R fx vm exc info est s =
     st_then (is_in_fixup fx (ex_elr est), s) (\<lambda>in_fixup s.
     if in_fixup then handle_uacess_abort L R fx vm exc info est s else (Panic, s))"

section \<open>System calls on the address space\<close>

definition PROT_READ :: u64 where "PROT_READ = 1"
definition PROT_WRITE :: u64 where "PROT_WRITE = 2"
definition PROT_EXEC :: u64 where "PROT_EXEC = 4"
definition MAP_FILE :: u64 where "MAP_FILE = 0"
definition MAP_SHARED :: u64 where "MAP_SHARED = 1"
definition MAP_PRIVATE :: u64 where "MAP_PRIVATE = 2"
definition MAP_FIXED :: u64 where "MAP_FIXED = 0x10"
definition MAP_ANON :: u64 where "MAP_ANON = 0x20"
definition MAP_FIXED_NOREPLACE :: u64 where "MAP_FIXED_NOREPLACE = 0x100000"

definition MMAP_MIN_ADDR :: usize where "MMAP_MIN_ADDR = 0x1000"

definition prot_to_perms :: "u64 \<Rightarrow> vma_permissions" where
  "prot_to_perms prot =
     \<lparr>vp_read = (prot AND PROT_READ \<noteq> 0), vp_write = (prot AND PROT_WRITE \<noteq> 0),
      vp_execute = (prot AND PROT_EXEC \<noteq> 0)\<rparr>"

text \<open>\<open>inode_of\<close> is the inode behind a descriptor, if it is open and has one.\<close>

definition sys_mmap ::
  "'as as_ops \<Rightarrow> ('fd \<Rightarrow> 'i option) \<Rightarrow> u64 \<Rightarrow> u64 \<Rightarrow> u64 \<Rightarrow> u64 \<Rightarrow> 'fd \<Rightarrow> u64 \<Rightarrow>
   ('i, 'as) process_vm \<Rightarrow> usize outcome \<times> ('i, 'as) process_vm" where
  "sys_mmap A inode_of addr len prot flags fd off vm =
     (if len = 0 then (Err InvalidValue, vm)
      else if flags AND (MAP_SHARED OR MAP_PRIVATE) = 0 then (Err InvalidValue, vm)
      else if flags AND MAP_SHARED \<noteq> 0 then (Err NotSupported, vm)
      else if flags AND MAP_FIXED \<noteq> 0 \<and> flags AND MAP_FIXED_NOREPLACE \<noteq> 0 then (Err InvalidValue, vm)
      else if flags AND (MAP_FIXED OR MAP_FIXED_NOREPLACE) \<noteq> 0 \<and>
              (\<not> is_page_aligned addr \<or> addr < MMAP_MIN_ADDR) then (Err InvalidValue, vm)
      else
        st_then
          (if flags AND MAP_ANON \<noteq> 0 then Ok Anon
           else if flags = MAP_FILE then
             and_then (ok_or (inode_of fd) BadFd) (\<lambda>inode. Ok (new_file_kind inode off len))
           else Err InvalidValue, vm) (\<lambda>kind vm.
        let address_request =
              (if addr = 0 then Any
               else if flags AND MAP_FIXED_NOREPLACE \<noteq> 0 then Fixed addr False
               else if flags AND MAP_FIXED \<noteq> 0 then Fixed addr True
               else Hint addr)
        in in_map vm (mmap A (mm_map vm) address_request len (prot_to_perms prot) kind)))"

definition sys_munmap ::
  "'as as_ops \<Rightarrow> usize \<Rightarrow> usize \<Rightarrow> ('i, 'as) process_vm \<Rightarrow> usize outcome \<times> ('i, 'as) process_vm" where
  "sys_munmap A addr len vm =
     st_then (in_map vm (munmap A (mm_map vm) (new_region addr len))) (\<lambda>_ vm. (Ok 0, vm))"

definition sys_mprotect ::
  "'as as_ops \<Rightarrow> usize \<Rightarrow> usize \<Rightarrow> u64 \<Rightarrow> ('i, 'as) process_vm \<Rightarrow> usize outcome \<times> ('i, 'as) process_vm" where
  "sys_mprotect A addr len prot vm =
     st_then (in_map vm (mprotect A (mm_map vm) (new_region addr len) (prot_to_perms prot))) (\<lambda>_ vm.
     (Ok 0, vm))"

end
