(* ===== verification/FaultProps.thy ===== *)
theory FaultProps
  imports Fault AddressSpaceProps MemoryMapProps
begin

text \<open>
  Properties of page faults and of the system calls on the address space: an access to an anonymous
  area that finds no mapping ends with a fresh frame mapped under the area's permissions.
\<close>

section \<open>Memory outside the page tables\<close>

lemma entry_owned_cong:
  assumes tree: "pt_tree own m" and r: "own r = Some (r, [])"
    and same: "\<And>t i. \<lbrakk>t \<in> dom own; i < 512\<rbrakk> \<Longrightarrow> m' (slot t i) = m (slot t i)"
  shows "entry m' r va = entry m r va"
proof -
  obtain k u where l: "leaf 3 m r va = (k, u)" by (metis prod.exhaust)
  have "leaf 3 m' r va = (k, u)"
    using leaf_cong [OF tree, of m' r r "[]" 3 va] same r l by (simp add: domI)
  moreover have "u \<in> dom own" using leaf_owned [OF tree _ _ l] r by auto
  ultimately show ?thesis using l same [of u] by (simp add: entry_def)
qed

lemma pt_tree_owned_cong:
  assumes "pt_tree own m" "\<And>t i. \<lbrakk>t \<in> dom own; i < 512\<rbrakk> \<Longrightarrow> m' (slot t i) = m (slot t i)"
  shows "pt_tree own m'"
  using assms by (intro pt_tree_cong [OF assms(1)]) (simp add: domI)

section \<open>A demand fault on anonymous memory\<close>

lemma claim_zeroed_run:
  assumes L: "frame_list L \<alpha>" and ok: "pt_ok (frames_ok \<alpha>) free_frame_addrs own s"
    and av: "free_frame_addrs (pt_alloc s) \<noteq> {}"
  shows "\<exists>pfn s1. claim_zeroed L s = (Ok pfn, s1) \<and> unat pfn < 2 ^ 52 \<and>
    pa pfn \<in> free_frame_addrs (pt_alloc s) \<and>
    free_frame_addrs (pt_alloc s1) = free_frame_addrs (pt_alloc s) - {pa pfn} \<and>
    pt_ok (frames_ok \<alpha>) free_frame_addrs own s1 \<and>
    (\<forall>r va. own r = Some (r, []) \<longrightarrow> entry (pt_mem s1) r va = entry (pt_mem s) r va)"
proof -
  have tree: "pt_tree own (pt_mem s)" and inv: "frames_ok \<alpha> (pt_alloc s)"
    and dj: "dom own \<inter> free_frame_addrs (pt_alloc s) = {}" using ok by (auto simp: pt_ok_def)
  obtain a s1 where a: "allocate_page_table L s = (Ok a, s1)" "frames_ok \<alpha> (pt_alloc s1)"
    "a \<in> free_frame_addrs (pt_alloc s)"
    "free_frame_addrs (pt_alloc s1) = free_frame_addrs (pt_alloc s) - {a}"
    "\<And>t i. is_page_aligned t \<Longrightarrow> i < 512 \<Longrightarrow> t \<noteq> a \<Longrightarrow> pt_mem s1 (slot t i) = pt_mem s (slot t i)"
    using frame_list.allocate_page_table_run [OF L inv] av by blast
  obtain pfn where p: "claim_zeroed L s = (Ok pfn, s1)" "pa pfn = a"
    using a(1) by (auto simp: allocate_page_table_def st_then_def split: prod.splits outcome.splits)
  have "\<exists>b. pfn = to_pfn b"
    using p(1) by (auto simp: claim_zeroed_def st_then_def split: prod.splits outcome.splits)
  then have lt: "unat pfn < 2 ^ 52"
    by (auto simp: to_pfn_def PAGE_SHIFT_def drop_bit_eq_div unat_div_distrib intro!: less_mult_imp_div_less)
  have same: "pt_mem s1 (slot t i) = pt_mem s (slot t i)" if "t \<in> dom own" "i < 512" for t i
  proof -
    obtain r q where "own t = Some (r, q)" using \<open>t \<in> dom own\<close> by force
    then have "is_page_aligned t" using pt_treeD(1) [OF tree] by blast
    moreover have "t \<noteq> a" using that(1) a(3) dj by blast
    ultimately show ?thesis using a(5) that(2) by blast
  qed
  have "pt_ok (frames_ok \<alpha>) free_frame_addrs own s1"
    using pt_tree_owned_cong [OF tree same] a(2,4) dj by (auto simp: pt_ok_def)
  then show ?thesis using p a(3,4) lt entry_owned_cong [OF tree _ same] by blast
qed

lemma demand_fault_anon:
  fixes vm :: "('i, arm64_process_address_space) process_vm"
  defines "as \<equiv> address_space (mm_map vm)"
  assumes L: "frame_list L \<alpha>" and R: "bitfields R"
    and ok: "pt_ok (frames_ok \<alpha>) free_frame_addrs own s" and root: "own (l0_table as) = Some (l0_table as, [])"
    and vma: "find_vma_for_fault vm addr kind = Ok (Some vma)" "vm_kind vma = Anon"
    and addr: "unat addr < 2 ^ 48" and free: "\<not> occupied (pt_mem s) (l0_table as) addr"
    and frames: "4 \<le> card (free_frame_addrs (pt_alloc s))"
      "\<And>a. a \<in> free_frame_addrs (pt_alloc s) \<Longrightarrow> unat a < 2 ^ 48"
  shows "\<exists>s' own' pfn. handle_demand_fault L R vm addr kind s = (Ok Resolved, s') \<and> own \<subseteq>\<^sub>m own' \<and>
    pt_ok (frames_ok \<alpha>) free_frame_addrs own' s' \<and> pa pfn \<in> free_frame_addrs (pt_alloc s) \<and>
    translate R as addr s' =
      (Ok (Some \<lparr>pi_pfn = pfn, pi_perms = (pte_from_vma (vm_permissions vma))\<lparr>pp_read := True\<rparr>\<rparr>), s') \<and>
    (\<forall>r va. own r = Some (r, []) \<and> unat va < 2 ^ 48 \<and>
       (r \<noteq> l0_table as \<or> page_aligned va \<noteq> page_aligned addr) \<longrightarrow>
       view R (pt_mem s') r va = view R (pt_mem s) r va)"
proof -
  let ?va = "page_aligned addr" and ?p = "pte_from_vma (vm_permissions vma)"
  have "free_frame_addrs (pt_alloc s) \<noteq> {}" using frames(1) by auto
  then obtain pfn s1 where c: "claim_zeroed L s = (Ok pfn, s1)" "unat pfn < 2 ^ 52"
    "pa pfn \<in> free_frame_addrs (pt_alloc s)"
    "free_frame_addrs (pt_alloc s1) = free_frame_addrs (pt_alloc s) - {pa pfn}"
    "pt_ok (frames_ok \<alpha>) free_frame_addrs own s1"
    "\<And>r va. own r = Some (r, []) \<Longrightarrow> entry (pt_mem s1) r va = entry (pt_mem s) r va"
    using claim_zeroed_run [OF L ok] by blast
  have p36: "unat pfn < 2 ^ 36" using frames(2) [OF c(3)] unat_pa [OF c(2)] by simp
  have va: "4096 dvd unat ?va" "unat ?va < 2 ^ 48" using page_bounds [OF addr] by linarith+
  have occ: "\<not> occupied (pt_mem s1) (l0_table as) ?va" using free c(6) [OF root] by (simp add: occupied_def)
  have card: "3 \<le> card (free_frame_addrs (pt_alloc s1))"
    using c(3,4) frames(1) by (simp add: card_Diff_singleton_if)
  obtain s' own' where m: "map_page L R as pfn ?va ?p s1 = (Ok (), s')" "own \<subseteq>\<^sub>m own'"
    "pt_ok (frames_ok \<alpha>) free_frame_addrs own' s'" "present (pt_mem s') (l0_table as) ?va"
    "view R (pt_mem s') (l0_table as) ?va = Some (pa pfn, ?p\<lparr>pp_read := True\<rparr>)"
    "\<forall>r va'. own r = Some (r, []) \<and> unat va' < 2 ^ 48 \<and> (r \<noteq> l0_table as \<or> page_aligned va' \<noteq> ?va) \<longrightarrow>
      view R (pt_mem s') r va' = view R (pt_mem s1) r va'"
    using map_page_run [OF L R c(5) root va p36 occ card, of ?p] by blast
  have "handle_demand_fault L R vm addr kind s = (Ok Resolved, s')"
    using vma c(1) m(1) by (simp add: handle_demand_fault_def resolve_fault_def unwrap_st_def as_def)
  moreover have "translate R as addr s' = (Ok (Some \<lparr>pi_pfn = pfn, pi_perms = ?p\<lparr>pp_read := True\<rparr>\<rparr>), s')"
  proof -
    have tree: "pt_tree own' (pt_mem s')" using m(3) by (simp add: pt_ok_def)
    have "translate R as addr s' = translate R as ?va s'" by (simp add: translate_def)
    then show ?thesis
      using translate_run [OF R tree owned_mono [OF m(2) root] va(2)] m(4,5) to_pfn_pa [OF c(2)]
      by (simp add: translation_def)
  qed
  moreover have "view R (pt_mem s1) r va' = view R (pt_mem s) r va'" if "own r = Some (r, [])" for r va'
    using view_entry [OF c(6) [OF that]] .
  ultimately show ?thesis using m(2,3,6) c(3) by (intro exI [of _ s'] exI [of _ own'] exI [of _ pfn]) auto
qed

text \<open>C2. A load or store from user space to an address of an anonymous area that permits it, at which
  nothing is mapped, is resolved whenever four frames are free: from the raw syndrome value the entry
  point decodes a translation fault, and after the handler the address translates to a frame that was free
  before, with the permissions of the area; no other page of this or another address space changes and
  all invariants are kept.\<close>

theorem user_fault_resolved:
  fixes vm :: "('i, arm64_process_address_space) process_vm"
  assumes L: "frame_list L \<alpha>" and R: "bitfields R"
    and ok: "pt_ok (frames_ok \<alpha>) free_frame_addrs own s"
    and root: "address_space (mm_map vm) = as" "own (l0_table as) = Some (l0_table as, [])"
    and areas: "areas_ok (vmas (mm_map vm))" "vma \<in> snd ` set (vmas (mm_map vm))" "unat addr \<in> vbytes vma"
    and vma: "vm_kind vma = Anon" "if wr then vp_write (vm_permissions vma) else vp_read (vm_permissions vma)"
    and addr: "unat addr < 2 ^ 48" "\<not> occupied (pt_mem s) (l0_table as) addr" and level: "l \<le> 3"
    and frames: "4 \<le> card (free_frame_addrs (pt_alloc s))" "\<forall>a\<in>free_frame_addrs (pt_alloc s). unat a < 2 ^ 48"
  shows "\<exists>info s' own' pfn. exception_from addr (data_abort_syndrome wr l) = DataAbortLowerEL info \<and>
    handle_mem_fault L R vm (DataAbortLowerEL info) info s = (Ok None, s') \<and> own \<subseteq>\<^sub>m own' \<and>
    pt_ok (frames_ok \<alpha>) free_frame_addrs own' s' \<and> pa pfn \<in> free_frame_addrs (pt_alloc s) \<and>
    translate R as addr s' =
      (Ok (Some \<lparr>pi_pfn = pfn, pi_perms = (pte_from_vma (vm_permissions vma))\<lparr>pp_read := True\<rparr>\<rparr>), s') \<and>
    (\<forall>r va. own r = Some (r, []) \<and> unat va < 2 ^ 48 \<and>
       (r \<noteq> l0_table as \<or> page_aligned va \<noteq> page_aligned addr) \<longrightarrow>
       view R (pt_mem s') r va = view R (pt_mem s) r va)"
proof -
  let ?kind = "if wr then Write else Read"
  obtain info where info: "exception_from addr (data_abort_syndrome wr l) = DataAbortLowerEL info"
    "category (ai_ifsc info) = TranslationFault" "ai_write info = wr" "ai_far info = Some addr"
    using data_abort_syndrome_decode [OF level] by blast
  have fv: "find_vma (mm_map vm) addr = Some vma"
    using find_vma_eq [OF areas(1), of addr] vma_at_Some [OF areas(1), of "unat addr" vma] areas(2,3) by simp
  have "find_vma_for_fault vm addr ?kind = Ok (Some vma)"
    using fv vma(2) by (auto simp: find_vma_for_fault_def validate_fault_def find_vma_def
        split: option.splits if_splits)
  from demand_fault_anon [OF L R ok root(2) [folded root(1)] this vma(1) addr(1) addr(2) [folded root(1)] frames(1)]
    frames(2)
  obtain s' own' pfn where d: "handle_demand_fault L R vm addr ?kind s = (Ok Resolved, s')" "own \<subseteq>\<^sub>m own'"
    "pt_ok (frames_ok \<alpha>) free_frame_addrs own' s'" "pa pfn \<in> free_frame_addrs (pt_alloc s)"
    "translate R as addr s' =
      (Ok (Some \<lparr>pi_pfn = pfn, pi_perms = (pte_from_vma (vm_permissions vma))\<lparr>pp_read := True\<rparr>\<rparr>), s')"
    "\<forall>r va. own r = Some (r, []) \<and> unat va < 2 ^ 48 \<and>
       (r \<noteq> l0_table as \<or> page_aligned va \<noteq> page_aligned addr) \<longrightarrow>
       view R (pt_mem s') r va = view R (pt_mem s) r va"
    unfolding root(1) by blast
  have "handle_mem_fault L R vm (DataAbortLowerEL info) info s = (Ok None, s')"
    using info d(1) by (simp add: handle_mem_fault_def run_mem_fault_handler_def determine_access_kind_def)
  then show ?thesis using info(1) d(2-6) by blast
qed

definition heap_vm :: "(nat, arm64_process_address_space) process_vm" where
  "heap_vm = \<lparr>mm_map = \<lparr>vmas = [(0x5000, new_vmarea (new_region 0x5000 0x2000) Anon vma_rw)],
     address_space = as0\<rparr>, brk = new_region 0x5000 0x2000\<rparr>"

theorem user_fault_resolved_witness:
  "\<exists>info s' pfn. exception_from 0x5abc (data_abort_syndrome True 1) = DataAbortLowerEL info \<and>
     handle_mem_fault list_ops_list tock_registers heap_vm (DataAbortLowerEL info) info pt0 = (Ok None, s') \<and>
     translate tock_registers as0 0x5abc s' = (Ok (Some \<lparr>pi_pfn = pfn, pi_perms = pte_rw True\<rparr>), s')"
proof -
  let ?vma = "new_vmarea (new_region 0x5000 0x2000) Anon vma_rw :: nat vmarea"
  have "areas_ok (vmas (mm_map heap_vm))"
    by (simp add: areas_ok_def bt_ok_def heap_vm_def new_vmarea_def page_region_ok_def new_region_def
        wf_region_def lo_def hi_def start_address_def)
  moreover have "?vma \<in> snd ` set (vmas (mm_map heap_vm))" by (simp add: heap_vm_def)
  moreover have "unat (0x5abc :: usize) \<in> vbytes ?vma"
    by (simp add: new_vmarea_def new_region_def bytes_of_def lo_def hi_def)
  moreover have "address_space (mm_map heap_vm) = as0" by (simp add: heap_vm_def)
  moreover have "vm_kind ?vma = Anon" "vp_write (vm_permissions ?vma)"
    "(pte_from_vma (vm_permissions ?vma))\<lparr>pp_read := True\<rparr> = pte_rw True"
    by (simp_all add: new_vmarea_def vma_rw_def pte_from_vma_def pte_rw_def)
  moreover have "4 \<le> card (free_frame_addrs (pt_alloc pt0))"
    "\<forall>a\<in>free_frame_addrs (pt_alloc pt0). unat a < 2 ^ 48" by (simp_all add: pt0_def pool4_addrs)
  ultimately show ?thesis
    using user_fault_resolved [OF list_frames.frame_list_axioms tock.bitfields_axioms pt0_ok _ own0_root,
        of heap_vm ?vma "0x5abc" True 1] pt0_empty
    by auto
qed

section \<open>System calls\<close>

text \<open>C38. Mapping a file is not possible: \<open>mmap\<close> without \<open>MAP_ANON\<close> returns an error and changes
  nothing, for a request with neither sharing flag is rejected and a file mapping is only recognised when
  no flag at all is set.\<close>

theorem sys_mmap_no_file_mapping:
  assumes "flags AND MAP_ANON = 0"
  shows "\<exists>e. sys_mmap A inode_of addr len prot flags f off vm = (Err e, vm)"
  using assms by (auto simp: sys_mmap_def MAP_FILE_def)

theorem sys_mmap_no_file_mapping_witness:
  "\<exists>e. sys_mmap null_as (\<lambda>_. Some 1) 0 4096 1 MAP_PRIVATE (3 :: nat) 0
     \<lparr>mm_map = file_map, brk = new_region 0x5000 0\<rparr> = (Err e, \<lparr>mm_map = file_map, brk = new_region 0x5000 0\<rparr>)"
  by (rule sys_mmap_no_file_mapping) (simp add: MAP_PRIVATE_def MAP_ANON_def)

end
