(* ===== verification/WakerSet.thy ===== *)
theory WakerSet
  imports BTree
begin

text \<open>
  Sets of waiting tasks and the future built on them (\<open>libkernel/src/sync/waker_set.rs\<close>,
  \<open>condvar.rs\<close>). A waker is a value of type \<open>'w\<close>; the operations that call \<open>Waker::wake\<close> return
  the wakers they wake. A future is modelled by one function per poll: its result is \<open>None\<close> for
  \<open>Poll::Pending\<close>, and its own state, the token, is passed through. The spin lock makes each
  poll one step, so an interleaving of tasks is a sequence of these steps.
\<close>

section \<open>Waker sets\<close>

record 'w waker_set =
  waiters :: "(u64, 'w) btree"
  next_id :: u64

definition new_waker_set :: "'w waker_set" where
  "new_waker_set = \<lparr>waiters = [], next_id = 0\<rparr>"

definition allocate_id :: "'w waker_set \<Rightarrow> u64 \<times> 'w waker_set" where
  "allocate_id ws = (next_id ws, ws\<lparr>next_id := next_id ws + 1\<rparr>)"

definition register :: "'w \<Rightarrow> 'w waker_set \<Rightarrow> u64 \<times> 'w waker_set" where
  "register waker ws =
     (let (id, ws1) = allocate_id ws
      in (id, ws1\<lparr>waiters := bt_insert id waker (waiters ws1)\<rparr>))"

definition ws_remove :: "u64 \<Rightarrow> 'w waker_set \<Rightarrow> 'w waker_set" where
  "ws_remove token ws = ws\<lparr>waiters := bt_remove token (waiters ws)\<rparr>"

definition wake_one :: "'w waker_set \<Rightarrow> 'w list \<times> 'w waker_set" where
  "wake_one ws =
     (case waiters ws of
        (_, waker) # rest \<Rightarrow> ([waker], ws\<lparr>waiters := rest\<rparr>)
      | [] \<Rightarrow> ([], ws))"

definition wake_all :: "'w waker_set \<Rightarrow> 'w list \<times> 'w waker_set" where
  "wake_all ws = (map snd (waiters ws), ws\<lparr>waiters := []\<rparr>)"

section \<open>Waiting for a condition\<close>

text \<open>
  \<open>WaitUntil\<close>. The \<open>predicate\<close> closure may change the locked state; the \<open>get_waker_set\<close> closure,
  which lends a waker set of the state, is the function \<open>on_set\<close> that applies an update to it.
\<close>

definition wait_poll ::
  "(('w waker_set \<Rightarrow> u64 \<times> 'w waker_set) \<Rightarrow> 's \<Rightarrow> u64 \<times> 's) \<Rightarrow> ('s \<Rightarrow> 'r option \<times> 's) \<Rightarrow> 'w \<Rightarrow>
   u64 option \<Rightarrow> 's \<Rightarrow> 'r option \<times> u64 option \<times> 's" where
  "wait_poll on_set predicate waker token s =
     (case predicate s of
        (Some result, s1) \<Rightarrow> (Some result, token, s1)
      | (None, s1) \<Rightarrow>
          if token = None then
            let (id, s2) = on_set (register waker) s1 in (None, Some id, s2)
          else (None, token, s1))"

definition wait_drop ::
  "(('w waker_set \<Rightarrow> u64 \<times> 'w waker_set) \<Rightarrow> 's \<Rightarrow> u64 \<times> 's) \<Rightarrow> u64 option \<Rightarrow> 's \<Rightarrow> 's" where
  "wait_drop on_set token s =
     (case token of
        Some t \<Rightarrow> snd (on_set (\<lambda>ws. (t, ws_remove t ws)) s)
      | None \<Rightarrow> s)"

section \<open>Condition variables\<close>

datatype wakeup_type = WakeNone | WakeOne | WakeAll

record ('c, 'w) cond_var =
  cv_state :: 'c
  cv_wakers :: "'w waker_set"

definition new_cond_var :: "'c \<Rightarrow> ('c, 'w) cond_var" where
  "new_cond_var initial_state = \<lparr>cv_state = initial_state, cv_wakers = new_waker_set\<rparr>"

definition cv_update ::
  "('c \<Rightarrow> wakeup_type \<times> 'c) \<Rightarrow> ('c, 'w) cond_var \<Rightarrow> 'w list \<times> ('c, 'w) cond_var" where
  "cv_update updater cv =
     (let (t, st) = updater (cv_state cv);
          (ws, set) = (case t of
             WakeNone \<Rightarrow> ([], cv_wakers cv)
           | WakeOne \<Rightarrow> wake_one (cv_wakers cv)
           | WakeAll \<Rightarrow> wake_all (cv_wakers cv))
      in (ws, \<lparr>cv_state = st, cv_wakers = set\<rparr>))"

definition on_wakers ::
  "('w waker_set \<Rightarrow> u64 \<times> 'w waker_set) \<Rightarrow> ('c, 'w) cond_var \<Rightarrow> u64 \<times> ('c, 'w) cond_var" where
  "on_wakers f cv = (let (r, ws) = f (cv_wakers cv) in (r, cv\<lparr>cv_wakers := ws\<rparr>))"

definition cv_wait_until ::
  "('c \<Rightarrow> 't option \<times> 'c) \<Rightarrow> 'w \<Rightarrow> u64 option \<Rightarrow> ('c, 'w) cond_var \<Rightarrow>
   't option \<times> u64 option \<times> ('c, 'w) cond_var" where
  "cv_wait_until predicate =
     wait_poll on_wakers (\<lambda>cv. let (r, st) = predicate (cv_state cv) in (r, cv\<lparr>cv_state := st\<rparr>))"

section \<open>Properties\<close>

lemma waiters_register:
  "bt_ok (waiters ws) \<Longrightarrow>
   bt_ok (waiters (snd (register w ws))) \<and>
   set (waiters (snd (register w ws))) = insert (fst (register w ws), w) {e \<in> set (waiters ws). fst e \<noteq> next_id ws}"
  by (simp add: register_def allocate_id_def bt_ok_insert set_bt_insert)

text \<open>A waiter that polls a false condition for the first time is registered under its token.\<close>

lemma wait_poll_registers:
  "predicate s = (None, s1) \<Longrightarrow> on_set (register w) s1 = (t, s2) \<Longrightarrow>
   wait_poll on_set predicate w None s = (None, Some t, s2)"
  by (simp add: wait_poll_def)

text \<open>A waiter that holds a token is not registered again, whether or not it is still in the set.\<close>

lemma wait_poll_token:
  "predicate s = (None, s1) \<Longrightarrow> wait_poll on_set predicate w (Some t) s = (None, Some t, s1)"
  by (simp add: wait_poll_def)

lemma wait_poll_ready:
  "predicate s = (Some r, s1) \<Longrightarrow> wait_poll on_set predicate w t s = (Some r, t, s1)"
  by (simp add: wait_poll_def)

lemma wake_one_empty [simp]: "waiters ws = [] \<Longrightarrow> wake_one ws = ([], ws)"
  by (simp add: wake_one_def)

lemma wake_one_registered [simp]:
  "waiters ws = [] \<Longrightarrow> wake_one (snd (register w ws)) = ([w], ws\<lparr>next_id := next_id ws + 1\<rparr>)"
  by (simp add: wake_one_def register_def allocate_id_def)

end
