(* ===== verification/KBuf.thy ===== *)
theory KBuf
  imports WakerSet
begin

text \<open>
  The asynchronous ring buffer behind pipes and terminals (\<open>libkernel/src/memory/kbuf.rs\<close>).
  The ring itself is the \<open>ringbuf\<close> crate: the record \<open>rb_ops\<close> holds the operations the code calls and
  the locale \<open>ring_buffer\<close> what they are documented to do, over the sequence of elements the ring
  holds and its capacity. The locale is interpreted on a ring over a store with a read index and
  a count. Slices are lists and their lengths are \<open>nat\<close>; a slot of the ring is an \<open>option\<close> (\<open>MaybeUninit\<close>).
\<close>

section \<open>The ring buffer interface\<close>

record ('b, 'a) rb_ops =
  rb_is_empty :: "'b \<Rightarrow> bool"
  rb_is_full :: "'b \<Rightarrow> bool"
  rb_try_push :: "'a \<Rightarrow> 'b \<Rightarrow> 'b option"
  rb_try_pop :: "'b \<Rightarrow> ('a \<times> 'b) option"
  rb_push_slice :: "'a list \<Rightarrow> 'b \<Rightarrow> nat \<times> 'b"
  rb_pop_slice :: "nat \<Rightarrow> 'b \<Rightarrow> 'a list \<times> 'b"
  rb_occupied_len :: "'b \<Rightarrow> nat"
  rb_vacant_len :: "'b \<Rightarrow> nat"
  rb_occupied_slices :: "'b \<Rightarrow> 'a option list \<times> 'a option list"
  rb_vacant_slices :: "'b \<Rightarrow> 'a option list \<times> 'a option list"
  rb_advance_read :: "nat \<Rightarrow> 'b \<Rightarrow> 'b"
  rb_advance_write :: "'a option list \<times> 'a option list \<Rightarrow> nat \<Rightarrow> 'b \<Rightarrow> 'b"

section \<open>The buffer\<close>

text \<open>The field \<open>woken\<close> records the wakers that were woken, in order.\<close>

record ('b, 'w) kbuf_inner =
  kb_ring :: 'b
  read_waiters :: "'w waker_set"
  write_waiters :: "'w waker_set"
  woken :: "'w list"

definition new_kbuf :: "'b \<Rightarrow> ('b, 'w) kbuf_inner" where
  "new_kbuf rb = \<lparr>kb_ring = rb, read_waiters = new_waker_set, write_waiters = new_waker_set, woken = []\<rparr>"

definition wake_reader :: "('b, 'w) kbuf_inner \<Rightarrow> ('b, 'w) kbuf_inner" where
  "wake_reader k =
     (let (w, ws) = wake_one (read_waiters k) in k\<lparr>read_waiters := ws, woken := woken k @ w\<rparr>)"

definition wake_writer :: "('b, 'w) kbuf_inner \<Rightarrow> ('b, 'w) kbuf_inner" where
  "wake_writer k =
     (let (w, ws) = wake_one (write_waiters k) in k\<lparr>write_waiters := ws, woken := woken k @ w\<rparr>)"

definition on_readers ::
  "('w waker_set \<Rightarrow> u64 \<times> 'w waker_set) \<Rightarrow> ('b, 'w) kbuf_inner \<Rightarrow> u64 \<times> ('b, 'w) kbuf_inner" where
  "on_readers f k = (let (r, ws) = f (read_waiters k) in (r, k\<lparr>read_waiters := ws\<rparr>))"

definition on_writers ::
  "('w waker_set \<Rightarrow> u64 \<times> 'w waker_set) \<Rightarrow> ('b, 'w) kbuf_inner \<Rightarrow> u64 \<times> ('b, 'w) kbuf_inner" where
  "on_writers f k = (let (r, ws) = f (write_waiters k) in (r, k\<lparr>write_waiters := ws\<rparr>))"

definition read_ready ::
  "('b, 'a) rb_ops \<Rightarrow> 'w \<Rightarrow> u64 option \<Rightarrow> ('b, 'w) kbuf_inner \<Rightarrow>
   unit option \<times> u64 option \<times> ('b, 'w) kbuf_inner" where
  "read_ready R = wait_poll on_readers (\<lambda>k. (if rb_is_empty R (kb_ring k) then None else Some (), k))"

definition write_ready ::
  "('b, 'a) rb_ops \<Rightarrow> 'w \<Rightarrow> u64 option \<Rightarrow> ('b, 'w) kbuf_inner \<Rightarrow>
   unit option \<times> u64 option \<times> ('b, 'w) kbuf_inner" where
  "write_ready R = wait_poll on_writers (\<lambda>k. (if rb_is_full R (kb_ring k) then None else Some (), k))"

definition try_push ::
  "('b, 'a) rb_ops \<Rightarrow> 'a \<Rightarrow> ('b, 'w) kbuf_inner \<Rightarrow> 'a option \<times> ('b, 'w) kbuf_inner" where
  "try_push R obj k =
     (case rb_try_push R obj (kb_ring k) of
        Some b \<Rightarrow> (None, wake_reader (k\<lparr>kb_ring := b\<rparr>))
      | None \<Rightarrow> (Some obj, k))"

definition try_pop ::
  "('b, 'a) rb_ops \<Rightarrow> ('b, 'w) kbuf_inner \<Rightarrow> 'a option \<times> ('b, 'w) kbuf_inner" where
  "try_pop R k =
     (case rb_try_pop R (kb_ring k) of
        Some (x, b) \<Rightarrow> (Some x, wake_writer (k\<lparr>kb_ring := b\<rparr>))
      | None \<Rightarrow> (None, k))"

text \<open>
  The asynchronous \<open>push\<close> and \<open>pop\<close> take the lock once to wait and once to transfer; their steps are
  separate because other tasks may run in between. The \<open>WaitUntil\<close> future is dropped when it is done.
\<close>

datatype 'a push_state = PushWait "u64 option" 'a | PushTry 'a | PushDone

definition push_step ::
  "('b, 'a) rb_ops \<Rightarrow> 'w \<Rightarrow> 'a push_state \<Rightarrow> ('b, 'w) kbuf_inner \<Rightarrow> 'a push_state \<times> ('b, 'w) kbuf_inner" where
  "push_step R waker st k =
     (case st of
        PushWait token obj \<Rightarrow>
          (case write_ready R waker token k of
             (Some _, token', k1) \<Rightarrow> (PushTry obj, wait_drop on_writers token' k1)
           | (None, token', k1) \<Rightarrow> (PushWait token' obj, k1))
      | PushTry obj \<Rightarrow>
          (case try_push R obj k of
             (None, k1) \<Rightarrow> (PushDone, k1)
           | (Some o', k1) \<Rightarrow> (PushWait None o', k1))
      | PushDone \<Rightarrow> (PushDone, k))"

datatype 'a pop_state = PopWait "u64 option" | PopTry | PopDone 'a

definition pop_step ::
  "('b, 'a) rb_ops \<Rightarrow> 'w \<Rightarrow> 'a pop_state \<Rightarrow> ('b, 'w) kbuf_inner \<Rightarrow> 'a pop_state \<times> ('b, 'w) kbuf_inner" where
  "pop_step R waker st k =
     (case st of
        PopWait token \<Rightarrow>
          (case read_ready R waker token k of
             (Some _, token', k1) \<Rightarrow> (PopTry, wait_drop on_readers token' k1)
           | (None, token', k1) \<Rightarrow> (PopWait token', k1))
      | PopTry \<Rightarrow>
          (case try_pop R k of
             (Some obj, k1) \<Rightarrow> (PopDone obj, k1)
           | (None, k1) \<Rightarrow> (PopWait None, k1))
      | PopDone obj \<Rightarrow> (PopDone obj, k))"

text \<open>The destination slice of a pop is given by its length; the result is the elements written to it.\<close>

definition pop_slice ::
  "('b, 'a) rb_ops \<Rightarrow> nat \<Rightarrow> 'w \<Rightarrow> u64 option \<Rightarrow> ('b, 'w) kbuf_inner \<Rightarrow>
   'a list option \<times> u64 option \<times> ('b, 'w) kbuf_inner" where
  "pop_slice R len =
     wait_poll on_readers (\<lambda>k.
       let (xs, b) = rb_pop_slice R len (kb_ring k); k1 = k\<lparr>kb_ring := b\<rparr>
       in if length xs \<noteq> 0 then (Some xs, wake_writer k1) else (None, k1))"

definition try_pop_slice ::
  "('b, 'a) rb_ops \<Rightarrow> nat \<Rightarrow> ('b, 'w) kbuf_inner \<Rightarrow> 'a list \<times> ('b, 'w) kbuf_inner" where
  "try_pop_slice R len k =
     (let (xs, b) = rb_pop_slice R len (kb_ring k); k1 = k\<lparr>kb_ring := b\<rparr>
      in (xs, if length xs > 0 then wake_writer k1 else k1))"

definition push_slice ::
  "('b, 'a) rb_ops \<Rightarrow> 'a list \<Rightarrow> 'w \<Rightarrow> u64 option \<Rightarrow> ('b, 'w) kbuf_inner \<Rightarrow>
   nat option \<times> u64 option \<times> ('b, 'w) kbuf_inner" where
  "push_slice R xs =
     wait_poll on_writers (\<lambda>k.
       let (bytes_written, b) = rb_push_slice R xs (kb_ring k);
           k1 = k\<lparr>kb_ring := b\<rparr>;
           k2 = (if \<not> rb_is_full R b then wake_writer k1 else k1)
       in if bytes_written > 0 then (Some bytes_written, wake_reader k2) else (None, k2))"

definition try_push_slice ::
  "('b, 'a) rb_ops \<Rightarrow> 'a list \<Rightarrow> ('b, 'w) kbuf_inner \<Rightarrow> nat \<times> ('b, 'w) kbuf_inner" where
  "try_push_slice R xs k =
     (let (n, b) = rb_push_slice R xs (kb_ring k); k1 = k\<lparr>kb_ring := b\<rparr>
      in (n, if n > 0 then wake_reader k1 else k1))"

text \<open>\<open>dst[..n].copy_from_slice(src)\<close>, for a source of \<open>n\<close> elements.\<close>

definition copy_prefix :: "'m list \<Rightarrow> 'm list \<Rightarrow> 'm list" where
  "copy_prefix src dst = src @ drop (length src) dst"

definition copy_slices ::
  "'m list \<times> 'm list \<Rightarrow> 'm list \<times> 'm list \<Rightarrow> nat \<Rightarrow> nat \<times> 'm list \<times> 'm list" where
  "copy_slices src dst original_amount =
     (let (src_head, src_tail) = src; (dst_head, dst_tail) = dst;
          n1 = min original_amount (min (length src_head) (length dst_head));
          dst_head1 = copy_prefix (take n1 src_head) dst_head;
          amount1 = original_amount - n1
      in if amount1 = 0 then (original_amount, dst_head1, dst_tail)
         else
           let src_after_head = drop n1 src_head;
               n2 = min amount1 (min (length src_after_head) (length dst_tail));
               dst_tail1 = copy_prefix (take n2 src_after_head) dst_tail;
               amount2 = amount1 - n2
           in if amount2 = 0 then (original_amount, dst_head1, dst_tail1)
              else
                let n3 = min amount2 (min (length src_tail) (length dst_head1 - n1));
                    dst_head2 = take n1 dst_head1 @ copy_prefix (take n3 src_tail) (drop n1 dst_head1)
                in (original_amount - (amount2 - n3), dst_head2, dst_tail1))"

text \<open>
  One poll of the future of \<open>splice_from\<close> after its two early returns (a count of zero, and a
  buffer spliced to itself), with both locks held. \<open>dst\<close> is \<open>self\<close>.
\<close>

definition splice_poll ::
  "('b, 'a) rb_ops \<Rightarrow> nat \<Rightarrow> 'w \<Rightarrow> ('b, 'w) kbuf_inner \<Rightarrow> ('b, 'w) kbuf_inner \<Rightarrow>
   nat option \<times> ('b, 'w) kbuf_inner \<times> ('b, 'w) kbuf_inner" where
  "splice_poll R count waker dst src =
     (let bytes_to_move = min count (min (rb_occupied_len R (kb_ring src)) (rb_vacant_len R (kb_ring dst)))
      in if bytes_to_move > 0 then
           let (copied, slices) = copy_slices (rb_occupied_slices R (kb_ring src))
                 (rb_vacant_slices R (kb_ring dst)) bytes_to_move;
               src1 = src\<lparr>kb_ring := rb_advance_read R copied (kb_ring src)\<rparr>;
               dst1 = dst\<lparr>kb_ring := rb_advance_write R slices copied (kb_ring dst)\<rparr>
           in (Some copied, wake_reader dst1, wake_writer src1)
         else
           let src1 = (if rb_is_empty R (kb_ring src) then snd (on_readers (register waker) src) else src);
               dst1 = (if rb_is_full R (kb_ring dst) then snd (on_writers (register waker) dst) else dst)
           in (None, dst1, src1))"

text \<open>The buffers of the system by address; \<open>splice_from i j\<close> moves from \<open>j\<close> into \<open>i\<close>.\<close>

definition splice_from ::
  "('b, 'a) rb_ops \<Rightarrow> nat \<Rightarrow> nat \<Rightarrow> nat \<Rightarrow> 'w \<Rightarrow> (nat \<Rightarrow> ('b, 'w) kbuf_inner) \<Rightarrow>
   nat option \<times> (nat \<Rightarrow> ('b, 'w) kbuf_inner)" where
  "splice_from R i j count waker s =
     (if count = 0 then (Some 0, s)
      else if i = j then (Some 0, s)
      else let (r, dst, src) = splice_poll R count waker (s i) (s j) in (r, s(i := dst, j := src)))"

end
