(* ===== verification/KBufProps.thy ===== *)
theory KBufProps
  imports KBuf
begin

text \<open>
  The properties of the ring buffer: what the \<open>ringbuf\<close> crate promises as a locale, a ring that
  keeps these laws, and the proofs that elements come out of every buffer in the order in which
  they went in, for every interleaving of the operations of any number of tasks and buffers.
\<close>

section \<open>Copying between slices\<close>

lemma copy_slices_head:
  "amount \<le> length sh \<Longrightarrow> amount \<le> length dh \<Longrightarrow>
   copy_slices (sh, st) (dh, dt) amount = (amount, take amount sh @ drop amount dh, dt)"
  by (simp add: copy_slices_def copy_prefix_def Let_def min_absorb1 min_absorb2)

lemma copy_slices_short_src:
  "length sh < amount \<Longrightarrow> length sh \<le> length dh \<Longrightarrow>
   k = min (amount - length sh) (min (length st) (length dh - length sh)) \<Longrightarrow>
   copy_slices (sh, st) (dh, dt) amount =
     (length sh + k, sh @ take k st @ drop (length sh + k) dh, dt)"
  by (auto simp: copy_slices_def copy_prefix_def Let_def min_absorb1 min_absorb2 add.commute)

lemma copy_slices_short_dst:
  assumes "length dh < amount" and "length dh < length sh" and "amount \<le> length dh + length dt"
    and "n = min amount (length sh)"
  shows "copy_slices (sh, st) (dh, dt) amount =
     (n, take (length dh) sh, take (n - length dh) (drop (length dh) sh) @ drop (n - length dh) dt)"
proof -
  have "min (amount - length dh) (min (length sh - length dh) (length dt)) = n - length dh"
    using assms by auto
  then show ?thesis
    using assms by (cases "amount \<le> length sh")
      (simp_all add: copy_slices_def copy_prefix_def Let_def min_absorb1 min_absorb2)
qed

text \<open>
  \<open>copy_slices\<close> writes a prefix of the source sequence to the front of the destination sequence,
  whatever the split of the two into slices, and makes progress when the first slices are not empty.
\<close>

lemma copy_slices_prefix:
  assumes c: "copy_slices (sh, st) (dh, dt) amount = (n, dh', dt')"
    and a: "amount \<le> length sh + length st" "amount \<le> length dh + length dt"
  shows "n \<le> amount \<and> length dh' = length dh \<and> length dt' = length dt \<and>
         take n (dh' @ dt') = take n (sh @ st) \<and> (0 < amount \<and> sh \<noteq> [] \<and> dh \<noteq> [] \<longrightarrow> 0 < n)"
proof -
  consider (head) "amount \<le> length sh" "amount \<le> length dh"
    | (src) "length sh < amount" "length sh \<le> length dh"
    | (dst) "length dh < amount" "length dh < length sh"
    by linarith
  then show ?thesis
  proof cases
    case head then show ?thesis using c by (auto simp: copy_slices_head)
  next
    case src
    then show ?thesis using c copy_slices_short_src [OF src refl, of st dt] a by auto
  next
    case dst
    then show ?thesis using c copy_slices_short_dst [OF dst a(2) refl, of st] a
      by (auto simp: min_def take_add [symmetric] split: if_splits)
  qed
qed

section \<open>What the ring promises\<close>

locale ring_buffer =
  fixes R :: "('b, 'a) rb_ops" and ok :: "'b \<Rightarrow> bool" and contents :: "'b \<Rightarrow> 'a list" and cap :: "'b \<Rightarrow> nat"
  assumes bounded: "ok b \<Longrightarrow> length (contents b) \<le> cap b"
    and is_empty: "ok b \<Longrightarrow> rb_is_empty R b \<longleftrightarrow> contents b = []"
    and is_full: "ok b \<Longrightarrow> rb_is_full R b \<longleftrightarrow> length (contents b) = cap b"
    and occupied_len: "ok b \<Longrightarrow> rb_occupied_len R b = length (contents b)"
    and vacant_len: "ok b \<Longrightarrow> rb_vacant_len R b = cap b - length (contents b)"
    and try_push_full: "ok b \<Longrightarrow> length (contents b) = cap b \<Longrightarrow> rb_try_push R x b = None"
    and try_push_room: "ok b \<Longrightarrow> length (contents b) < cap b \<Longrightarrow>
      \<exists>b'. rb_try_push R x b = Some b' \<and> ok b' \<and> cap b' = cap b \<and> contents b' = contents b @ [x]"
    and try_pop_empty: "ok b \<Longrightarrow> contents b = [] \<Longrightarrow> rb_try_pop R b = None"
    and try_pop_some: "ok b \<Longrightarrow> contents b = x # xs \<Longrightarrow>
      \<exists>b'. rb_try_pop R b = Some (x, b') \<and> ok b' \<and> cap b' = cap b \<and> contents b' = xs"
    and push_slice: "ok b \<Longrightarrow> rb_push_slice R ys b = (n, b') \<Longrightarrow>
      n = min (length ys) (cap b - length (contents b)) \<and> ok b' \<and> cap b' = cap b \<and>
      contents b' = contents b @ take n ys"
    and pop_slice: "ok b \<Longrightarrow> rb_pop_slice R len b = (ys, b') \<Longrightarrow>
      ys = take len (contents b) \<and> ok b' \<and> cap b' = cap b \<and> contents b' = drop len (contents b)"
    and occupied: "ok b \<Longrightarrow> rb_occupied_slices R b = (h, t) \<Longrightarrow>
      h @ t = map Some (contents b) \<and> (h = [] \<longrightarrow> t = [])"
    and vacant: "ok b \<Longrightarrow> rb_vacant_slices R b = (h, t) \<Longrightarrow>
      length h + length t = cap b - length (contents b) \<and> (h = [] \<longrightarrow> t = [])"
    and advance_read: "ok b \<Longrightarrow> n \<le> length (contents b) \<Longrightarrow>
      ok (rb_advance_read R n b) \<and> cap (rb_advance_read R n b) = cap b \<and>
      contents (rb_advance_read R n b) = drop n (contents b)"
    and advance_write: "ok b \<Longrightarrow> rb_vacant_slices R b = (h, t) \<Longrightarrow>
      length h' = length h \<Longrightarrow> length t' = length t \<Longrightarrow>
      n \<le> length h + length t \<Longrightarrow> take n (h' @ t') = map Some ys \<Longrightarrow>
      ok (rb_advance_write R (h', t') n b) \<and> cap (rb_advance_write R (h', t') n b) = cap b \<and>
      contents (rb_advance_write R (h', t') n b) = contents b @ ys"

section \<open>A ring that keeps the promise\<close>

text \<open>
  A store of slots, the read index and the number of occupied slots. \<open>slots_from r\<close> is the store as
  seen from the read index: first the occupied slots, then the vacant ones.
\<close>

record 'a ring =
  store :: "'a option list"
  rd :: nat
  cnt :: nat

definition ring_cap :: "'a ring \<Rightarrow> nat" where
  "ring_cap r = length (store r)"

definition slots_from :: "'a ring \<Rightarrow> 'a option list" where
  "slots_from r = rotate (rd r) (store r)"

definition ring_contents :: "'a ring \<Rightarrow> 'a list" where
  "ring_contents r = map the (take (cnt r) (slots_from r))"

definition ring_ok :: "'a ring \<Rightarrow> bool" where
  "ring_ok r \<longleftrightarrow> rd r < length (store r) \<and> cnt r \<le> length (store r) \<and> None \<notin> set (take (cnt r) (slots_from r))"

definition set_slots :: "'a option list \<Rightarrow> nat \<Rightarrow> 'a ring \<Rightarrow> 'a ring" where
  "set_slots xs n r = r\<lparr>store := rotate (length (store r) - rd r) xs, cnt := n\<rparr>"

definition ring_write :: "'a option list \<times> 'a option list \<Rightarrow> nat \<Rightarrow> 'a ring \<Rightarrow> 'a ring" where
  "ring_write hv n r = set_slots (take (cnt r) (slots_from r) @ fst hv @ snd hv) (cnt r + n) r"

definition ring_read :: "nat \<Rightarrow> 'a ring \<Rightarrow> 'a ring" where
  "ring_read n r = r\<lparr>rd := (rd r + n) mod length (store r), cnt := cnt r - n\<rparr>"

definition ring_occupied :: "'a ring \<Rightarrow> 'a option list \<times> 'a option list" where
  "ring_occupied r =
     (take (cnt r) (drop (rd r) (store r)), take (cnt r - (length (store r) - rd r)) (store r))"

definition ring_vacant :: "'a ring \<Rightarrow> 'a option list \<times> 'a option list" where
  "ring_vacant r =
     (let n = length (store r); w = (rd r + cnt r) mod n; v = n - cnt r
      in (take v (drop w (store r)), take (v - (n - w)) (store r)))"

definition ring_push_slice :: "'a list \<Rightarrow> 'a ring \<Rightarrow> nat \<times> 'a ring" where
  "ring_push_slice xs r =
     (let n = min (length xs) (length (store r) - cnt r);
          vacant = drop (cnt r) (slots_from r)
      in (n, ring_write (map Some (take n xs), drop n vacant) n r))"

definition ring_pop_slice :: "nat \<Rightarrow> 'a ring \<Rightarrow> 'a list \<times> 'a ring" where
  "ring_pop_slice len r = (take len (ring_contents r), ring_read (min len (cnt r)) r)"

definition shared_rb_ops :: "('a ring, 'a) rb_ops" where
  "shared_rb_ops = \<lparr>
     rb_is_empty = (\<lambda>r. cnt r = 0),
     rb_is_full = (\<lambda>r. cnt r = length (store r)),
     rb_try_push = (\<lambda>x r. if cnt r = length (store r) then None else Some (snd (ring_push_slice [x] r))),
     rb_try_pop = (\<lambda>r. if cnt r = 0 then None else Some (hd (ring_contents r), ring_read 1 r)),
     rb_push_slice = ring_push_slice,
     rb_pop_slice = ring_pop_slice,
     rb_occupied_len = cnt,
     rb_vacant_len = (\<lambda>r. length (store r) - cnt r),
     rb_occupied_slices = ring_occupied,
     rb_vacant_slices = ring_vacant,
     rb_advance_read = ring_read,
     rb_advance_write = ring_write\<rparr>"

definition new_ring :: "nat \<Rightarrow> 'a ring" where
  "new_ring n = \<lparr>store = replicate n None, rd = 0, cnt = 0\<rparr>"

lemma length_slots_from [simp]: "length (slots_from r) = length (store r)"
  by (simp add: slots_from_def)

lemma length_ring_contents: "ring_ok r \<Longrightarrow> length (ring_contents r) = cnt r"
  by (simp add: ring_contents_def ring_ok_def)

lemma Some_the_map: "None \<notin> set xs \<Longrightarrow> map (Some \<circ> the) xs = xs"
  by (induction xs) auto

lemma map_Some_contents: "ring_ok r \<Longrightarrow> map Some (ring_contents r) = take (cnt r) (slots_from r)"
  by (simp add: ring_contents_def ring_ok_def Some_the_map)

lemma contentsI: "take (cnt r) (slots_from r) = map Some xs \<Longrightarrow> ring_contents r = xs"
  by (simp add: ring_contents_def comp_def)

lemma slots_from_set_slots:
  "ring_ok r \<Longrightarrow> length xs = length (store r) \<Longrightarrow> slots_from (set_slots xs n r) = xs"
  by (simp add: slots_from_def set_slots_def rotate_rotate ring_ok_def)

lemma ring_write_ok:
  assumes r: "ring_ok r" and l: "length h + length t = length (store r) - cnt r"
    and n: "n \<le> length h + length t" and t: "take n (h @ t) = map Some ys"
  shows "ring_ok (ring_write (h, t) n r) \<and> ring_cap (ring_write (h, t) n r) = ring_cap r \<and>
         ring_contents (ring_write (h, t) n r) = ring_contents r @ ys"
proof -
  let ?xs = "take (cnt r) (slots_from r) @ h @ t" and ?r = "ring_write (h, t) n r"
  have c: "cnt r \<le> length (store r)" using r by (simp add: ring_ok_def)
  have s: "slots_from ?r = ?xs"
    unfolding ring_write_def fst_conv snd_conv by (rule slots_from_set_slots) (use r c l in auto)
  have k: "cnt ?r = cnt r + n" and st: "length (store ?r) = length (store r)" "rd ?r = rd r"
    using c l by (auto simp: ring_write_def set_slots_def)
  have "take (cnt ?r) (slots_from ?r) = take (cnt r) (slots_from r) @ take n (h @ t)"
    unfolding s k using c by (simp add: min_absorb2)
  then have e: "take (cnt ?r) (slots_from ?r) = map Some (ring_contents r @ ys)"
    using t map_Some_contents [OF r] by simp
  show ?thesis
    using contentsI [OF e] e r c l n by (auto simp: ring_ok_def k st ring_cap_def)
qed

lemma ring_read_ok:
  assumes r: "ring_ok r" and n: "n \<le> cnt r"
  shows "ring_ok (ring_read n r) \<and> ring_cap (ring_read n r) = ring_cap r \<and>
         ring_contents (ring_read n r) = drop n (ring_contents r)"
proof -
  have c: "cnt r \<le> length (store r)" "rd r < length (store r)" using r by (auto simp: ring_ok_def)
  have "slots_from (ring_read n r) = rotate n (slots_from r)"
    by (simp add: slots_from_def ring_read_def rotate_rotate rotate_conv_mod [symmetric] add.commute)
  also have "take (cnt r - n) (rotate n (slots_from r)) = take (cnt r - n) (drop n (slots_from r))"
  proof (cases "n < length (store r)")
    case True then show ?thesis using n c by (simp add: rotate_drop_take)
  next
    case False then show ?thesis using n c by simp
  qed
  finally have e: "take (cnt (ring_read n r)) (slots_from (ring_read n r)) = map Some (drop n (ring_contents r))"
    using map_Some_contents [OF r] by (simp add: ring_read_def drop_take drop_map [symmetric])
  have "0 < length (store r)" using c(2) by (cases "store r") simp_all
  then have "rd (ring_read n r) < length (store r)" by (simp add: ring_read_def)
  then show ?thesis
    using contentsI [OF e] e c by (simp add: ring_ok_def) (simp add: ring_read_def ring_cap_def)
qed

lemma slots_split: "rd r < length (store r) \<Longrightarrow> slots_from r = drop (rd r) (store r) @ take (rd r) (store r)"
  by (simp add: slots_from_def rotate_drop_take)

lemma ring_occupied_ok:
  assumes r: "ring_ok r" and h: "ring_occupied r = (h, t)"
  shows "h @ t = map Some (ring_contents r) \<and> (h = [] \<longrightarrow> t = [])"
proof -
  have c: "cnt r \<le> length (store r)" "rd r < length (store r)" using r by (auto simp: ring_ok_def)
  then have "cnt r - (length (store r) - rd r) \<le> rd r" by linarith
  then have "h @ t = map Some (ring_contents r)"
    unfolding map_Some_contents [OF r] slots_split [OF c(2)]
    using h by (auto simp: ring_occupied_def min_absorb1)
  moreover have "h = [] \<longrightarrow> t = []" using h c by (auto simp: ring_occupied_def)
  ultimately show ?thesis by blast
qed

lemma ring_vacant_ok:
  assumes r: "ring_ok r" and h: "ring_vacant r = (h, t)"
  shows "length h + length t = length (store r) - cnt r \<and> (h = [] \<longrightarrow> t = [])"
proof -
  define n w where "n = length (store r)" and "w = (rd r + cnt r) mod length (store r)"
  have "0 < n" using r by (cases "store r") (simp_all add: ring_ok_def n_def)
  then have c: "cnt r \<le> n" "w < n" using r by (simp_all add: ring_ok_def n_def w_def)
  have e: "h = take (n - cnt r) (drop w (store r))" "t = take (n - cnt r - (n - w)) (store r)"
    using h by (auto simp: ring_vacant_def Let_def n_def w_def)
  have "h = [] \<longrightarrow> t = []" unfolding e using c(2) by (auto simp: n_def)
  moreover have "length h + length t = n - cnt r"
    unfolding e length_take length_drop n_def [symmetric] using c by linarith
  ultimately show ?thesis unfolding n_def by blast
qed

lemma ring_push_slice_ok:
  assumes "ring_ok r" and "ring_push_slice ys r = (n, r')"
  shows "n = min (length ys) (length (store r) - cnt r) \<and> ring_ok r' \<and> ring_cap r' = ring_cap r \<and>
         ring_contents r' = ring_contents r @ take n ys"
proof -
  have n: "n = min (length ys) (length (store r) - cnt r)" using assms(2) by (simp add: ring_push_slice_def Let_def)
  have r': "r' = ring_write (map Some (take n ys), drop n (drop (cnt r) (slots_from r))) n r"
    using assms(2) by (auto simp: ring_push_slice_def Let_def n)
  show ?thesis
    unfolding r' using n ring_write_ok [OF assms(1)] by simp
qed

lemma ring_try_push_ok:
  assumes "ring_ok r" and "length (ring_contents r) < ring_cap r"
  shows "ring_ok (snd (ring_push_slice [x] r)) \<and> ring_cap (snd (ring_push_slice [x] r)) = ring_cap r \<and>
         ring_contents (snd (ring_push_slice [x] r)) = ring_contents r @ [x]"
  using ring_push_slice_ok [OF assms(1), of "[x]" "fst (ring_push_slice [x] r)" "snd (ring_push_slice [x] r)"] assms
  by (simp add: length_ring_contents ring_cap_def)

lemmas ring_defs = shared_rb_ops_def length_ring_contents ring_cap_def

interpretation shared_rb: ring_buffer shared_rb_ops ring_ok ring_contents ring_cap
proof (unfold_locales, goal_cases)
  case (1 b) then show ?case by (simp add: ring_defs) (simp add: ring_ok_def)
next
  case (2 b) then show ?case using length_ring_contents [OF 2] by (auto simp: shared_rb_ops_def)
next
  case (3 b) then show ?case by (simp add: ring_defs)
next
  case (4 b) then show ?case by (simp add: ring_defs)
next
  case (5 b) then show ?case by (simp add: ring_defs)
next
  case (6 b x) then show ?case by (simp add: ring_defs)
next
  case (7 b x) then show ?case using ring_try_push_ok [OF 7, of x] by (simp add: ring_defs)
next
  case (8 b) then show ?case using length_ring_contents [OF 8(1)] by (simp add: shared_rb_ops_def)
next
  case (9 b x xs)
  then show ?case using length_ring_contents [OF 9(1)] ring_read_ok [OF 9(1), of 1]
    by (simp add: shared_rb_ops_def)
next
  case (10 b ys n b')
  then show ?case using ring_push_slice_ok [OF 10(1), of ys n b'] by (simp add: ring_defs)
next
  case (11 b len ys b')
  then show ?case using ring_read_ok [OF 11(1), of "min len (cnt b)"] length_ring_contents [OF 11(1)]
    by (auto simp: shared_rb_ops_def ring_pop_slice_def min_def)
next
  case (12 b h t) then show ?case using ring_occupied_ok by (simp add: shared_rb_ops_def)
next
  case (13 b h t) then show ?case using ring_vacant_ok [of b h t] by (simp add: ring_defs)
next
  case (14 b n) then show ?case using ring_read_ok [of b n] by (simp add: ring_defs)
next
  case (15 b h t h' t' n ys)
  then show ?case using ring_vacant_ok [of b h t] ring_write_ok [of b h' t' n ys] by (simp add: shared_rb_ops_def)
qed


section \<open>Runs\<close>

text \<open>
  \<open>kb_run R rings s p q\<close>: after some sequence of steps, each taken with the locks it needs held, the
  buffers are \<open>s\<close>; \<open>p i\<close> is the sequence of elements the operations reported as accepted by buffer
  \<open>i\<close>, and \<open>q i\<close> the sequence they handed out. Any task may take any step: the waker, the token and
  the arguments are arbitrary.
\<close>

definition pushed_by :: "'a push_state \<Rightarrow> 'a push_state \<Rightarrow> 'a list" where
  "pushed_by st st' = (case (st, st') of (PushTry x, PushDone) \<Rightarrow> [x] | _ \<Rightarrow> [])"

definition popped_by :: "'a pop_state \<Rightarrow> 'a pop_state \<Rightarrow> 'a list" where
  "popped_by st st' = (case (st, st') of (PopTry, PopDone x) \<Rightarrow> [x] | _ \<Rightarrow> [])"

inductive kb_run ::
  "('b, 'a) rb_ops \<Rightarrow> (nat \<Rightarrow> 'b) \<Rightarrow> (nat \<Rightarrow> ('b, 'w) kbuf_inner) \<Rightarrow> (nat \<Rightarrow> 'a list) \<Rightarrow> (nat \<Rightarrow> 'a list) \<Rightarrow> bool"
  for R rings where
  run_new: "kb_run R rings (\<lambda>i. new_kbuf (rings i)) (\<lambda>_. []) (\<lambda>_. [])"
| run_try_push: "kb_run R rings s p q \<Longrightarrow> try_push R x (s i) = (rest, k) \<Longrightarrow>
    kb_run R rings (s(i := k)) (p(i := p i @ (if rest = None then [x] else []))) q"
| run_try_pop: "kb_run R rings s p q \<Longrightarrow> try_pop R (s i) = (r, k) \<Longrightarrow>
    kb_run R rings (s(i := k)) p (q(i := q i @ (case r of Some x \<Rightarrow> [x] | None \<Rightarrow> [])))"
| run_push: "kb_run R rings s p q \<Longrightarrow> push_step R w st (s i) = (st', k) \<Longrightarrow>
    kb_run R rings (s(i := k)) (p(i := p i @ pushed_by st st')) q"
| run_pop: "kb_run R rings s p q \<Longrightarrow> pop_step R w st (s i) = (st', k) \<Longrightarrow>
    kb_run R rings (s(i := k)) p (q(i := q i @ popped_by st st'))"
| run_try_push_slice: "kb_run R rings s p q \<Longrightarrow> try_push_slice R xs (s i) = (n, k) \<Longrightarrow>
    kb_run R rings (s(i := k)) (p(i := p i @ take n xs)) q"
| run_try_pop_slice: "kb_run R rings s p q \<Longrightarrow> try_pop_slice R len (s i) = (ys, k) \<Longrightarrow>
    kb_run R rings (s(i := k)) p (q(i := q i @ ys))"
| run_push_slice: "kb_run R rings s p q \<Longrightarrow> push_slice R xs w t (s i) = (r, t', k) \<Longrightarrow>
    kb_run R rings (s(i := k)) (p(i := p i @ (case r of Some n \<Rightarrow> take n xs | None \<Rightarrow> []))) q"
| run_pop_slice: "kb_run R rings s p q \<Longrightarrow> pop_slice R len w t (s i) = (r, t', k) \<Longrightarrow>
    kb_run R rings (s(i := k)) p (q(i := q i @ (case r of Some ys \<Rightarrow> ys | None \<Rightarrow> [])))"
| run_read_ready: "kb_run R rings s p q \<Longrightarrow> read_ready R w t (s i) = (r, t', k) \<Longrightarrow>
    kb_run R rings (s(i := k)) p q"
| run_write_ready: "kb_run R rings s p q \<Longrightarrow> write_ready R w t (s i) = (r, t', k) \<Longrightarrow>
    kb_run R rings (s(i := k)) p q"
| run_drop_reader: "kb_run R rings s p q \<Longrightarrow> kb_run R rings (s(i := wait_drop on_readers t (s i))) p q"
| run_drop_writer: "kb_run R rings s p q \<Longrightarrow> kb_run R rings (s(i := wait_drop on_writers t (s i))) p q"
| run_splice: "kb_run R rings s p q \<Longrightarrow> splice_from R i j count w s = (r, s') \<Longrightarrow>
    xs = take (case r of Some n \<Rightarrow> n | None \<Rightarrow> 0) (drop (length (q j)) (p j)) \<Longrightarrow>
    kb_run R rings s' (p(i := p i @ xs)) (q(j := q j @ xs))"

subsection \<open>What the steps do to the ring\<close>

lemma kb_ring_frame [simp]:
  "kb_ring (wake_reader k) = kb_ring k" "kb_ring (wake_writer k) = kb_ring k"
  "kb_ring (snd (on_readers f k)) = kb_ring k" "kb_ring (snd (on_writers f k)) = kb_ring k"
  by (simp_all add: wake_reader_def wake_writer_def on_readers_def on_writers_def split: prod.split)

lemma kb_ring_wait_drop [simp]:
  "kb_ring (wait_drop on_readers t k) = kb_ring k" "kb_ring (wait_drop on_writers t k) = kb_ring k"
  by (simp_all add: wait_drop_def split: option.split)

lemma kb_ring_wait_poll:
  assumes "wait_poll on_set f w t k = (r, t', k')" and "\<And>g k. kb_ring (snd (on_set g k)) = kb_ring k"
  shows "r = fst (f k) \<and> kb_ring k' = kb_ring (snd (f k))"
  using assms(1) assms(2) [of "register w" "snd (f k)"]
  by (auto simp: wait_poll_def Let_def split: prod.splits option.splits if_splits)

lemma kb_ring_read_ready: "read_ready R w t k = (r, t', k') \<Longrightarrow> kb_ring k' = kb_ring k"
  using kb_ring_wait_poll [of on_readers _ w t k r t' k'] unfolding read_ready_def by fastforce

lemma kb_ring_write_ready: "write_ready R w t k = (r, t', k') \<Longrightarrow> kb_ring k' = kb_ring k"
  using kb_ring_wait_poll [of on_writers _ w t k r t' k'] unfolding write_ready_def by fastforce

context ring_buffer
begin

text \<open>\<open>holds c p q b\<close>: the ring is sound and holds what was accepted and not handed out.\<close>

definition holds :: "nat \<Rightarrow> 'a list \<Rightarrow> 'a list \<Rightarrow> 'b \<Rightarrow> bool" where
  "holds c p q b \<longleftrightarrow> ok b \<and> cap b = c \<and> p = q @ contents b"

lemma holds_try_push:
  assumes "holds c p q (kb_ring k)" and "try_push R x k = (rest, k')"
  shows "holds c (p @ (if rest = None then [x] else [])) q (kb_ring k')"
proof -
  have b: "ok (kb_ring k)" using assms(1) by (simp add: holds_def)
  show ?thesis
    using assms bounded [OF b] try_push_full [OF b, of x] try_push_room [OF b, of x]
    by (cases "length (contents (kb_ring k)) = cap (kb_ring k)")
      (auto simp: holds_def try_push_def split: option.splits)
qed

lemma holds_try_pop:
  assumes "holds c p q (kb_ring k)" and "try_pop R k = (r, k')"
  shows "holds c p (q @ (case r of Some x \<Rightarrow> [x] | None \<Rightarrow> [])) (kb_ring k')"
proof (cases "contents (kb_ring k)")
  case Nil
  then show ?thesis using assms try_pop_empty by (auto simp: holds_def try_pop_def)
next
  case (Cons y ys)
  then show ?thesis using assms try_pop_some [of "kb_ring k" y ys] by (auto simp: holds_def try_pop_def)
qed

lemma holds_push_ring:
  "holds c p q b \<Longrightarrow> rb_push_slice R xs b = (n, b') \<Longrightarrow> holds c (p @ take n xs) q b'"
  using push_slice [of b xs n b'] by (simp add: holds_def)

lemma holds_pop_ring:
  "holds c p q b \<Longrightarrow> rb_pop_slice R len b = (ys, b') \<Longrightarrow> holds c p (q @ ys) b'"
  using pop_slice [of b len ys b'] by (simp add: holds_def)

lemma holds_try_push_slice:
  "holds c p q (kb_ring k) \<Longrightarrow> try_push_slice R xs k = (n, k') \<Longrightarrow> holds c (p @ take n xs) q (kb_ring k')"
  by (auto simp: try_push_slice_def Let_def dest: holds_push_ring split: prod.splits if_splits)

lemma holds_try_pop_slice:
  "holds c p q (kb_ring k) \<Longrightarrow> try_pop_slice R len k = (ys, k') \<Longrightarrow> holds c p (q @ ys) (kb_ring k')"
  by (auto simp: try_pop_slice_def Let_def dest: holds_pop_ring split: prod.splits if_splits)

lemma holds_push_slice:
  assumes "holds c p q (kb_ring k)" and "push_slice R xs w t k = (r, t', k')"
  shows "holds c (p @ (case r of Some n \<Rightarrow> take n xs | None \<Rightarrow> [])) q (kb_ring k')"
  using assms(1) kb_ring_wait_poll [OF assms(2) [unfolded push_slice_def]]
  by (auto simp: Let_def dest: holds_push_ring split: prod.splits if_splits)

lemma holds_pop_slice:
  assumes "holds c p q (kb_ring k)" and "pop_slice R len w t k = (r, t', k')"
  shows "holds c p (q @ (case r of Some ys \<Rightarrow> ys | None \<Rightarrow> [])) (kb_ring k')"
  using assms(1) kb_ring_wait_poll [OF assms(2) [unfolded pop_slice_def]]
  by (auto simp: Let_def dest: holds_pop_ring split: prod.splits if_splits)

lemma holds_push_step:
  assumes "holds c p q (kb_ring k)" and "push_step R w st k = (st', k')"
  shows "holds c (p @ pushed_by st st') q (kb_ring k')"
proof (cases st)
  case (PushWait t x)
  then show ?thesis using assms
    by (auto simp: push_step_def pushed_by_def dest!: kb_ring_write_ready split: prod.splits option.splits)
next
  case (PushTry x)
  then show ?thesis using assms holds_try_push [OF assms(1), of x]
    by (fastforce simp: push_step_def pushed_by_def split: prod.splits option.splits)
next
  case PushDone
  then show ?thesis using assms by (simp add: push_step_def pushed_by_def)
qed

lemma holds_pop_step:
  assumes "holds c p q (kb_ring k)" and "pop_step R w st k = (st', k')"
  shows "holds c p (q @ popped_by st st') (kb_ring k')"
proof (cases st)
  case (PopWait t)
  then show ?thesis using assms
    by (auto simp: pop_step_def popped_by_def dest!: kb_ring_read_ready split: prod.splits option.splits)
next
  case PopTry
  then show ?thesis using assms holds_try_pop [OF assms(1)]
    by (fastforce simp: pop_step_def popped_by_def split: prod.splits option.splits)
next
  case (PopDone x)
  then show ?thesis using assms by (auto simp: pop_step_def popped_by_def)
qed

lemma splice_poll_moves:
  assumes d: "ok (kb_ring dst)" and s: "ok (kb_ring src)"
    and p: "splice_poll R count w dst src = (r, dst', src')"
  shows "\<exists>n. n = (case r of Some n \<Rightarrow> n | None \<Rightarrow> 0) \<and> n \<le> count \<and> n \<le> length (contents (kb_ring src)) \<and>
    ok (kb_ring dst') \<and> cap (kb_ring dst') = cap (kb_ring dst) \<and>
    contents (kb_ring dst') = contents (kb_ring dst) @ take n (contents (kb_ring src)) \<and>
    ok (kb_ring src') \<and> cap (kb_ring src') = cap (kb_ring src) \<and>
    contents (kb_ring src') = drop n (contents (kb_ring src)) \<and> r \<noteq> Some 0"
proof -
  let ?m = "min count (min (length (contents (kb_ring src))) (cap (kb_ring dst) - length (contents (kb_ring dst))))"
  obtain sh st dh dt n h' t' where o': "rb_occupied_slices R (kb_ring src) = (sh, st)"
    and v: "rb_vacant_slices R (kb_ring dst) = (dh, dt)" and c: "copy_slices (sh, st) (dh, dt) ?m = (n, h', t')"
    by (metis prod_cases3 surj_pair)
  note O = occupied [OF s o'] and V = vacant [OF d v]
  have len: "length sh + length st = length (contents (kb_ring src))" using O by (metis length_append length_map)
  have "?m \<le> length sh + length st" "?m \<le> length dh + length dt" using len V by auto
  note C = copy_slices_prefix [OF c this]
  show ?thesis
  proof (cases "?m = 0")
    case True
    then show ?thesis
      using p s d by (auto simp: splice_poll_def occupied_len [OF s] vacant_len [OF d] Let_def)
  next
    case False
    then have "sh \<noteq> []" "dh \<noteq> []" using O V len by auto
    then have n: "0 < n" "n \<le> ?m" using C False by auto
    have "take n (h' @ t') = map Some (take n (contents (kb_ring src)))"
      using C O by (metis take_map)
    then have w: "ok (rb_advance_write R (h', t') n (kb_ring dst)) \<and> cap (rb_advance_write R (h', t') n (kb_ring dst)) = cap (kb_ring dst) \<and>
      contents (rb_advance_write R (h', t') n (kb_ring dst)) = contents (kb_ring dst) @ take n (contents (kb_ring src))"
      using advance_write [OF d v, of h' t' n] C n V by auto
    have r: "ok (rb_advance_read R n (kb_ring src)) \<and> cap (rb_advance_read R n (kb_ring src)) = cap (kb_ring src) \<and>
      contents (rb_advance_read R n (kb_ring src)) = drop n (contents (kb_ring src))"
      using advance_read [OF s, of n] n by simp
    show ?thesis
      using p w r n False by (auto simp: splice_poll_def occupied_len [OF s] vacant_len [OF d] o' v c Let_def)
  qed
qed

lemma holds_splice:
  assumes h: "\<And>i. holds (c i) (p i) (q i) (kb_ring (s i))" and f: "splice_from R i j count w s = (r, s')"
    and xs: "xs = take (case r of Some n \<Rightarrow> n | None \<Rightarrow> 0) (drop (length (q j)) (p j))"
  shows "holds (c l) ((p(i := p i @ xs)) l) ((q(j := q j @ xs)) l) (kb_ring (s' l))"
proof (cases "count = 0 \<or> i = j")
  case True
  then have "splice_from R i j count w s = (Some 0, s)" unfolding splice_from_def by (elim disjE) simp_all
  then have "s' = s" "xs = []" using f xs by auto
  then show ?thesis using h [of l] by simp
next
  case False
  obtain d k where p': "splice_poll R count w (s i) (s j) = (r, d, k)" and s': "s' = s(i := d, j := k)"
    using f False by (auto simp: splice_from_def split: prod.splits)
  have "drop (length (q j)) (p j) = contents (kb_ring (s j))" using h [of j] by (simp add: holds_def)
  then show ?thesis
    using splice_poll_moves [OF _ _ p'] h [of i] h [of j] h [of l] False unfolding s' xs
    by (auto simp: holds_def)
qed

lemma run_holds:
  assumes "kb_run R rings s p q" and "\<And>i. ok (rings i) \<and> contents (rings i) = []"
  shows "holds (cap (rings i)) (p i) (q i) (kb_ring (s i))"
  using assms(1)
proof (induction arbitrary: i rule: kb_run.induct)
  case run_new
  then show ?case using assms(2) by (simp add: holds_def new_kbuf_def)
next
  case (run_try_push s p q x i' rest k)
  then show ?case using holds_try_push [OF run_try_push.IH run_try_push.hyps(2)] by auto
next
  case (run_splice s p q i' j count w r s' xs)
  show ?case
    by (rule holds_splice [where c = "\<lambda>i. cap (rings i)"]) (use run_splice in auto)
qed (auto dest: holds_try_push holds_try_pop holds_push_step holds_pop_step holds_try_push_slice
       holds_try_pop_slice holds_push_slice holds_pop_slice kb_ring_read_ready kb_ring_write_ready)

subsection \<open>Waiting and waking\<close>

lemma pop_slice_waits:
  assumes "ok (kb_ring k)" "contents (kb_ring k) = []" "pop_slice R len a t k = (r, t', k')"
  shows "r = None \<and> ok (kb_ring k') \<and> contents (kb_ring k') = [] \<and> cap (kb_ring k') = cap (kb_ring k) \<and>
    woken k' = woken k \<and> write_waiters k' = write_waiters k \<and>
    t' = (if t = None then Some (next_id (read_waiters k)) else t) \<and>
    read_waiters k' = (if t = None then snd (register a (read_waiters k)) else read_waiters k)"
proof -
  obtain b where b: "rb_pop_slice R len (kb_ring k) = ([], b)" "ok b" "contents b = []" "cap b = cap (kb_ring k)"
    using assms(1,2) pop_slice [OF assms(1)] by (cases "rb_pop_slice R len (kb_ring k)") fastforce
  then show ?thesis
    using assms(3) by (auto simp: pop_slice_def wait_poll_def on_readers_def register_def allocate_id_def)
qed

lemma try_push_slice_room:
  assumes "ok (kb_ring k)" "xs \<noteq> []" "length (contents (kb_ring k)) + length xs \<le> cap (kb_ring k)"
    and "try_push_slice R xs k = (n, k')"
  shows "ok (kb_ring k') \<and> contents (kb_ring k') = contents (kb_ring k) @ xs \<and> cap (kb_ring k') = cap (kb_ring k) \<and>
    write_waiters k' = write_waiters k \<and> woken k' = woken k @ fst (wake_one (read_waiters k)) \<and>
    read_waiters k' = snd (wake_one (read_waiters k))"
proof -
  obtain b where "rb_push_slice R xs (kb_ring k) = (length xs, b)" "ok b"
      "contents b = contents (kb_ring k) @ xs" "cap b = cap (kb_ring k)"
    using assms(3) push_slice [OF assms(1), of xs] by (cases "rb_push_slice R xs (kb_ring k)") fastforce
  then show ?thesis
    using assms(2,4) by (auto simp: try_push_slice_def wake_reader_def split: prod.splits)
qed

lemma try_pop_slice_all:
  assumes "ok (kb_ring k)" "length (contents (kb_ring k)) \<le> len" "waiters (write_waiters k) = []"
    and "try_pop_slice R len k = (zs, k')"
  shows "ok (kb_ring k') \<and> contents (kb_ring k') = [] \<and> cap (kb_ring k') = cap (kb_ring k) \<and>
    zs = contents (kb_ring k) \<and> woken k' = woken k \<and> write_waiters k' = write_waiters k \<and>
    read_waiters k' = read_waiters k"
proof -
  obtain b where "rb_pop_slice R len (kb_ring k) = (contents (kb_ring k), b)" "ok b"
      "contents b = []" "cap b = cap (kb_ring k)"
    using assms(2) pop_slice [OF assms(1), of len] by (cases "rb_pop_slice R len (kb_ring k)") fastforce
  then show ?thesis
    using assms(3,4) by (auto simp: try_pop_slice_def wake_writer_def Let_def split: if_splits)
qed

end

section \<open>First in, first out\<close>

text \<open>C7.  Elements leave every kernel buffer in the order in which they entered it, and none is lost,
  duplicated or invented: after any interleaving of the steps of pushes, pops, slice transfers,
  splices between buffers, waits and cancelled waits, the sequence accepted by a buffer is the
  sequence it handed out followed by what its ring holds, and the ring never exceeds its capacity.
  The ring of the \<open>ringbuf\<close> crate is any implementation of its documented operations.\<close>

theorem kbuf_fifo:
  assumes "ring_buffer R ok contents cap" and "\<forall>i. ok (rings i) \<and> contents (rings i) = []"
    and "kb_run R rings s p q"
  shows "p i = q i @ contents (kb_ring (s i)) \<and> length (contents (kb_ring (s i))) \<le> cap (rings i)"
proof -
  have "ring_buffer.holds ok contents cap (cap (rings i)) (p i) (q i) (kb_ring (s i))"
    using ring_buffer.run_holds [OF assms(1,3)] assms(2) by blast
  then show ?thesis
    using ring_buffer.bounded [OF assms(1), of "kb_ring (s i)"] by (auto simp: ring_buffer.holds_def [OF assms(1)])
qed

text \<open>Two rings of two slots: three elements are offered to the first, two are accepted and moved to
  the second by a splice, and one is taken from there.\<close>

lemma new_ring_ok: "0 < n \<Longrightarrow> ring_ok (new_ring n) \<and> ring_contents (new_ring n) = []"
  by (simp add: ring_ok_def new_ring_def ring_contents_def)

lemma demo_run:
  "\<exists>s. kb_run shared_rb_ops (\<lambda>_. new_ring 2) (s :: nat \<Rightarrow> (nat ring, nat) kbuf_inner)
     ((\<lambda>_. [])(0 := [10, 20], 1 := [10, 20])) ((\<lambda>_. [])(0 := [10, 20], 1 := [10]))"
proof -
  let ?R = "shared_rb_ops :: (nat ring, nat) rb_ops" and ?e = "\<lambda>_ :: nat. [] :: nat list"
  let ?s0 = "\<lambda>_ :: nat. new_kbuf (new_ring 2) :: (nat ring, nat) kbuf_inner"
  define k where "k = snd (try_push_slice ?R [10, 20, 30] (?s0 0))"
  have k: "try_push_slice ?R [10, 20, 30] (?s0 0) = (2, k)"
    by (simp add: k_def prod_eq_iff) code_simp
  have 1: "kb_run ?R (\<lambda>_. new_ring 2) (?s0(0 := k)) (?e(0 := [10, 20])) ?e"
    using run_try_push_slice [where i = 0 and s = ?s0, OF run_new k] by simp
  define s' where "s' = snd (splice_from ?R 1 0 2 9 (?s0(0 := k)))"
  have s': "splice_from ?R 1 0 2 9 (?s0(0 := k)) = (Some 2, s')"
    unfolding s'_def k_def prod_eq_iff by simp code_simp
  have 2: "kb_run ?R (\<lambda>_. new_ring 2) s' (?e(0 := [10, 20], 1 := [10, 20])) (?e(0 := [10, 20]))"
    using run_splice [OF 1 s' refl] by simp
  define k' where "k' = snd (try_pop ?R (s' 1))"
  have k': "try_pop ?R (s' 1) = (Some 10, k')"
    unfolding k'_def s'_def k_def prod_eq_iff by simp code_simp
  show ?thesis using run_try_pop [OF 2 k'] by auto
qed

lemma kbuf_fifo_witness:
  "ring_buffer (shared_rb_ops :: (nat ring, nat) rb_ops) ring_ok ring_contents ring_cap \<and>
   (\<exists>s. kb_run shared_rb_ops (\<lambda>_. new_ring 2) (s :: nat \<Rightarrow> (nat ring, nat) kbuf_inner)
      ((\<lambda>_. [])(0 := [10, 20], 1 := [10, 20])) ((\<lambda>_. [])(0 := [10, 20], 1 := [10])) \<and>
      ring_contents (kb_ring (s 1)) = [20])"
proof -
  obtain s where s: "kb_run shared_rb_ops (\<lambda>_. new_ring 2) (s :: nat \<Rightarrow> (nat ring, nat) kbuf_inner)
     ((\<lambda>_. [])(0 := [10, 20], 1 := [10, 20])) ((\<lambda>_. [])(0 := [10, 20], 1 := [10]))"
    using demo_run by blast
  show ?thesis
    using kbuf_fifo [OF shared_rb.ring_buffer_axioms _ s, of 1] s shared_rb.ring_buffer_axioms
    by (auto simp: new_ring_ok)
qed

section \<open>A wake-up that is lost\<close>

text \<open>C39.  A task that waits for data can be left asleep while data arrives. Task \<open>a\<close> waits on an empty
  buffer and is registered; a push wakes it and so removes it from the set of waiters; before it
  runs, another task takes the data; when \<open>a\<close> polls again it still holds its old token and is not
  registered again. Every later push finds no waiter and wakes nobody, although \<open>a\<close> is pending
  and the buffer holds data.\<close>

theorem wait_until_lost_wakeup:
  assumes "ring_buffer R ok contents cap" and "ok rb" and "contents rb = []" and "0 < len"
    and "xs \<noteq> []" and "length xs \<le> cap rb" and "length xs \<le> m" and "ys \<noteq> []" and "length ys \<le> cap rb"
    and "pop_slice R len a None (new_kbuf rb) = (r1, t1, k1)"
    and "try_push_slice R xs k1 = (n2, k2)"
    and "try_pop_slice R m k2 = (zs, k3)"
    and "pop_slice R len a t1 k3 = (r4, t4, k4)"
    and "try_push_slice R ys k4 = (n5, k5)"
  shows "r1 = None \<and> waiters (read_waiters k1) = [(0, a)] \<and> woken k2 = [a] \<and> zs = xs \<and> r4 = None \<and>
         woken k5 = [a] \<and> waiters (read_waiters k5) = [] \<and> contents (kb_ring k5) = ys"
proof -
  note L = ring_buffer.pop_slice_waits [OF assms(1)] ring_buffer.try_push_slice_room [OF assms(1)]
    ring_buffer.try_pop_slice_all [OF assms(1)]
  note k1 = L(1) [OF _ _ assms(10)]
  have 1: "r1 = None" "ok (kb_ring k1)" "contents (kb_ring k1) = []" "cap (kb_ring k1) = cap rb" "t1 = Some 0"
      "read_waiters k1 = snd (register a new_waker_set)" "write_waiters k1 = new_waker_set" "woken k1 = []"
    using k1 assms(2,3) by (auto simp: new_kbuf_def) (simp add: new_waker_set_def)
  have 2: "ok (kb_ring k2)" "contents (kb_ring k2) = xs" "cap (kb_ring k2) = cap rb" "woken k2 = [a]"
      "waiters (read_waiters k2) = []" "write_waiters k2 = new_waker_set"
    using L(2) [OF _ assms(5) _ assms(11)] 1 assms(6) by (auto simp: new_waker_set_def)
  have 3: "ok (kb_ring k3)" "contents (kb_ring k3) = []" "cap (kb_ring k3) = cap rb" "woken k3 = [a]"
      "waiters (read_waiters k3) = []" "zs = xs"
    using L(3) [OF _ _ _ assms(12)] 2 assms(7) by (auto simp: new_waker_set_def)
  have 4: "r4 = None" "ok (kb_ring k4)" "contents (kb_ring k4) = []" "cap (kb_ring k4) = cap rb" "woken k4 = [a]"
      "waiters (read_waiters k4) = []"
    using L(1) [OF _ _ assms(13)] 3 1(5) by auto
  have 5: "woken k5 = [a]" "waiters (read_waiters k5) = []" "contents (kb_ring k5) = ys"
    using L(2) [OF _ assms(8) _ assms(14)] 4 assms(9) by auto
  show ?thesis
    using 1 2 3 4 5 by (simp add: register_def allocate_id_def new_waker_set_def)
qed

text \<open>A ring of two slots; the wakers are numbered.\<close>

lemma wait_until_lost_wakeup_witness:
  "\<exists>r1 t1 k1 n2 k2 zs k3 r4 t4 k4 n5 k5.
     pop_slice shared_rb_ops 1 (7 :: nat) None (new_kbuf (new_ring 2)) = (r1, t1, k1) \<and>
     try_push_slice shared_rb_ops [10 :: nat] k1 = (n2, k2) \<and>
     try_pop_slice shared_rb_ops 1 k2 = (zs, k3) \<and>
     pop_slice shared_rb_ops 1 7 t1 k3 = (r4, t4, k4) \<and>
     try_push_slice shared_rb_ops [20] k4 = (n5, k5) \<and>
     r4 = None \<and> woken k5 = [7] \<and> waiters (read_waiters k5) = [] \<and> ring_contents (kb_ring k5) = [20]"
proof -
  obtain r1 t1 k1 where 1: "pop_slice shared_rb_ops 1 (7 :: nat) None (new_kbuf (new_ring 2 :: nat ring)) = (r1, t1, k1)"
    by (metis prod_cases3)
  obtain n2 k2 where 2: "try_push_slice shared_rb_ops [10 :: nat] k1 = (n2, k2)" by fastforce
  obtain zs k3 where 3: "try_pop_slice shared_rb_ops 1 k2 = (zs, k3)" by fastforce
  obtain r4 t4 k4 where 4: "pop_slice shared_rb_ops 1 7 t1 k3 = (r4, t4, k4)" by (metis prod_cases3)
  obtain n5 k5 where 5: "try_push_slice shared_rb_ops [20] k4 = (n5, k5)" by fastforce
  have "ring_ok (new_ring 2 :: nat ring)" "ring_contents (new_ring 2 :: nat ring) = []" "ring_cap (new_ring 2 :: nat ring) = 2"
    by (simp_all add: new_ring_ok) (simp add: ring_cap_def new_ring_def)
  note c = wait_until_lost_wakeup [OF shared_rb.ring_buffer_axioms this(1,2) _ _ _ _ _ _ 1 2 3 4 5]
  show ?thesis
    using c 1 2 3 4 5 \<open>ring_cap (new_ring 2 :: nat ring) = 2\<close> by auto
qed

end
