(* ===== verification/Pipe.thy ===== *)
theory Pipe
  imports KBuf FdTable
begin

text \<open>
  Byte pipes: \<open>KPipe\<close> (\<open>src/kernel/kpipe.rs\<close>) and the two ends of a pipe (\<open>src/fs/pipe.rs\<close>). The copies
  to and from user memory are assembly that may fault and be resumed; they are parameters, polled
  like the other futures: \<open>None\<close> while a fault is being resolved. \<open>'u\<close> is the user memory.
\<close>

section \<open>Copies through a chunk on the stack\<close>

definition USER_COPY_CHUNK_SIZE :: nat where "USER_COPY_CHUNK_SIZE = 0x100"

definition chunk_len :: "usize \<Rightarrow> nat" where
  "chunk_len count = min (unat count) USER_COPY_CHUNK_SIZE"

type_synonym 'u user_write = "usize \<Rightarrow> u8 list \<Rightarrow> 'u \<Rightarrow> unit outcome option \<times> 'u"

type_synonym 'u user_read = "usize \<Rightarrow> nat \<Rightarrow> 'u \<Rightarrow> u8 list outcome option \<times> 'u"

text \<open>The states of \<open>KPipe::copy_to_user\<close>: waiting for bytes, or copying the chunk out.\<close>

datatype read_fut = ReadPop "u64 option" | ReadCopy "u8 list" nat

definition copy_out ::
  "'u user_write \<Rightarrow> usize \<Rightarrow> u8 list \<Rightarrow> nat \<Rightarrow> ('b, 'w) kbuf_inner \<Rightarrow> 'u \<Rightarrow>
   usize outcome option \<times> read_fut \<times> ('b, 'w) kbuf_inner \<times> 'u" where
  "copy_out cp dst chunk_buf bytes_read k u =
     (case cp dst chunk_buf u of
        (None, u1) \<Rightarrow> (None, ReadCopy chunk_buf bytes_read, k, u1)
      | (Some res, u1) \<Rightarrow> (Some (and_then res (\<lambda>_. Ok (of_nat bytes_read))), ReadCopy chunk_buf bytes_read, k, u1))"

definition copy_to_user ::
  "('b, u8) rb_ops \<Rightarrow> 'u user_write \<Rightarrow> usize \<Rightarrow> usize \<Rightarrow> 'w \<Rightarrow> read_fut \<Rightarrow> ('b, 'w) kbuf_inner \<Rightarrow> 'u \<Rightarrow>
   usize outcome option \<times> read_fut \<times> ('b, 'w) kbuf_inner \<times> 'u" where
  "copy_to_user R cp dst count waker fut k u =
     (case fut of
        ReadPop token \<Rightarrow>
          (case pop_slice R (chunk_len count) waker token k of
             (None, token', k1) \<Rightarrow> (None, ReadPop token', k1, u)
           | (Some xs, token', k1) \<Rightarrow>
               copy_out cp dst (copy_prefix xs (replicate (chunk_len count) 0)) (length xs)
                 (wait_drop on_readers token' k1) u)
      | ReadCopy chunk_buf bytes_read \<Rightarrow> copy_out cp dst chunk_buf bytes_read k u)"

text \<open>The states of \<open>KPipe::copy_from_user\<close>: fetching the chunk, or waiting for room for it.\<close>

datatype write_fut = WriteFetch | WritePush "u8 list" "u64 option"

definition push_chunk ::
  "('b, u8) rb_ops \<Rightarrow> u8 list \<Rightarrow> 'w \<Rightarrow> u64 option \<Rightarrow> ('b, 'w) kbuf_inner \<Rightarrow> 'u \<Rightarrow>
   usize outcome option \<times> write_fut \<times> ('b, 'w) kbuf_inner \<times> 'u" where
  "push_chunk R chunk_buf waker token k u =
     (case push_slice R chunk_buf waker token k of
        (None, token', k1) \<Rightarrow> (None, WritePush chunk_buf token', k1, u)
      | (Some n, token', k1) \<Rightarrow>
          (Some (Ok (of_nat n)), WritePush chunk_buf None, wait_drop on_writers token' k1, u))"

definition copy_from_user ::
  "('b, u8) rb_ops \<Rightarrow> 'u user_read \<Rightarrow> usize \<Rightarrow> usize \<Rightarrow> 'w \<Rightarrow> write_fut \<Rightarrow> ('b, 'w) kbuf_inner \<Rightarrow> 'u \<Rightarrow>
   usize outcome option \<times> write_fut \<times> ('b, 'w) kbuf_inner \<times> 'u" where
  "copy_from_user R cp src count waker fut k u =
     (case fut of
        WriteFetch \<Rightarrow>
          (case cp src (chunk_len count) u of
             (None, u1) \<Rightarrow> (None, WriteFetch, k, u1)
           | (Some (Ok chunk_buf), u1) \<Rightarrow> push_chunk R chunk_buf waker None k u1
           | (Some (Err e), u1) \<Rightarrow> (Some (Err e), WriteFetch, k, u1)
           | (Some Panic, u1) \<Rightarrow> (Some Panic, WriteFetch, k, u1)
           | (Some Diverge, u1) \<Rightarrow> (Some Diverge, WriteFetch, k, u1))
      | WritePush chunk_buf token \<Rightarrow> push_chunk R chunk_buf waker token k u)"

section \<open>The ends of a pipe\<close>

record ('b, 'w) pipe_inner =
  pi_buf :: "('b, 'w) kbuf_inner"
  other_side_gone :: "(bool, 'w) cond_var"

definition gone_poll ::
  "'w \<Rightarrow> u64 option \<Rightarrow> ('b, 'w) pipe_inner \<Rightarrow> unit option \<times> u64 option \<times> ('b, 'w) pipe_inner" where
  "gone_poll waker token p =
     (case cv_wait_until (\<lambda>gone. (if gone then Some () else None, gone)) waker token (other_side_gone p) of
        (r, token', cv) \<Rightarrow> (r, token', p\<lparr>other_side_gone := cv\<rparr>))"

definition gone_drop :: "u64 option \<Rightarrow> ('b, 'w) pipe_inner \<Rightarrow> ('b, 'w) pipe_inner" where
  "gone_drop token p = p\<lparr>other_side_gone := wait_drop on_wakers token (other_side_gone p)\<rparr>"

text \<open>
  \<open>do_read\<close> and \<open>do_write\<close>, for any future on the state \<open>('b, 'w) pipe_inner \<times> 'x\<close>. A poll takes the lock of
  the buffer and then, separately, the lock of \<open>other_side_gone\<close> (\<open>do_write\<close> in the other order). The argument
  \<open>env\<close> is what other processors do to the state between the two. Both futures are dropped when the
  poll is ready; \<open>drop_fut\<close> drops the transfer.
\<close>

type_synonym ('b, 'w, 'x) pipe_env = "('b, 'w) pipe_inner \<times> 'x \<Rightarrow> ('b, 'w) pipe_inner \<times> 'x"

definition do_read ::
  "('b, 'w, 'x) pipe_env \<Rightarrow>
   ('f \<Rightarrow> ('b, 'w) pipe_inner \<times> 'x \<Rightarrow> usize outcome option \<times> 'f \<times> ('b, 'w) pipe_inner \<times> 'x) \<Rightarrow>
   ('f \<Rightarrow> ('b, 'w) pipe_inner \<Rightarrow> ('b, 'w) pipe_inner) \<Rightarrow> 'w \<Rightarrow> 'f \<Rightarrow> u64 option \<Rightarrow> ('b, 'w) pipe_inner \<times> 'x \<Rightarrow>
   usize outcome option \<times> ('f \<times> u64 option) \<times> ('b, 'w) pipe_inner \<times> 'x" where
  "do_read env read_fut drop_fut waker fut gone s =
     (case read_fut fut s of
        (Some r, fut1, p1, x1) \<Rightarrow> (Some r, (fut1, None), gone_drop gone p1, x1)
      | (None, fut1, s1) \<Rightarrow>
          (case env s1 of (p1, x1) \<Rightarrow>
            (case gone_poll waker gone p1 of
               (Some _, gone1, p2) \<Rightarrow> (Some (Ok 0), (fut1, None), gone_drop gone1 (drop_fut fut1 p2), x1)
             | (None, gone1, p2) \<Rightarrow> (None, (fut1, gone1), p2, x1))))"

text \<open>The last component of the result of \<open>do_write\<close> says whether \<open>SIGPIPE\<close> was raised.\<close>

definition do_write ::
  "('b, 'w, 'x) pipe_env \<Rightarrow>
   ('f \<Rightarrow> ('b, 'w) pipe_inner \<times> 'x \<Rightarrow> usize outcome option \<times> 'f \<times> ('b, 'w) pipe_inner \<times> 'x) \<Rightarrow>
   ('f \<Rightarrow> ('b, 'w) pipe_inner \<Rightarrow> ('b, 'w) pipe_inner) \<Rightarrow> 'w \<Rightarrow> 'f \<Rightarrow> u64 option \<Rightarrow> ('b, 'w) pipe_inner \<times> 'x \<Rightarrow>
   (usize outcome option \<times> bool) \<times> ('f \<times> u64 option) \<times> ('b, 'w) pipe_inner \<times> 'x" where
  "do_write env write_fut drop_fut waker fut gone s =
     (case gone_poll waker gone (fst s) of
        (Some _, gone1, p1) \<Rightarrow>
          ((Some (Err BrokenPipe), True), (fut, None), gone_drop gone1 (drop_fut fut p1), snd s)
      | (None, gone1, p1) \<Rightarrow>
          (case write_fut fut (env (p1, snd s)) of
             (Some r, fut1, p2, x1) \<Rightarrow> ((Some r, False), (fut1, None), gone_drop gone1 p2, x1)
           | (None, fut1, p2, x1) \<Rightarrow> ((None, False), (fut1, gone1), p2, x1)))"

definition drop_read_fut :: "read_fut \<Rightarrow> ('b, 'w) pipe_inner \<Rightarrow> ('b, 'w) pipe_inner" where
  "drop_read_fut fut p =
     (case fut of ReadPop token \<Rightarrow> p\<lparr>pi_buf := wait_drop on_readers token (pi_buf p)\<rparr> | ReadCopy _ _ \<Rightarrow> p)"

definition drop_write_fut :: "write_fut \<Rightarrow> ('b, 'w) pipe_inner \<Rightarrow> ('b, 'w) pipe_inner" where
  "drop_write_fut fut p =
     (case fut of WritePush _ token \<Rightarrow> p\<lparr>pi_buf := wait_drop on_writers token (pi_buf p)\<rparr> | WriteFetch \<Rightarrow> p)"

definition pipe_read ::
  "('b, 'w, 'u) pipe_env \<Rightarrow> ('b, u8) rb_ops \<Rightarrow> 'u user_write \<Rightarrow> usize \<Rightarrow> usize \<Rightarrow> 'w \<Rightarrow> read_fut \<Rightarrow> u64 option \<Rightarrow>
   ('b, 'w) pipe_inner \<times> 'u \<Rightarrow>
   usize outcome option \<times> (read_fut \<times> u64 option) \<times> ('b, 'w) pipe_inner \<times> 'u" where
  "pipe_read env R cp u_buf count waker fut gone s =
     (if count = 0 then (Some (Ok 0), (fut, gone), s)
      else do_read env (\<lambda>fut (p, u).
             case copy_to_user R cp u_buf count waker fut (pi_buf p) u of
               (r, fut1, k, u1) \<Rightarrow> (r, fut1, p\<lparr>pi_buf := k\<rparr>, u1)) drop_read_fut waker fut gone s)"

definition pipe_write ::
  "('b, 'w, 'u) pipe_env \<Rightarrow> ('b, u8) rb_ops \<Rightarrow> 'u user_read \<Rightarrow> usize \<Rightarrow> usize \<Rightarrow> 'w \<Rightarrow> write_fut \<Rightarrow> u64 option \<Rightarrow>
   ('b, 'w) pipe_inner \<times> 'u \<Rightarrow>
   (usize outcome option \<times> bool) \<times> (write_fut \<times> u64 option) \<times> ('b, 'w) pipe_inner \<times> 'u" where
  "pipe_write env R cp u_buf count waker fut gone s =
     (if count = 0 then ((Some (Ok 0), False), (fut, gone), s)
      else do_write env (\<lambda>fut (p, u).
             case copy_from_user R cp u_buf count waker fut (pi_buf p) u of
               (r, fut1, k, u1) \<Rightarrow> (r, fut1, p\<lparr>pi_buf := k\<rparr>, u1)) drop_write_fut waker fut gone s)"

text \<open>
  Splices between a pipe and another kernel buffer \<open>k\<close>. The buffer of a pipe is created with it,
  so the two are different; the future has no state of its own.
\<close>

definition splice_once ::
  "('b, u8) rb_ops \<Rightarrow> usize \<Rightarrow> 'w \<Rightarrow> ('b, 'w) kbuf_inner \<Rightarrow> ('b, 'w) kbuf_inner \<Rightarrow>
   usize outcome option \<times> ('b, 'w) kbuf_inner \<times> ('b, 'w) kbuf_inner" where
  "splice_once R count waker dst src =
     (if count = 0 then (Some (Ok 0), dst, src)
      else case splice_poll R (unat count) waker dst src of
        (r, d, s) \<Rightarrow> (map_option (\<lambda>n. Ok (of_nat n)) r, d, s))"

definition pipe_splice_into ::
  "('b, 'w, ('b, 'w) kbuf_inner) pipe_env \<Rightarrow> ('b, u8) rb_ops \<Rightarrow> usize \<Rightarrow> 'w \<Rightarrow> u64 option \<Rightarrow> ('b, 'w) pipe_inner \<times> ('b, 'w) kbuf_inner \<Rightarrow>
   usize outcome option \<times> (unit \<times> u64 option) \<times> ('b, 'w) pipe_inner \<times> ('b, 'w) kbuf_inner" where
  "pipe_splice_into env R count waker gone s =
     do_read env (\<lambda>_ (p, k).
       case splice_once R count waker k (pi_buf p) of
         (r, k1, b1) \<Rightarrow> (r, (), p\<lparr>pi_buf := b1\<rparr>, k1)) (\<lambda>_ p. p) waker () gone s"

definition pipe_splice_from ::
  "('b, 'w, ('b, 'w) kbuf_inner) pipe_env \<Rightarrow> ('b, u8) rb_ops \<Rightarrow> usize \<Rightarrow> 'w \<Rightarrow> u64 option \<Rightarrow> ('b, 'w) pipe_inner \<times> ('b, 'w) kbuf_inner \<Rightarrow>
   (usize outcome option \<times> bool) \<times> (unit \<times> u64 option) \<times> ('b, 'w) pipe_inner \<times> ('b, 'w) kbuf_inner" where
  "pipe_splice_from env R count waker gone s =
     do_write env (\<lambda>_ (p, k).
       case splice_once R count waker (pi_buf p) k of
         (r, b1, k1) \<Rightarrow> (r, (), p\<lparr>pi_buf := b1\<rparr>, k1)) (\<lambda>_ p. p) waker () gone s"

text \<open>Dropping either end; the result holds the wakers that are woken.\<close>

definition drop_end :: "('b, 'w) pipe_inner \<Rightarrow> 'w list \<times> ('b, 'w) pipe_inner" where
  "drop_end p =
     (let (ws, cv) = cv_update (\<lambda>_. (WakeAll, True)) (other_side_gone p)
      in (ws, p\<lparr>other_side_gone := cv\<rparr>))"

text \<open>
  \<open>sys_pipe2\<close>. The ring over a fresh page is the argument \<open>kbuf\<close>; \<open>reader\<close> and \<open>writer\<close> make the open
  files. The descriptors are copied out last.
\<close>

definition sys_pipe2 ::
  "'b outcome \<Rightarrow> (('b, 'w) pipe_inner \<Rightarrow> u32 \<Rightarrow> 'f) \<Rightarrow> (('b, 'w) pipe_inner \<Rightarrow> u32 \<Rightarrow> 'f) \<Rightarrow>
   (fd \<Rightarrow> fd \<Rightarrow> unit outcome) \<Rightarrow> u32 \<Rightarrow> 'f file_descriptor_table \<Rightarrow>
   usize outcome \<times> 'f file_descriptor_table" where
  "sys_pipe2 kbuf reader writer copy_fds flags t =
     st_then (kbuf, t) (\<lambda>rb t.
     let inner = \<lparr>pi_buf = new_kbuf rb, other_side_gone = new_cond_var False\<rparr> in
     st_then (insert_fd t (reader inner flags)) (\<lambda>read_fd t.
     st_then (insert_fd t (writer inner flags)) (\<lambda>write_fd t.
     st_then (copy_fds read_fd write_fd, t) (\<lambda>_ t. (Ok 0, t)))))"

end
