(* ===== verification/PipeProps.thy ===== *)
theory PipeProps
  imports Pipe KBufProps
begin

text \<open>
  What one poll of a pipe transfer does, on every branch: for the reading end, whether the poll
  is pending, ends the file or delivers bytes, and which bytes it hands to the copy to user memory.
\<close>

context ring_buffer
begin

lemma pop_slice_some:
  assumes "ok (kb_ring k)" "contents (kb_ring k) \<noteq> []" "0 < len" "pop_slice R len a t k = (r, t', k')"
  shows "r = Some (take len (contents (kb_ring k))) \<and> t' = t \<and> ok (kb_ring k') \<and>
    contents (kb_ring k') = drop len (contents (kb_ring k))"
proof -
  obtain b where b: "rb_pop_slice R len (kb_ring k) = (take len (contents (kb_ring k)), b)" "ok b"
      "contents b = drop len (contents (kb_ring k))"
    using pop_slice [OF assms(1)] by (cases "rb_pop_slice R len (kb_ring k)") fastforce
  then show ?thesis using assms(2-4) by (auto simp: pop_slice_def wait_poll_def)
qed

end

lemma chunk_len_pos: "count \<noteq> 0 \<Longrightarrow> 0 < chunk_len count"
  by (simp add: chunk_len_def USER_COPY_CHUNK_SIZE_def unat_gt_0)

lemma gone_poll_cases:
  assumes "gone_poll w t p = (r, t', p')"
  shows "r = (if cv_state (other_side_gone p) then Some () else None) \<and> pi_buf p' = pi_buf p \<and>
    cv_state (other_side_gone p') = cv_state (other_side_gone p)"
  using assms
  by (auto simp: gone_poll_def cv_wait_until_def wait_poll_def on_wakers_def Let_def
      split: if_splits prod.splits option.splits)

lemma pi_buf_frame [simp]:
  "pi_buf (gone_drop t p) = pi_buf p" "kb_ring (pi_buf (drop_read_fut fut p)) = kb_ring (pi_buf p)"
  "kb_ring (pi_buf (drop_write_fut fw p)) = kb_ring (pi_buf p)"
  by (simp_all add: gone_drop_def drop_read_fut_def drop_write_fut_def split: read_fut.split write_fut.split)

text \<open>The part of a poll of \<open>do_read\<close> that follows a pending transfer.\<close>

lemma do_read_pending:
  assumes "f fut s = (None, fut1, s1)" and "env s1 = (pe, xe)"
    and "do_read env f drop_read_fut w fut g s = (r, fg, p', x')"
  shows "r = (if cv_state (other_side_gone pe) then Some (Ok 0) else None) \<and> x' = xe \<and>
    kb_ring (pi_buf p') = kb_ring (pi_buf pe)"
  using assms gone_poll_cases [of w g pe]
  by (cases "gone_poll w g pe") (auto simp: do_read_def split: option.splits if_splits)

lemma do_read_ready:
  assumes "f fut s = (Some res, fut1, p1, x1)" and "do_read env f dr w fut g s = (r, fg, p', x')"
  shows "r = Some res \<and> x' = x1 \<and> kb_ring (pi_buf p') = kb_ring (pi_buf p1)"
  using assms by (auto simp: do_read_def)

lemma copy_to_user_some:
  assumes "pop_slice R (chunk_len count) w t k = (Some xs, t', k')"
    and "cp dst (xs @ replicate (chunk_len count - length xs) 0) u = (c, u1)"
  shows "copy_to_user R cp dst count w (ReadPop t) k u =
    (map_option (\<lambda>res. and_then res (\<lambda>_. Ok (of_nat (length xs)))) c,
     ReadCopy (xs @ replicate (chunk_len count - length xs) 0) (length xs), wait_drop on_readers t' k', u1)"
  using assms by (simp add: copy_to_user_def copy_out_def copy_prefix_def split: option.split)

text \<open>C19.  One poll of a read from a pipe, with nothing copied yet. If the pipe holds bytes, the poll takes the
  first \<open>n\<close> of them, \<open>n\<close> being bounded by the count, a chunk of 256 bytes and what the pipe holds. It then
  hands the whole chunk to the copy to user memory, the bytes read followed by zeros up to the length
  of the chunk. A copy that is done gives \<open>n\<close> and a copy that fails gives its error. When the pipe was empty, or the copy is
  suspended on a page fault, the poll looks at the writer in a second step, after whatever
  other processors (\<open>env\<close>) did in between: it reports end of file if the writer is gone by then, whatever
  the pipe holds at that point, and is pending otherwise. So bytes taken from the pipe are lost when the copy
  fails, or is suspended and the writer is gone.\<close>

theorem pipe_read_poll:
  assumes "ring_buffer R ok contents cap" and "ok (kb_ring (pi_buf p))" and "count \<noteq> 0"
    and "pipe_read env R cp u_buf count w (ReadPop t) g (p, u) = (r, fg, p', u')"
  shows "(let xs = contents (kb_ring (pi_buf p)); n = min (chunk_len count) (length xs)
          in case if xs = [] then (None, u) else cp u_buf (take n xs @ replicate (chunk_len count - n) 0) u of
               (Some res, u1) \<Rightarrow>
                 r = Some (and_then res (\<lambda>_. Ok (of_nat n))) \<and> contents (kb_ring (pi_buf p')) = drop n xs \<and> u' = u1
             | (None, u1) \<Rightarrow>
                 (\<exists>p1 pe. contents (kb_ring (pi_buf p1)) = drop n xs \<and> other_side_gone p1 = other_side_gone p \<and>
                    env (p1, u1) = (pe, u') \<and> contents (kb_ring (pi_buf p')) = contents (kb_ring (pi_buf pe)) \<and>
                    r = (if cv_state (other_side_gone pe) then Some (Ok 0) else None)))"
proof -
  let ?k = "pi_buf p" and ?xs = "contents (kb_ring (pi_buf p))" and ?n = "chunk_len count"
  let ?f = "\<lambda>fut (p, u). case copy_to_user R cp u_buf count w fut (pi_buf p) u of
     (r, fut1, k, u1) \<Rightarrow> (r, fut1, p\<lparr>pi_buf := k\<rparr>, u1)"
  obtain q t' k' where q: "pop_slice R ?n w t ?k = (q, t', k')" by (metis prod_cases3)
  have d: "do_read env ?f drop_read_fut w (ReadPop t) g (p, u) = (r, fg, p', u')"
    using assms(3,4) by (simp add: pipe_read_def)
  have pending: "\<exists>p1 pe. contents (kb_ring (pi_buf p1)) = contents (kb_ring k) \<and> other_side_gone p1 = other_side_gone p \<and>
      env (p1, u1) = (pe, u') \<and> contents (kb_ring (pi_buf p')) = contents (kb_ring (pi_buf pe)) \<and>
      r = (if cv_state (other_side_gone pe) then Some (Ok 0) else None)"
    if "?f (ReadPop t) (p, u) = (None, fut1, p\<lparr>pi_buf := k\<rparr>, u1)" for fut1 k u1
  proof -
    obtain pe xe where e: "env (p\<lparr>pi_buf := k\<rparr>, u1) = (pe, xe)" by fastforce
    show ?thesis
      using do_read_pending [where f = ?f, OF that e d] e by (intro exI [of _ "p\<lparr>pi_buf := k\<rparr>"] exI [of _ pe]) auto
  qed
  show ?thesis
  proof (cases "?xs = []")
    case True
    have "q = None" "contents (kb_ring k') = []"
      using ring_buffer.pop_slice_waits [OF assms(1,2) True q] by auto
    then show ?thesis using pending [of "ReadPop t'" k' u] True q by (simp add: copy_to_user_def Let_def)
  next
    case False
    define ys where "ys = take ?n ?xs"
    have m: "min ?n (length ?xs) = length ys" "take (length ys) ?xs = ys" "drop (length ys) ?xs = drop ?n ?xs"
      by (simp_all add: ys_def min_def)
    have k: "q = Some ys" "contents (kb_ring k') = drop ?n ?xs"
      using ring_buffer.pop_slice_some [OF assms(1,2) False chunk_len_pos [OF assms(3)] q] by (auto simp: ys_def)
    obtain c u1 where c: "cp u_buf (ys @ replicate (?n - length ys) 0) u = (c, u1)" by fastforce
    note f = copy_to_user_some [where cp = cp and dst = u_buf and u = u, OF q [unfolded k(1)] c]
    show ?thesis
    proof (cases c)
      case None
      then show ?thesis
        using pending [of "ReadCopy (ys @ replicate (?n - length ys) 0) (length ys)" "wait_drop on_readers t' k'" u1]
          f k False unfolding Let_def m c by simp
    next
      case (Some res)
      then show ?thesis
        using do_read_ready [OF _ d, of "and_then res (\<lambda>_. Ok (of_nat (length ys)))"
          "ReadCopy (ys @ replicate (?n - length ys) 0) (length ys)" "p\<lparr>pi_buf := wait_drop on_readers t' k'\<rparr>" u1]
          f k False unfolding Let_def m c by simp
    qed
  qed
qed

text \<open>
  A poll on an empty pipe, where the writer writes a byte and closes its end between the two steps: the
  read reports end of file although the pipe holds the byte.
\<close>

definition demo_pipe :: "(u8 ring, nat) pipe_inner" where
  "demo_pipe = \<lparr>pi_buf = new_kbuf (new_ring 4), other_side_gone = new_cond_var False\<rparr>"

definition write_and_close :: "(u8 ring, nat, u8 list) pipe_env" where
  "write_and_close s = (snd (drop_end ((fst s)\<lparr>pi_buf := snd (try_push_slice shared_rb_ops [9] (pi_buf (fst s)))\<rparr>)), snd s)"

definition no_user_memory :: "u8 list user_write" where
  "no_user_memory dst xs u = (Some (Err Fault), u)"

lemma pipe_read_poll_witness:
  "ring_ok (kb_ring (pi_buf demo_pipe)) \<and>
   (\<exists>fg p'. pipe_read write_and_close shared_rb_ops no_user_memory 0x1000 8 7 (ReadPop None) None (demo_pipe, []) =
      (Some (Ok 0), fg, p', []) \<and> ring_contents (kb_ring (pi_buf p')) = [9])"
proof -
  have k: "ring_ok (kb_ring (pi_buf demo_pipe))" "ring_contents (kb_ring (pi_buf demo_pipe)) = []"
    by (simp_all add: demo_pipe_def new_kbuf_def new_ring_ok)
  obtain r fg p' u' where r: "pipe_read write_and_close shared_rb_ops no_user_memory 0x1000 8 7 (ReadPop None) None (demo_pipe, []) =
      (r, fg, p', u')" by (metis prod_cases4)
  have w: "cv_state (other_side_gone (fst (write_and_close s)))" "snd (write_and_close s) = snd s" for s
    by (simp_all add: write_and_close_def drop_end_def cv_update_def Let_def split: prod.split)
  obtain p1 pe where "write_and_close (p1, []) = (pe, u')"
    "r = (if cv_state (other_side_gone pe) then Some (Ok 0) else None)"
    using pipe_read_poll [OF shared_rb.ring_buffer_axioms k(1) _ r] by (auto simp: k(2) Let_def)
  then have "r = Some (Ok 0) \<and> u' = []" using w [of "(p1, [])"] by simp
  moreover have "ring_contents (kb_ring (pi_buf (fst (snd (snd (pipe_read write_and_close shared_rb_ops no_user_memory
      0x1000 8 7 (ReadPop None) None (demo_pipe, [])))))) ) = [9]"
    by code_simp
  ultimately show ?thesis using r k by auto
qed

end
