(* ===== verification/Tty.thy ===== *)
theory Tty
  imports Pipe KBufProps
begin

text \<open>
  The terminal: its settings (\<open>src/console/tty/meta.rs\<close>), the line discipline that turns typed bytes
  into lines (\<open>tty/cooker.rs\<close>) and the file operations (\<open>console/tty.rs\<close>). The console driver is
  the list of what was written to it. Awaited user copies are parameters.
\<close>

section \<open>Settings\<close>

record win_size =
  ws_row :: "16 word"
  ws_col :: "16 word"
  ws_xpixel :: "16 word"
  ws_ypixel :: "16 word"

definition default_win_size :: win_size where
  "default_win_size = \<lparr>ws_row = 33, ws_col = 136, ws_xpixel = 0, ws_ypixel = 0\<rparr>"

definition ICRNL :: u32 where "ICRNL = 0x100"
definition OPOST :: u32 where "OPOST = 0x01"
definition ONLCR :: u32 where "ONLCR = 0x04"
definition CS8 :: u32 where "CS8 = 0x30"
definition CREAD :: u32 where "CREAD = 0x80"
definition ISIG :: u32 where "ISIG = 0x1"
definition ICANON :: u32 where "ICANON = 0x2"
definition ECHO :: u32 where "ECHO = 0x8"
definition ECHOE :: u32 where "ECHOE = 0x10"
definition ECHOK :: u32 where "ECHOK = 0x20"
definition ECHONL :: u32 where "ECHONL = 0x40"

definition contains :: "u32 \<Rightarrow> u32 \<Rightarrow> bool" where
  "contains flags f \<longleftrightarrow> flags AND f = f"

definition TCGETS :: usize where "TCGETS = 0x5401"
definition TCSETS :: usize where "TCSETS = 0x5402"
definition TCSETSW :: usize where "TCSETSW = 0x5403"
definition TIOCGWINSZ :: usize where "TIOCGWINSZ = 0x5413"
definition TIOCSWINSZ :: usize where "TIOCSWINSZ = 0x5414"
definition TIOCGPGRP :: usize where "TIOCGPGRP = 0x540F"
definition TIOCSPGRP :: usize where "TIOCSPGRP = 0x5410"

definition VINTR :: nat where "VINTR = 0"
definition VQUIT :: nat where "VQUIT = 1"
definition VERASE :: nat where "VERASE = 2"
definition VKILL :: nat where "VKILL = 3"
definition VEOF :: nat where "VEOF = 4"
definition VTIME :: nat where "VTIME = 5"
definition VMIN :: nat where "VMIN = 6"
definition VSUSP :: nat where "VSUSP = 10"
definition NCCS :: nat where "NCCS = 19"

record termios =
  c_iflag :: u32
  c_oflag :: u32
  c_cflag :: u32
  c_lflag :: u32
  c_line :: u8
  c_cc :: "u8 list"

definition default_termios :: termios where
  "default_termios = \<lparr>
     c_iflag = ICRNL, c_oflag = OPOST OR ONLCR, c_cflag = CREAD OR CS8,
     c_lflag = ISIG OR ICANON OR ECHO OR ECHOE OR ECHOK OR ECHONL, c_line = 0,
     c_cc = (replicate NCCS 0)[VINTR := 3, VQUIT := 28, VERASE := 127, VKILL := 21, VEOF := 4,
              VMIN := 1, VTIME := 0, VSUSP := 26]\<rparr>"

record tty_metadata =
  winsz :: win_size
  tm_termios :: termios
  fg_pg :: "u32 option"

definition default_tty_metadata :: tty_metadata where
  "default_tty_metadata = \<lparr>winsz = default_win_size, tm_termios = default_termios, fg_pg = None\<rparr>"

section \<open>The line discipline\<close>

datatype console_write = WriteBuf "u8 list" | WriteChar u8

text \<open>\<open>line_cap\<close> is the capacity of the vector \<open>line_buf\<close>, which \<open>Vec::push\<close> doubles when it is full.\<close>

record ('b, 'w) tty =
  cooked_buf :: "('b, 'w) kbuf_inner"
  eof_pending :: "(bool, 'w) cond_var"
  line_buf :: "u8 list"
  line_cap :: nat
  console :: "console_write list"
  tt_meta :: tty_metadata

definition new_tty :: "'b outcome \<Rightarrow> ('b, 'w) tty outcome" where
  "new_tty kpipe = and_then kpipe (\<lambda>rb.
     Ok \<lparr>cooked_buf = new_kbuf rb, eof_pending = new_cond_var False, line_buf = [], line_cap = 1024,
         console = [], tt_meta = default_tty_metadata\<rparr>)"

definition write_buf :: "u8 list \<Rightarrow> ('b, 'w) tty \<Rightarrow> ('b, 'w) tty" where
  "write_buf xs t = t\<lparr>console := console t @ [WriteBuf xs]\<rparr>"

definition line_push :: "u8 \<Rightarrow> ('b, 'w) tty \<Rightarrow> ('b, 'w) tty" where
  "line_push b t = t\<lparr>line_buf := line_buf t @ [b],
     line_cap := (if length (line_buf t) = line_cap t then 2 * line_cap t else line_cap t)\<rparr>"

definition flush_line :: "('b, u8) rb_ops \<Rightarrow> ('b, 'w) tty \<Rightarrow> ('b, 'w) tty" where
  "flush_line R t = t\<lparr>cooked_buf := snd (try_push_slice R (line_buf t) (cooked_buf t)), line_buf := []\<rparr>"

definition ERASE_SEQ :: "u8 list" where "ERASE_SEQ = [8, 32, 8]"

text \<open>The \<open>while\<close> loop of the kill character, by the number of bytes left in the line.\<close>

primrec kill_line :: "nat \<Rightarrow> ('b, 'w) tty \<Rightarrow> ('b, 'w) tty" where
  "kill_line 0 t = t"
| "kill_line (Suc n) t =
     (let t1 = t\<lparr>line_buf := butlast (line_buf t)\<rparr>
      in kill_line n (if contains (c_lflag (tm_termios (tt_meta t))) ECHOE then write_buf ERASE_SEQ t1 else t1))"

text \<open>The array of control characters has \<open>NCCS\<close> elements; the padding makes the lookup total.\<close>

definition cc :: "('b, 'w) tty \<Rightarrow> nat \<Rightarrow> u8" where
  "cc t i = (c_cc (tm_termios (tt_meta t)) @ replicate NCCS 0) ! i"

definition push_byte :: "('b, u8) rb_ops \<Rightarrow> u8 \<Rightarrow> ('b, 'w) tty \<Rightarrow> ('b, 'w) tty" where
  "push_byte R byte t =
     (let lflag = c_lflag (tm_termios (tt_meta t)) in
      if \<not> contains lflag ICANON then
        (case try_push R byte (cooked_buf t) of
           (None, k) \<Rightarrow>
             let t1 = t\<lparr>cooked_buf := k\<rparr> in if contains lflag ECHO then write_buf [byte] t1 else t1
         | (Some _, k) \<Rightarrow> t\<lparr>cooked_buf := k\<rparr>)
      else if byte = 10 \<or> byte = 13 then
        flush_line R (line_push 10 (if contains lflag ECHO then write_buf [13, 10] t else t))
      else if byte = cc t VERASE then
        (if line_buf t = [] then t
         else let t1 = t\<lparr>line_buf := butlast (line_buf t)\<rparr>
              in if contains lflag ECHOE then write_buf ERASE_SEQ t1 else t1)
      else if byte = cc t VKILL then kill_line (length (line_buf t)) t
      else if byte = cc t VEOF then
        (if line_buf t = [] then t\<lparr>eof_pending := snd (cv_update (\<lambda>_. (WakeOne, True)) (eof_pending t))\<rparr>
         else flush_line R t)
      else if length (line_buf t) < line_cap t then
        let t1 = line_push byte t in if contains lflag ECHO then write_buf [byte] t1 else t1
      else t)"

section \<open>File operations\<close>

definition process_and_write_chunk :: "u8 list \<Rightarrow> ('b, 'w) tty \<Rightarrow> ('b, 'w) tty" where
  "process_and_write_chunk chunk t =
     (let oflag = c_oflag (tm_termios (tt_meta t)) in
      if \<not> contains oflag OPOST then write_buf chunk t
      else t\<lparr>console := console t @ concat (map (\<lambda>byte.
               if contains oflag ONLCR \<and> byte = 10 then [WriteChar 13, WriteChar 10]
               else [WriteChar byte]) chunk)\<rparr>)"

text \<open>
  One poll of \<open>read\<close>: \<open>select\<close> polls the copy first, then the end-of-file flag, which it consumes. \<open>env\<close> is what
  other processors and the input interrupt do between the two.
\<close>

definition tty_read ::
  "(('b, 'w) tty \<times> 'u \<Rightarrow> ('b, 'w) tty \<times> 'u) \<Rightarrow> ('b, u8) rb_ops \<Rightarrow> 'u user_write \<Rightarrow> usize \<Rightarrow> usize \<Rightarrow> 'w \<Rightarrow>
   read_fut \<Rightarrow> u64 option \<Rightarrow> ('b, 'w) tty \<times> 'u \<Rightarrow>
   usize outcome option \<times> (read_fut \<times> u64 option) \<times> ('b, 'w) tty \<times> 'u" where
  "tty_read env R cp usr_buf count waker fut eof_token s =
     (case copy_to_user R cp usr_buf count waker fut (cooked_buf (fst s)) (snd s) of
        (Some r, fut1, k, u) \<Rightarrow>
          (Some r, (fut1, None), (fst s)\<lparr>cooked_buf := k,
             eof_pending := wait_drop on_wakers eof_token (eof_pending (fst s))\<rparr>, u)
      | (None, fut1, k, u) \<Rightarrow>
          (case env ((fst s)\<lparr>cooked_buf := k\<rparr>, u) of (t, u1) \<Rightarrow>
            (case cv_wait_until (\<lambda>st. (if st then Some () else None, False)) waker eof_token (eof_pending t) of
               (Some _, token1, cv) \<Rightarrow>
                 (Some (Ok 0), (fut1, None), t\<lparr>
                    cooked_buf := (case fut1 of ReadPop tk \<Rightarrow> wait_drop on_readers tk (cooked_buf t)
                                   | ReadCopy _ _ \<Rightarrow> cooked_buf t),
                    eof_pending := wait_drop on_wakers token1 cv\<rparr>, u1)
             | (None, token1, cv) \<Rightarrow> (None, (fut1, token1), t\<lparr>eof_pending := cv\<rparr>, u1))))"

text \<open>One poll of \<open>poll_read_ready\<close>, whose predicate leaves the end-of-file flag as it is.\<close>

definition tty_poll_read_ready ::
  "(('b, 'w) tty \<Rightarrow> ('b, 'w) tty) \<Rightarrow> ('b, u8) rb_ops \<Rightarrow> 'w \<Rightarrow> u64 option \<Rightarrow> u64 option \<Rightarrow> ('b, 'w) tty \<Rightarrow>
   unit outcome option \<times> (u64 option \<times> u64 option) \<times> ('b, 'w) tty" where
  "tty_poll_read_ready env R waker read_token eof_token t =
     (case read_ready R waker read_token (cooked_buf t) of
        (Some _, token1, k) \<Rightarrow>
          (Some (Ok ()), (None, None), t\<lparr>cooked_buf := wait_drop on_readers token1 k,
             eof_pending := wait_drop on_wakers eof_token (eof_pending t)\<rparr>)
      | (None, token1, k) \<Rightarrow>
          (let t1 = env (t\<lparr>cooked_buf := k\<rparr>) in
           case cv_wait_until (\<lambda>st. (if st then Some () else None, st)) waker eof_token (eof_pending t1) of
             (Some _, token2, cv) \<Rightarrow>
               (Some (Ok ()), (None, None), t1\<lparr>cooked_buf := wait_drop on_readers token1 (cooked_buf t1),
                  eof_pending := wait_drop on_wakers token2 cv\<rparr>)
           | (None, token2, cv) \<Rightarrow> (None, (token1, token2), t1\<lparr>eof_pending := cv\<rparr>)))"

definition CHUNK_SZ :: usize where "CHUNK_SZ = 128"

function tty_write_loop ::
  "(usize \<Rightarrow> nat \<Rightarrow> u8 list outcome) \<Rightarrow> usize \<Rightarrow> usize \<Rightarrow> usize \<Rightarrow> ('b, 'w) tty \<Rightarrow> usize outcome \<times> ('b, 'w) tty" where
  "tty_write_loop cp ptr remaining total_written t =
     (if remaining > 0 then
        let chunk_size = min remaining CHUNK_SZ in
        st_then (cp ptr (unat chunk_size), t) (\<lambda>raw_slice t.
          tty_write_loop cp (ptr + chunk_size) (remaining - chunk_size) (total_written + chunk_size)
            (process_and_write_chunk raw_slice t))
      else (Ok total_written, t))"
  by pat_completeness auto
termination
proof (relation "measure (\<lambda>(cp, ptr, remaining, total, t). unat remaining)", goal_cases)
  case 1 show ?case by simp
next
  case (2 cp ptr remaining total t chunk_size raw_slice)
  have "0 < unat chunk_size" "chunk_size \<le> remaining"
    using 2 by (auto simp: CHUNK_SZ_def min_def unat_gt_0 word_gt_0)
  then show ?case by (simp add: unat_sub word_le_nat_alt)
qed

definition tty_write ::
  "(usize \<Rightarrow> nat \<Rightarrow> u8 list outcome) \<Rightarrow> usize \<Rightarrow> usize \<Rightarrow> ('b, 'w) tty \<Rightarrow> usize outcome \<times> ('b, 'w) tty" where
  "tty_write cp ptr count t = tty_write_loop cp ptr count 0 t"

datatype ioctl_value = IoWinSize win_size | IoPgid u32 | IoTermios termios

definition tty_ioctl ::
  "(usize \<Rightarrow> ioctl_value \<Rightarrow> unit outcome) \<Rightarrow> (usize \<Rightarrow> win_size outcome) \<Rightarrow> (usize \<Rightarrow> u32 outcome) \<Rightarrow>
   (usize \<Rightarrow> termios outcome) \<Rightarrow> u32 \<Rightarrow> usize \<Rightarrow> usize \<Rightarrow> tty_metadata \<Rightarrow> usize outcome \<times> tty_metadata" where
  "tty_ioctl cp_out cp_win cp_pgid cp_termios current_pgid request argp m =
     (if request = TIOCGWINSZ then
        st_then (cp_out argp (IoWinSize (winsz m)), m) (\<lambda>_ m. (Ok 0, m))
      else if request = TIOCSWINSZ then
        st_then (cp_win argp, m) (\<lambda>obj m. (Ok 0, m\<lparr>winsz := obj\<rparr>))
      else if request = TIOCGPGRP then
        st_then (cp_out argp (IoPgid (case fg_pg m of Some p \<Rightarrow> p | None \<Rightarrow> current_pgid)), m) (\<lambda>_ m. (Ok 0, m))
      else if request = TIOCSPGRP then
        st_then (cp_pgid argp, m) (\<lambda>pgid m. (Ok 0, m\<lparr>fg_pg := Some pgid\<rparr>))
      else if request = TCGETS then
        st_then (cp_out argp (IoTermios (tm_termios m)), m) (\<lambda>_ m. (Ok 0, m))
      else if request = TCSETS \<or> request = TCSETSW then
        st_then (cp_termios argp, m) (\<lambda>new_termios m. (Ok 0, m\<lparr>tm_termios := new_termios\<rparr>))
      else (Err NotATty, m))"

text \<open>
  One iteration of the loop of \<open>splice_from\<close>, from a buffer to the terminal. The state is the
  remaining count, the total and the token of the pending \<open>pop_slice\<close>; the result is \<open>None\<close> while the
  splice goes on.
\<close>

definition tty_splice_step ::
  "('b, u8) rb_ops \<Rightarrow> 'w \<Rightarrow> usize \<times> usize \<times> u64 option \<Rightarrow> ('b, 'w) tty \<times> ('b, 'w) kbuf_inner \<Rightarrow>
   usize outcome option \<times> (usize \<times> usize \<times> u64 option) \<times> ('b, 'w) tty \<times> ('b, 'w) kbuf_inner" where
  "tty_splice_step R waker st s =
     (let (count, total, token) = st; (t, k) = s in
      if count = 0 then (Some (Ok total), st, s)
      else case pop_slice R 32 waker token k of
        (None, token', k1) \<Rightarrow> (None, (count, total, token'), t, k1)
      | (Some xs, token', k1) \<Rightarrow>
          if xs = [] then (Some (Ok total), (count, total, None), t, wait_drop on_readers token' k1)
          else (None, (count - of_nat (length xs), total + of_nat (length xs), None),
           process_and_write_chunk xs t, wait_drop on_readers token' k1))"

section \<open>Canonical input\<close>

text \<open>What a line editor does with one key: erase, kill, or append while the line has room.\<close>

definition edit_key :: "u8 \<Rightarrow> u8 \<Rightarrow> nat \<Rightarrow> u8 list \<Rightarrow> u8 \<Rightarrow> u8 list" where
  "edit_key erase_char kill_char room line b =
     (if b = erase_char then butlast line else if b = kill_char then []
      else if length line < room then line @ [b] else line)"

lemma write_buf_frame [simp]:
  "cooked_buf (write_buf xs t) = cooked_buf t" "line_buf (write_buf xs t) = line_buf t"
  "line_cap (write_buf xs t) = line_cap t" "tt_meta (write_buf xs t) = tt_meta t"
  "eof_pending (write_buf xs t) = eof_pending t"
  by (simp_all add: write_buf_def)

lemma kill_line_frame:
  "cooked_buf (kill_line n t) = cooked_buf t \<and> line_cap (kill_line n t) = line_cap t \<and>
   tt_meta (kill_line n t) = tt_meta t \<and> eof_pending (kill_line n t) = eof_pending t \<and>
   line_buf (kill_line n t) = take (length (line_buf t) - n) (line_buf t)"
  by (induction n arbitrary: t) (auto simp: Let_def butlast_conv_take min_def)

lemma push_byte_edits:
  assumes "contains (c_lflag (tm_termios (tt_meta t))) ICANON" and "b \<notin> {10, 13}" and "b \<noteq> cc t VEOF"
  shows "line_buf (push_byte R b t) = edit_key (cc t VERASE) (cc t VKILL) (line_cap t) (line_buf t) b \<and>
    cooked_buf (push_byte R b t) = cooked_buf t \<and> line_cap (push_byte R b t) = line_cap t \<and>
    tt_meta (push_byte R b t) = tt_meta t \<and> eof_pending (push_byte R b t) = eof_pending t"
  using assms
  by (auto simp: push_byte_def edit_key_def Let_def line_push_def kill_line_frame)

lemma push_bytes_edit:
  assumes "contains (c_lflag (tm_termios (tt_meta t))) ICANON" and "\<forall>b \<in> set bs. b \<notin> {10, 13, cc t VEOF}"
  shows "line_buf (foldl (\<lambda>t b. push_byte R b t) t bs) =
      foldl (edit_key (cc t VERASE) (cc t VKILL) (line_cap t)) (line_buf t) bs \<and>
    cooked_buf (foldl (\<lambda>t b. push_byte R b t) t bs) = cooked_buf t \<and>
    tt_meta (foldl (\<lambda>t b. push_byte R b t) t bs) = tt_meta t \<and>
    eof_pending (foldl (\<lambda>t b. push_byte R b t) t bs) = eof_pending t"
  using assms
proof (induction bs arbitrary: t)
  case (Cons b bs)
  note e = push_byte_edits [of t b R]
  have "cc (push_byte R b t) i = cc t i" for i using e Cons.prems by (simp add: cc_def)
  then show ?case using Cons.IH [of "push_byte R b t"] Cons.prems e by simp
qed simp

context ring_buffer
begin

lemma try_push_slice_contents:
  assumes "ok (kb_ring k)"
  shows "contents (kb_ring (snd (try_push_slice R xs k))) =
    contents (kb_ring k) @ take (cap (kb_ring k) - length (contents (kb_ring k))) xs"
proof -
  obtain n b where b: "rb_push_slice R xs (kb_ring k) = (n, b)" by fastforce
  have n: "n = min (length xs) (cap (kb_ring k) - length (contents (kb_ring k)))"
    and c: "contents b = contents (kb_ring k) @ take n xs"
    using push_slice [OF assms b] by auto
  have "take n xs = take (cap (kb_ring k) - length (contents (kb_ring k))) xs" unfolding n by (simp add: min_def)
  moreover have "kb_ring (snd (try_push_slice R xs k)) = b" by (simp add: try_push_slice_def b Let_def)
  ultimately show ?thesis using c by simp
qed

end

text \<open>C20.  The terminal in canonical mode refines a line editor. Bytes that are neither a line terminator nor the
  end-of-file character are collected and edited by the erase and kill characters, and nothing
  reaches the readers meanwhile. A line terminator releases the line with a newline at its end. The
  end-of-file character, if it is neither the erase nor the kill character, releases the line as it is, and on an
  empty line sets the end-of-file flag instead. A released line reaches the readers as far as the
  buffer has room; the rest of it is dropped. The next line starts empty.\<close>

theorem tty_line_discipline:
  assumes "ring_buffer R ok contents cap" and "ok (kb_ring (cooked_buf t))"
    and "contains (c_lflag (tm_termios (tt_meta t))) ICANON" and "line_buf t = []"
    and "\<forall>b \<in> set bs. b \<notin> {10, 13, cc t VEOF}"
    and "key \<in> {10, 13} \<or> key = cc t VEOF \<and> key \<notin> {cc t VERASE, cc t VKILL}"
    and "t1 = foldl (\<lambda>t b. push_byte R b t) t bs" and "t' = push_byte R key t1"
    and "line = foldl (edit_key (cc t VERASE) (cc t VKILL) (line_cap t)) [] bs"
  shows "cooked_buf t1 = cooked_buf t \<and> line_buf t' = [] \<and>
    contents (kb_ring (cooked_buf t')) = contents (kb_ring (cooked_buf t)) @
      take (cap (kb_ring (cooked_buf t)) - length (contents (kb_ring (cooked_buf t))))
        (if key \<in> {10, 13} then line @ [10] else line) \<and>
    cv_state (eof_pending t') = (cv_state (eof_pending t) \<or> key \<notin> {10, 13} \<and> line = [])"
proof -
  note e = push_bytes_edit [OF assms(3,5), of R, folded assms(7)]
  have cc: "cc t1 i = cc t i" for i using e by (simp add: cc_def)
  have ln: "line_buf t1 = line" using e assms(4,9) by simp
  have "line_buf t' = [] \<and> cv_state (eof_pending t') = (cv_state (eof_pending t) \<or> key \<notin> {10, 13} \<and> line = []) \<and>
      (if key \<notin> {10, 13} \<and> line = [] then cooked_buf t' = cooked_buf t
       else cooked_buf t' = snd (try_push_slice R (if key \<in> {10, 13} then line @ [10] else line) (cooked_buf t)))"
    unfolding assms(8) using e assms(3,6)
    by (auto simp: push_byte_def Let_def flush_line_def line_push_def cc ln cv_update_def split: prod.split)
  then show ?thesis using e ring_buffer.try_push_slice_contents [OF assms(1,2)] by (auto split: if_splits)
qed

text \<open>A line typed with a correction: \<open>a\<close>, \<open>x\<close>, delete, \<open>b\<close>, return.\<close>

definition demo_tty :: "(u8 ring, nat) tty" where
  "demo_tty = \<lparr>cooked_buf = new_kbuf (new_ring 8), eof_pending = new_cond_var False, line_buf = [],
     line_cap = 1024, console = [], tt_meta = default_tty_metadata\<rparr>"

lemma tty_line_discipline_witness:
  "ring_contents (kb_ring (cooked_buf (push_byte shared_rb_ops 13
     (foldl (\<lambda>t b. push_byte shared_rb_ops b t) demo_tty [97, 120, 127, 98])))) = [97, 98, 10] \<and>
   ring_contents (kb_ring (cooked_buf (push_byte shared_rb_ops 4
     (foldl (\<lambda>t b. push_byte shared_rb_ops b t) demo_tty [97, 120, 127, 98])))) = [97, 98]"
proof -
  have k: "ring_ok (kb_ring (cooked_buf demo_tty))" "ring_contents (kb_ring (cooked_buf demo_tty)) = []"
    "ring_cap (kb_ring (cooked_buf demo_tty)) = 8"
    by (simp_all add: demo_tty_def new_kbuf_def new_ring_ok) (simp add: ring_cap_def new_ring_def)
  have f: "contains (c_lflag (tm_termios (tt_meta demo_tty))) ICANON" "line_buf demo_tty = []"
    "cc demo_tty VEOF = 4" "cc demo_tty VERASE = 127" "cc demo_tty VKILL = 21" "line_cap demo_tty = 1024"
    by code_simp+
  note d = tty_line_discipline [OF shared_rb.ring_buffer_axioms k(1) f(1,2) _ _ refl refl refl, of "[97, 120, 127, 98]"]
  show ?thesis using d [of 13] d [of 4] by (simp add: f(3-6) k(2,3) edit_key_def)
qed

section \<open>Splicing to a terminal\<close>

text \<open>
  The loop of \<open>splice_from\<close> pops up to 32 bytes whatever count remains and subtracts what it got. With
  one byte to go and two in the buffer the remaining count wraps around to the largest \<open>usize\<close>, so the
  loop does not return what it moved and waits for more.
\<close>

lemma tty_splice_overruns:
  assumes "ring_buffer R ok contents cap" and "ok (kb_ring k)" and "contents (kb_ring k) = [x, y]"
  shows "\<exists>t' k'. tty_splice_step R w (1, 0, None) (t, k) = (None, (- 1, 2, None), t', k')"
proof -
  obtain b where "rb_pop_slice R 32 (kb_ring k) = ([x, y], b)"
    using ring_buffer.pop_slice [OF assms(1,2)] assms(3) by (cases "rb_pop_slice R 32 (kb_ring k)") fastforce
  then show ?thesis
    by (simp add: tty_splice_step_def pop_slice_def wait_poll_def)
qed

end
