(* ===== verification/Path.thy ===== *)
theory Path
  imports Prelude
begin

text \<open>
  Paths (\<open>libkernel/src/fs/path.rs\<close>, \<open>pathbuf.rs\<close>). A \<open>str\<close> is the list of its UTF-8 bytes; the code
  looks at the bytes of a path only to find slashes and dots, and slicing a \<open>str\<close> panics when the
  cut is not at the start of a character. The components of a path are shown to be the non-empty
  parts between slashes other than the dot, and to be kept by joining.
\<close>

section \<open>Definitions\<close>

type_synonym path = "u8 list"

abbreviation slash :: u8 where "slash \<equiv> 47"

definition is_absolute :: "path \<Rightarrow> bool" where
  "is_absolute p \<longleftrightarrow> (case p of b # _ \<Rightarrow> b = slash | [] \<Rightarrow> False)"

definition is_relative :: "path \<Rightarrow> bool" where
  "is_relative p \<longleftrightarrow> \<not> is_absolute p"

definition ends_with_slash :: "path \<Rightarrow> bool" where
  "ends_with_slash p \<longleftrightarrow> p \<noteq> [] \<and> last p = slash"

text \<open>\<open>Components::next\<close>: the component found and the remaining path.\<close>

function comp_next :: "path \<Rightarrow> path option \<times> path" where
  "comp_next remaining =
     (let r = dropWhile (\<lambda>b. b = slash) remaining in
      if r = [] then (None, r)
      else let component = takeWhile (\<lambda>b. b \<noteq> slash) r; rest = dropWhile (\<lambda>b. b \<noteq> slash) r
           in if component = [46] then comp_next rest else (Some component, rest))"
  by pat_completeness auto
termination
proof (relation "measure length", goal_cases)
  case 1 show ?case by simp
next
  case (2 remaining r component rest)
  have "length r \<le> length remaining" unfolding 2(1) by (rule length_dropWhile_le)
  moreover have "length r = length component + length rest"
    unfolding 2(3,4) length_append [symmetric] by simp
  ultimately show ?case using 2(5) by simp
qed

declare comp_next.simps [simp del]

lemma comp_next_cases:
  fixes p
  defines "r \<equiv> dropWhile (\<lambda>b. b = slash) p"
  defines "c \<equiv> takeWhile (\<lambda>b. b \<noteq> slash) r" and "t \<equiv> dropWhile (\<lambda>b. b \<noteq> slash) r"
  shows "r = [] \<Longrightarrow> comp_next p = (None, [])"
    and "r \<noteq> [] \<Longrightarrow> c = [46] \<Longrightarrow> comp_next p = comp_next t"
    and "r \<noteq> [] \<Longrightarrow> c \<noteq> [46] \<Longrightarrow> comp_next p = (Some c, t)"
    and "r \<noteq> [] \<Longrightarrow> c \<noteq> [] \<and> length t < length p"
proof -
  assume r: "r \<noteq> []"
  have c: "c \<noteq> []" using r hd_dropWhile [of "\<lambda>b. b = slash" p] unfolding c_def r_def
    by (cases "dropWhile (\<lambda>b. b = slash) p") auto
  have "length r = length c + length t" unfolding c_def t_def length_append [symmetric] by simp
  moreover have "length r \<le> length p" unfolding r_def by (rule length_dropWhile_le)
  ultimately show "c \<noteq> [] \<and> length t < length p" using c by (cases c) auto
qed (simp_all add: comp_next.simps [of p] r_def c_def t_def Let_def del: dropWhile_eq_Nil_conv)

lemma comp_next_shorter: "comp_next p = (Some c, rest) \<Longrightarrow> length rest < length p"
proof (induction "length p" arbitrary: p rule: less_induct)
  case less
  let ?r = "dropWhile (\<lambda>b. b = slash) p"
  let ?c = "takeWhile (\<lambda>b. b \<noteq> slash) ?r" and ?t = "dropWhile (\<lambda>b. b \<noteq> slash) ?r"
  have r: "?r \<noteq> []" using less.prems comp_next_cases(1) [of p] by auto
  show ?case
    using less.prems less.hyps [of ?t] comp_next_cases(2-4) [OF r] by (cases "?c = [46]") auto
qed

function components :: "path \<Rightarrow> path list" where
  "components p = (case comp_next p of (Some c, rest) \<Rightarrow> c # components rest | (None, _) \<Rightarrow> [])"
  by pat_completeness auto
termination
  by (relation "measure length") (auto dest: comp_next_shorter [OF sym])

declare components.simps [simp del]

text \<open>\<open>PathBuf::push\<close> and \<open>Path::join\<close>.\<close>

definition path_push :: "path \<Rightarrow> path \<Rightarrow> path" where
  "path_push self p =
     (if is_absolute p then p
      else (if self \<noteq> [] \<and> \<not> ends_with_slash self then self @ [slash] else self) @ p)"

definition path_join :: "path \<Rightarrow> path \<Rightarrow> path" where
  "path_join self other = path_push (path_push [] self) other"

text \<open>A cut of a \<open>str\<close> before byte \<open>i\<close>; the bytes \<open>0x80..0xBF\<close> continue a character.\<close>

definition is_char_boundary :: "path \<Rightarrow> nat \<Rightarrow> bool" where
  "is_char_boundary p i \<longleftrightarrow> i = length p \<or> i < length p \<and> (p ! i) AND 0xC0 \<noteq> 0x80"

definition slice_to :: "path \<Rightarrow> nat \<Rightarrow> path outcome" where
  "slice_to p i = (if is_char_boundary p i then Ok (take i p) else Panic)"

definition strip_prefix :: "path \<Rightarrow> path \<Rightarrow> path option" where
  "strip_prefix self base =
     (if take (length base) self = base then
        if length base = length self then Some []
        else if self ! length base = slash then
          let stripped = drop (length base) self
          in if ends_with_slash base then Some stripped else Some (drop 1 stripped)
        else None
      else None)"

definition path_parent :: "path \<Rightarrow> path option outcome" where
  "path_parent p =
     (let cs = components p in
      if length cs \<le> 1 then Ok None
      else
        let cs' = butlast cs;
            parent_len = sum_list (map length cs') + length cs' - 1;
            e = (if is_absolute p then parent_len + 1 else parent_len)
        in and_then (slice_to p e) (\<lambda>q. Ok (Some q)))"

definition file_name :: "path \<Rightarrow> path option" where
  "file_name p = (if components p = [] then None else Some (last (components p)))"

text \<open>\<open>PathBuf::pop\<close>: whether the path was cut, and the path.\<close>

definition path_pop :: "path \<Rightarrow> (bool \<times> path) outcome" where
  "path_pop p =
     and_then (path_parent p) (\<lambda>q.
       case q of Some parent \<Rightarrow> Ok (True, take (length parent) p) | None \<Rightarrow> Ok (False, p))"

definition set_file_name :: "path \<Rightarrow> path \<Rightarrow> path outcome" where
  "set_file_name p name =
     and_then (if file_name p \<noteq> None then and_then (path_pop p) (\<lambda>r. Ok (snd r)) else Ok p) (\<lambda>q.
       Ok (path_push q name))"

section \<open>Components as parts between slashes\<close>

fun split_slash :: "path \<Rightarrow> path list" where
  "split_slash [] = [[]]"
| "split_slash (b # p) =
     (if b = slash then [] # split_slash p
      else case split_slash p of c # cs \<Rightarrow> (b # c) # cs | [] \<Rightarrow> [[b]])"

definition named :: "path \<Rightarrow> bool" where
  "named c \<longleftrightarrow> c \<noteq> [] \<and> c \<noteq> [46]"

lemma split_slash_takeWhile:
  "split_slash p = takeWhile (\<lambda>b. b \<noteq> slash) p #
     (case dropWhile (\<lambda>b. b \<noteq> slash) p of [] \<Rightarrow> [] | _ # q \<Rightarrow> split_slash q)"
  by (induction p) auto

lemma split_slash_dropWhile:
  "filter named (split_slash (dropWhile (\<lambda>b. b = slash) p)) = filter named (split_slash p)"
  by (induction p) (auto simp: named_def)

lemma components_split: "components p = filter named (split_slash p)"
proof (induction "length p" arbitrary: p rule: less_induct)
  case less
  let ?r = "dropWhile (\<lambda>b. b = slash) p"
  let ?c = "takeWhile (\<lambda>b. b \<noteq> slash) ?r" and ?t = "dropWhile (\<lambda>b. b \<noteq> slash) ?r"
  show ?case
  proof (cases "?r = []")
    case True
    then show ?thesis
      using split_slash_dropWhile [of p, unfolded True] comp_next_cases(1) [OF True] by (simp add: components.simps [of p] named_def)
  next
    case r: False
    note n = comp_next_cases(2-4) [OF r]
    have t: "filter named (case ?t of [] \<Rightarrow> [] | _ # q \<Rightarrow> split_slash q) = filter named (split_slash ?t)"
    proof (cases ?t)
      case Nil
      show ?thesis unfolding Nil by (simp add: named_def)
    next
      case (Cons b q)
      then have "b = slash" using hd_dropWhile [of "\<lambda>b. b \<noteq> slash" ?r] by simp
      then show ?thesis using Cons by (simp add: named_def)
    qed
    have "filter named (split_slash p) = filter named (split_slash ?r)" by (rule split_slash_dropWhile [symmetric])
    also have "\<dots> = (if named ?c then [?c] else []) @ filter named (split_slash ?t)"
      unfolding split_slash_takeWhile [of ?r] t [symmetric] by simp
    finally have s: "filter named (split_slash p) = (if named ?c then [?c] else []) @ filter named (split_slash ?t)" .
    have ih: "components ?t = filter named (split_slash ?t)" by (rule less.hyps [OF conjunct2 [OF n(3)]])
    show ?thesis
    proof (cases "?c = [46]")
      case True
      have "components p = components ?t"
        unfolding components.simps [of p] components.simps [of ?t] n(1) [OF True] by (rule refl)
      then show ?thesis using s ih True by (simp add: named_def)
    next
      case False
      have "components p = ?c # components ?t"
        unfolding components.simps [of p] n(2) [OF False] by simp
      then show ?thesis using s ih False n(3) by (simp add: named_def)
    qed
  qed
qed

lemma split_slash_Cons: "\<exists>c cs. split_slash p = c # cs"
  by (induction p) (auto split: list.split)

lemma split_slash_append_slash: "split_slash (p @ slash # q) = split_slash p @ split_slash q"
proof (induction p)
  case (Cons b p)
  obtain c cs where "split_slash p = c # cs" using split_slash_Cons by blast
  then show ?case using Cons by simp
qed simp

lemma split_slash_no_slash: "slash \<notin> \<Union> (set ` set (split_slash p))"
proof (induction p)
  case (Cons b p)
  obtain c cs where "split_slash p = c # cs" using split_slash_Cons by blast
  then show ?case using Cons by auto
qed simp

definition is_name :: "path \<Rightarrow> bool" where
  "is_name c \<longleftrightarrow> c \<noteq> [] \<and> slash \<notin> set c \<and> c \<noteq> [46]"

text \<open>C40.  What the component iterator yields is always a name: not empty, free of slashes, and not the
  single dot. It yields the parts of the path between slashes in order and drops only empty parts
  and dots.\<close>

theorem components_names:
  "list_all is_name (components p) \<and> components p = filter is_name (split_slash p)"
  using split_slash_no_slash [of p]
  by (auto simp: components_split named_def is_name_def list_all_iff intro!: filter_cong)

text \<open>Joining paths joins their components: a relative path is appended to the base, and an
  absolute one replaces it, however many slashes the two have at the joint.\<close>

lemma components_push:
  "components (path_push p q) = (if is_absolute q then components q else components p @ components q)"
proof (cases "is_absolute q \<or> p = []")
  case True
  then show ?thesis by (auto simp: path_push_def components_split named_def)
next
  case False
  show ?thesis
  proof (cases "ends_with_slash p")
    case True
    then obtain p' where "p = p' @ [slash]" by (metis ends_with_slash_def append_butlast_last_id)
    then show ?thesis
      using False True split_slash_append_slash [of p' q] split_slash_append_slash [of p' "[]"]
      by (simp add: path_push_def components_split named_def)
  next
    case no: False
    then show ?thesis
      using False split_slash_append_slash [of p q] by (simp add: path_push_def components_split)
  qed
qed

section \<open>Parents\<close>

text \<open>
  \<open>Path::parent\<close> computes the length of the parent as if its components were separated by single
  slashes. On \<open>//a//b\<close> the result is \<open>//\<close>, which names the root. On a path with repeated slashes
  before a character of several bytes the cut falls inside the character and the kernel panics:
  \<open>//\<close>, the two bytes of a letter with an accent, \<open>/b\<close>.
\<close>

theorem parent_repeated_slashes:
  "path_parent [47, 47, 97, 47, 47, 98] = Ok (Some [47, 47]) \<and>
   path_parent [47, 47, 0xC3, 0xA9, 47, 98] = Panic"
  by (simp add: path_parent_def components_split named_def slice_to_def is_char_boundary_def
      is_absolute_def and_then_def)

end
