(* ===== verification/Blk.thy ===== *)
theory Blk
  imports Region
begin

text \<open>
  Block devices: the interface \<open>BlockDevice\<close> (\<open>libkernel/src/fs/mod.rs\<close>) as a locale, the ramdisk
  that implements it (\<open>fs/blk/ramdisk.rs\<close>) and the buffer that gives byte access to a device
  (\<open>fs/blk/buffer.rs\<close>). Buffers are byte lists, so the length of a buffer to be filled is a \<open>nat\<close>.
\<close>

section \<open>The interface\<close>

record 'd blk_ops =
  bd_read :: "u64 \<Rightarrow> nat \<Rightarrow> 'd \<Rightarrow> u8 list outcome"
  bd_write :: "u64 \<Rightarrow> u8 list \<Rightarrow> 'd \<Rightarrow> unit outcome \<times> 'd"
  bd_block_size :: usize

text \<open>
  \<open>disk d\<close> is the sequence of bytes on the device. Whole blocks inside it can be read and written.
\<close>

locale block_device =
  fixes B :: "'d blk_ops" and ok :: "'d \<Rightarrow> bool" and disk :: "'d \<Rightarrow> u8 list"
  assumes block_size_pos: "0 < unat (bd_block_size B)"
    and size_bound: "ok d \<Longrightarrow> length (disk d) < 2 ^ 63"
    and read_blocks: "ok d \<Longrightarrow> (unat b + n) * unat (bd_block_size B) \<le> length (disk d) \<Longrightarrow>
      bd_read B b (n * unat (bd_block_size B)) d =
        Ok (take (n * unat (bd_block_size B)) (drop (unat b * unat (bd_block_size B)) (disk d)))"
    and write_blocks: "ok d \<Longrightarrow> (unat b + n) * unat (bd_block_size B) \<le> length (disk d) \<Longrightarrow>
      length xs = n * unat (bd_block_size B) \<Longrightarrow>
      \<exists>d'. bd_write B b xs d = (Ok (), d') \<and> ok d' \<and>
        disk d' = take (unat b * unat (bd_block_size B)) (disk d) @ xs @
                  drop ((unat b + n) * unat (bd_block_size B)) (disk d)"
    and whole_blocks: "ok d \<Longrightarrow> unat (bd_block_size B) dvd length (disk d)"

section \<open>The ramdisk\<close>

definition BLOCK_SIZE :: usize where "BLOCK_SIZE = PAGE_SIZE"

record ramdisk_blk_dev =
  rd_base :: usize
  num_blocks :: u64

text \<open>The state of the device is the ramdisk with the memory of the kernel.\<close>

type_synonym ramdisk = "ramdisk_blk_dev \<times> (usize \<Rightarrow> u8)"

definition new_ramdisk ::
  "('k \<Rightarrow> unit outcome \<times> 'k) \<Rightarrow> region \<Rightarrow> usize \<Rightarrow> 'k \<Rightarrow> ramdisk_blk_dev outcome \<times> 'k" where
  "new_ramdisk map_normal rg base k =
     st_then (map_normal k) (\<lambda>_ k.
       if rg_size rg mod BLOCK_SIZE \<noteq> 0 then (Err InvalidValue, k)
       else (Ok \<lparr>rd_base = base, num_blocks = rg_size rg div BLOCK_SIZE\<rparr>, k))"

definition ramdisk_read :: "u64 \<Rightarrow> nat \<Rightarrow> ramdisk \<Rightarrow> u8 list outcome" where
  "ramdisk_read block_id len d =
     (let num_blocks_to_read = of_nat (len div unat BLOCK_SIZE) :: u64 in
      if block_id + num_blocks_to_read > num_blocks (fst d) then Err (Io IoOutOfBounds)
      else let offset = block_id * BLOCK_SIZE
           in Ok (map (\<lambda>i. snd d (rd_base (fst d) + offset + of_nat i)) [0..<len]))"

definition write_mem :: "usize \<Rightarrow> u8 list \<Rightarrow> (usize \<Rightarrow> u8) \<Rightarrow> (usize \<Rightarrow> u8)" where
  "write_mem a xs m = (\<lambda>x. if unat (x - a) < length xs then xs ! unat (x - a) else m x)"

definition ramdisk_write :: "u64 \<Rightarrow> u8 list \<Rightarrow> ramdisk \<Rightarrow> unit outcome \<times> ramdisk" where
  "ramdisk_write block_id buf d =
     (let num_blocks_to_write = of_nat (length buf div unat BLOCK_SIZE) :: u64 in
      if block_id + num_blocks_to_write > num_blocks (fst d) then (Err (Io IoOutOfBounds), d)
      else let offset = block_id * BLOCK_SIZE
           in (Ok (), (fst d, write_mem (rd_base (fst d) + offset) buf (snd d))))"

definition ramdisk_ops :: "ramdisk blk_ops" where
  "ramdisk_ops = \<lparr>bd_read = ramdisk_read, bd_write = ramdisk_write, bd_block_size = BLOCK_SIZE\<rparr>"

section \<open>The block buffer\<close>

text \<open>\<open>&temp_buf[start..end]\<close>, which panics out of range.\<close>

definition sub_slice :: "nat \<Rightarrow> nat \<Rightarrow> 'a list \<Rightarrow> 'a list outcome" where
  "sub_slice s e xs = (if s \<le> e \<and> e \<le> length xs then Ok (take (e - s) (drop s xs)) else Panic)"

definition blocks_of :: "'d blk_ops \<Rightarrow> u64 \<Rightarrow> nat \<Rightarrow> u64 \<times> nat" where
  "blocks_of B offset len =
     (let start_block = offset div bd_block_size B;
          end_offset = offset + of_nat len;
          end_block = (end_offset - 1) div bd_block_size B;
          num_blocks_to_read = end_block - start_block + 1
      in (start_block, unat (num_blocks_to_read * bd_block_size B)))"

definition bb_read_at :: "'d blk_ops \<Rightarrow> u64 \<Rightarrow> nat \<Rightarrow> 'd \<Rightarrow> u8 list outcome" where
  "bb_read_at B offset len d =
     (if len = 0 then Ok []
      else let (start_block, temp_len) = blocks_of B offset len
           in and_then (bd_read B start_block temp_len d) (\<lambda>temp_buf.
                let start_in_temp_buf = unat (offset mod bd_block_size B)
                in sub_slice start_in_temp_buf (start_in_temp_buf + len) temp_buf))"

definition bb_write_at :: "'d blk_ops \<Rightarrow> u64 \<Rightarrow> u8 list \<Rightarrow> 'd \<Rightarrow> unit outcome \<times> 'd" where
  "bb_write_at B offset buf d =
     (let len = length buf in
      if len = 0 then (Ok (), d)
      else let (start_block, temp_len) = blocks_of B offset len
           in st_then (bd_read B start_block temp_len d, d) (\<lambda>temp_buf d.
                let s = unat (offset mod bd_block_size B); e = s + len
                in if e \<le> length temp_buf
                   then bd_write B start_block (take s temp_buf @ buf @ drop e temp_buf) d
                   else (Panic, d)))"

section \<open>The ramdisk keeps the contract\<close>

definition ramdisk_ok :: "ramdisk \<Rightarrow> bool" where
  "ramdisk_ok d \<longleftrightarrow> unat (num_blocks (fst d)) < 2 ^ 51"

definition ramdisk_bytes :: "ramdisk \<Rightarrow> u8 list" where
  "ramdisk_bytes d = map (\<lambda>i. snd d (rd_base (fst d) + of_nat i)) [0..<unat (num_blocks (fst d)) * 4096]"

lemma unat_BLOCK_SIZE [simp]: "unat BLOCK_SIZE = 4096"
  by (simp add: BLOCK_SIZE_def)

lemma unat_of_nat_u64: "n < 2 ^ 64 \<Longrightarrow> unat (of_nat n :: u64) = n"
  by (simp add: unsigned_of_nat take_bit_nat_eq_self)

lemma blocks_in_range:
  assumes "ramdisk_ok d" and "(unat b + n) * 4096 \<le> length (ramdisk_bytes d)"
  shows "\<not> b + of_nat n > num_blocks (fst d)" and "b * BLOCK_SIZE = of_nat (unat b * 4096)"
proof -
  have le: "unat b + n \<le> unat (num_blocks (fst d))" and lt: "unat (num_blocks (fst d)) < 2 ^ 51"
    using assms by (auto simp: ramdisk_bytes_def ramdisk_ok_def)
  have "unat (of_nat n :: u64) = n" using le lt by (intro unat_of_nat_u64) simp
  moreover then have "unat (b + of_nat n) = unat b + n" using le lt by (simp add: unat_add_usize)
  ultimately show "\<not> b + of_nat n > num_blocks (fst d)" using le by (simp add: word_less_nat_alt)
  show "b * BLOCK_SIZE = of_nat (unat b * 4096)" by (simp add: BLOCK_SIZE_def PAGE_SIZE_def)
qed

lemma write_mem_at:
  assumes "i < 2 ^ 64" "j + length xs \<le> 2 ^ 64" "j < 2 ^ 64"
  shows "write_mem (a + of_nat j) xs m (a + of_nat i) =
    (if j \<le> i \<and> i < j + length xs then xs ! (i - j) else m (a + of_nat i))"
proof -
  have u: "unat (of_nat i :: usize) = i" "unat (of_nat j :: usize) = j"
    using assms by (auto intro!: unat_of_nat_u64)
  have e: "(a + of_nat i) - (a + of_nat j) = (of_nat i - of_nat j :: usize)" by simp
  show ?thesis
  proof (cases "j \<le> i")
    case True
    then have "unat (of_nat i - of_nat j :: usize) = i - j" using u by (simp add: unat_sub_usize)
    then show ?thesis using True by (auto simp: write_mem_def e)
  next
    case False
    then have "unat (of_nat i - of_nat j :: usize) = 2 ^ 64 + i - j"
      using u unat_sub_if' [of "of_nat i :: usize" "of_nat j"] by simp
    then show ?thesis using False assms by (auto simp: write_mem_def e)
  qed
qed

interpretation ramdisk_dev: block_device ramdisk_ops ramdisk_ok ramdisk_bytes
proof (unfold_locales, goal_cases)
  case 1 show ?case by (simp add: ramdisk_ops_def)
next
  case (2 d) then show ?case by (simp add: ramdisk_bytes_def ramdisk_ok_def)
next
  case (3 d b n)
  then have r: "ramdisk_ok d" "(unat b + n) * 4096 \<le> length (ramdisk_bytes d)" by (simp_all add: ramdisk_ops_def)
  note b = blocks_in_range [OF r]
  have "take (n * 4096) (drop (unat b * 4096) (ramdisk_bytes d)) =
      map (\<lambda>i. snd d (rd_base (fst d) + of_nat (unat b * 4096) + of_nat i)) [0..<n * 4096]"
    using r(2) by (intro nth_equalityI) (auto simp: ramdisk_bytes_def add.assoc)
  then show ?case using b(1) by (simp add: ramdisk_ops_def ramdisk_read_def b(2) Let_def)
next
  case (4 d b n xs)
  then have r: "ramdisk_ok d" "(unat b + n) * 4096 \<le> length (ramdisk_bytes d)" and l: "length xs = n * 4096"
    by (simp_all add: ramdisk_ops_def)
  let ?N = "unat (num_blocks (fst d)) * 4096"
  have N: "?N < 2 ^ 64" "(unat b + n) * 4096 \<le> ?N" using r by (auto simp: ramdisk_ok_def ramdisk_bytes_def)
  let ?d = "(fst d, write_mem (rd_base (fst d) + of_nat (unat b * 4096)) xs (snd d))"
  have "ramdisk_bytes ?d ! i = (take (unat b * 4096) (ramdisk_bytes d) @ xs @ drop ((unat b + n) * 4096) (ramdisk_bytes d)) ! i"
    if i: "i < ?N" for i
    using i N l write_mem_at [of i "unat b * 4096" xs "rd_base (fst d)" "snd d"]
    by (auto simp: ramdisk_bytes_def nth_append min_absorb2)
  then have "ramdisk_bytes ?d = take (unat b * 4096) (ramdisk_bytes d) @ xs @ drop ((unat b + n) * 4096) (ramdisk_bytes d)"
    using N l by (intro nth_equalityI) (auto simp: ramdisk_bytes_def)
  then show ?case using blocks_in_range [OF r] r l
    by (simp add: ramdisk_ops_def ramdisk_write_def Let_def ramdisk_ok_def)
next
  case (5 d) then show ?case by (simp add: ramdisk_ops_def ramdisk_bytes_def)
qed

section \<open>Byte access over blocks\<close>

lemma block_span:
  fixes off len bs total :: nat
  assumes "0 < bs" "0 < len" "off + len \<le> total" "bs dvd total"
  defines "n \<equiv> (off + len - 1) div bs - off div bs + 1"
  shows "(off div bs + n) * bs \<le> total" and "off mod bs + len \<le> n * bs" and "off div bs + n = (off + len - 1) div bs + 1"
proof -
  have m: "off div bs \<le> (off + len - 1) div bs" using assms(2) by (intro div_le_mono) simp
  then show e: "off div bs + n = (off + len - 1) div bs + 1" by (simp add: n_def)
  have "off + len - 1 < total" using assms(2,3) by simp
  then have "(off + len - 1) div bs < total div bs"
    using assms(1,4) by (metis dvd_div_mult_self less_mult_imp_div_less)
  then have "((off + len - 1) div bs + 1) * bs \<le> total div bs * bs" by (intro mult_le_mono1) simp
  then show "(off div bs + n) * bs \<le> total" using assms(4) e by simp
  have "off + len - 1 < ((off + len - 1) div bs + 1) * bs"
    using assms(1) by (metis add.commute dividend_less_times_div mult.commute mult_Suc_right plus_1_eq_Suc)
  then have "off + len \<le> (off div bs + n) * bs" unfolding e by linarith
  moreover have "off = off div bs * bs + off mod bs" by simp
  ultimately show "off mod bs + len \<le> n * bs" by (simp only: add_mult_distrib)
qed

context block_device
begin

abbreviation bs :: nat where "bs \<equiv> unat (bd_block_size B)"

lemma blocks_of_eq:
  assumes d: "ok d" and l: "0 < len" and b: "unat off + len \<le> length (disk d)"
  obtains q n r where "blocks_of B off len = (off div bd_block_size B, n * bs)"
    "unat (off div bd_block_size B) = q" "unat (off mod bd_block_size B) = r" "q * bs + r = unat off"
    "(q + n) * bs \<le> length (disk d)" "r + len \<le> n * bs"
proof -
  define n where "n = (unat off + len - 1) div bs - unat off div bs + 1"
  note S = block_span [OF block_size_pos l b whole_blocks [OF d], folded n_def]
  have D: "length (disk d) < 2 ^ 63" using size_bound [OF d] .
  have u: "unat (off div bd_block_size B) = unat off div bs" "unat (off mod bd_block_size B) = unat off mod bs"
    by (simp_all add: unat_div unat_mod)
  have len: "unat (of_nat len :: u64) = len" using b D by (intro unat_of_nat_u64) simp
  have e: "unat (off + of_nat len) = unat off + len" using b D len by (simp add: unat_add_usize)
  have one: "unat (off + of_nat len - 1) = unat off + len - 1"
    using l e by (simp add: unat_sub_usize)
  have q: "unat ((off + of_nat len - 1) div bd_block_size B) = (unat off + len - 1) div bs"
    by (simp add: unat_div one)
  have m: "unat off div bs \<le> (unat off + len - 1) div bs" using l by (intro div_le_mono) simp
  have nb: "n * bs \<le> length (disk d)" using S(1) by (simp add: add_mult_distrib)
  have "n * 1 \<le> n * bs" using block_size_pos by (intro mult_le_mono2) simp
  then have nn: "n \<le> n * bs" by (simp only: mult_1_right)
  have L: "length (disk d) < 2 ^ 64" using D by simp
  note n = le_less_trans [OF le_trans [OF nn nb] L] le_less_trans [OF nb L]
  have "unat ((off + of_nat len - 1) div bd_block_size B - off div bd_block_size B) = n - 1"
    using q u m by (simp add: unat_sub_usize n_def)
  then have "unat ((off + of_nat len - 1) div bd_block_size B - off div bd_block_size B + 1) = n"
    using n by (subst unat_add_usize) (auto simp: n_def)
  then have "unat (((off + of_nat len - 1) div bd_block_size B - off div bd_block_size B + 1) * bd_block_size B) = n * bs"
    using n(2) by (simp add: unat_mult_lem [THEN iffD1])
  then have "blocks_of B off len = (off div bd_block_size B, n * bs)" by (simp add: blocks_of_def Let_def)
  then show ?thesis using u S(1,2) by (intro that) auto
qed

lemma read_at_bytes:
  assumes d: "ok d" and b: "unat off + len \<le> length (disk d)"
  shows "bb_read_at B off len d = Ok (take len (drop (unat off) (disk d)))"
proof (cases "len = 0")
  case False
  then obtain q n r where E: "blocks_of B off len = (off div bd_block_size B, n * bs)"
    "unat (off div bd_block_size B) = q" "unat (off mod bd_block_size B) = r" "q * bs + r = unat off"
    "(q + n) * bs \<le> length (disk d)" "r + len \<le> n * bs"
    using blocks_of_eq [OF d _ b] by blast
  let ?t = "take (n * bs) (drop (q * bs) (disk d))"
  have t: "bd_read B (off div bd_block_size B) (n * bs) d = Ok ?t"
    using read_blocks [OF d, of "off div bd_block_size B" n] E(2,5) by simp
  have k: "length ?t = n * bs" using E(5) by (simp add: add_mult_distrib)
  have "take len (drop r ?t) = take len (drop (unat off) (disk d))"
    unfolding E(4) [symmetric] using E(6) by (simp add: drop_take min_absorb1 add.commute)
  then show ?thesis
    using False E(1,3,6) t k by (simp add: bb_read_at_def sub_slice_def Let_def)
qed (simp add: bb_read_at_def)

lemma write_at_bytes:
  assumes d: "ok d" and b: "unat off + length buf \<le> length (disk d)"
  shows "\<exists>d'. bb_write_at B off buf d = (Ok (), d') \<and> ok d' \<and>
    disk d' = take (unat off) (disk d) @ buf @ drop (unat off + length buf) (disk d)"
proof (cases "buf = []")
  case False
  then obtain q n r where E: "blocks_of B off (length buf) = (off div bd_block_size B, n * bs)"
    "unat (off div bd_block_size B) = q" "unat (off mod bd_block_size B) = r" "q * bs + r = unat off"
    "(q + n) * bs \<le> length (disk d)" "r + length buf \<le> n * bs"
    using blocks_of_eq [OF d _ b] by blast
  let ?D = "disk d" and ?t = "take (n * bs) (drop (q * bs) (disk d))"
  have t: "bd_read B (off div bd_block_size B) (n * bs) d = Ok ?t"
    using read_blocks [OF d, of "off div bd_block_size B" n] E(2,5) by simp
  have k: "length ?t = n * bs" using E(5) by (simp add: add_mult_distrib)
  let ?x = "take r ?t @ buf @ drop (r + length buf) ?t"
  have x: "length ?x = n * bs" using E(6) k by simp
  obtain d' where w: "bd_write B (off div bd_block_size B) ?x d = (Ok (), d')" "ok d'"
      "disk d' = take (q * bs) ?D @ ?x @ drop ((q + n) * bs) ?D"
    using write_blocks [OF d _ x] E(2,5) by auto
  have h: "take (q * bs) ?D @ take r ?t = take (unat off) ?D"
    unfolding E(4) [symmetric] using E(6) by (simp add: take_add min_absorb1)
  have "(q + n) * bs = unat off + length buf + (n * bs - (r + length buf))"
    using E(4,6) by (simp add: add_mult_distrib)
  then have g: "drop (r + length buf) ?t @ drop ((q + n) * bs) ?D = drop (unat off + length buf) ?D"
    using append_take_drop_id [of "n * bs - (r + length buf)" "drop (unat off + length buf) ?D"]
    unfolding E(4) [symmetric] by (simp add: drop_take ac_simps)
  have "disk d' = take (unat off) ?D @ buf @ drop (unat off + length buf) ?D"
    unfolding w(3) using h g by (metis append.assoc)
  then show ?thesis
    using False E(1,3,6) t k w(1,2) by (auto simp: bb_write_at_def Let_def)
qed (use d in \<open>simp add: bb_write_at_def\<close>)

end

lemma patch_nth:
  assumes "off + length buf \<le> length D" and "a + n \<le> length D"
  shows "take n (drop a (take off D @ buf @ drop (off + length buf) D)) =
    map (\<lambda>i. if off \<le> i \<and> i < off + length buf then buf ! (i - off) else D ! i) [a..<a + n]"
proof -
  define E where "E = take off D @ buf @ drop (off + length buf) D"
  have len: "length E = length D" using assms(1) by (simp add: E_def)
  have "E ! i = (if off \<le> i \<and> i < off + length buf then buf ! (i - off) else D ! i)" if "i < length D" for i
    using that assms(1) less_diff_conv2 [of off i "length buf"]
    by (cases "i < off"; cases "i < off + length buf") (simp_all add: E_def nth_append add.commute)
  then have "take n (drop a E) =
    map (\<lambda>i. if off \<le> i \<and> i < off + length buf then buf ! (i - off) else D ! i) [a..<a + n]"
    using assms(2) len by (intro nth_equalityI) simp_all
  then show ?thesis unfolding E_def .
qed

text \<open>C18.  A write to a ramdisk through the block buffer followed by a read, of ranges on the disk, aligned or not and
  across any number of blocks, returns the bytes written where the two overlap and the earlier
  contents everywhere else.\<close>

theorem ramdisk_write_read:
  assumes "ramdisk_ok d" and "unat off + length buf \<le> length (ramdisk_bytes d)"
    and "unat at' + n \<le> length (ramdisk_bytes d)"
  shows "\<exists>d'. bb_write_at ramdisk_ops off buf d = (Ok (), d') \<and> ramdisk_ok d' \<and>
    bb_read_at ramdisk_ops at' n d' =
      Ok (map (\<lambda>i. if unat off \<le> i \<and> i < unat off + length buf then buf ! (i - unat off)
                   else ramdisk_bytes d ! i) [unat at'..<unat at' + n])"
proof -
  let ?D = "ramdisk_bytes d"
  obtain d' where d': "bb_write_at ramdisk_ops off buf d = (Ok (), d')" "ramdisk_ok d'"
      "ramdisk_bytes d' = take (unat off) ?D @ buf @ drop (unat off + length buf) ?D"
    using ramdisk_dev.write_at_bytes [OF assms(1,2)] by blast
  have len: "length (ramdisk_bytes d') = length ?D" unfolding d'(3) using assms(2) by simp
  have "bb_read_at ramdisk_ops at' n d' = Ok (take n (drop (unat at') (ramdisk_bytes d')))"
    by (rule ramdisk_dev.read_at_bytes [OF d'(2)]) (simp only: len assms(3))
  then show ?thesis
    unfolding d'(3) patch_nth [OF assms(2,3)] using d'(1,2) by blast
qed

text \<open>Two blocks of zeros, three bytes written across the boundary between them and read back with
  their neighbours.\<close>

lemma ramdisk_write_read_witness:
  "\<exists>d'. bb_write_at ramdisk_ops 4095 [1, 2, 3] (\<lparr>rd_base = 0, num_blocks = 2\<rparr>, \<lambda>_. 0) = (Ok (), d') \<and>
    bb_read_at ramdisk_ops 4094 5 d' = Ok [0, 1, 2, 3, 0]"
proof -
  let ?d = "(\<lparr>rd_base = 0, num_blocks = 2\<rparr>, \<lambda>_. 0) :: ramdisk"
  have "ramdisk_bytes (r, \<lambda>_. 0) = replicate (unat (num_blocks r) * 4096) 0" for r
    by (simp add: ramdisk_bytes_def map_replicate_const)
  from this [of "fst ?d"] have b: "ramdisk_bytes ?d = replicate 8192 0" by simp
  have r: "[4094..<4099] = [4094, 4095, 4096, 4097, 4098 :: nat]" by (simp add: upt_rec)
  obtain d' where d': "bb_write_at ramdisk_ops 4095 [1, 2, 3] ?d = (Ok (), d')"
    "bb_read_at ramdisk_ops 4094 5 d' =
      Ok (map (\<lambda>i. if 4095 \<le> i \<and> i < 4098 then [1, 2, 3] ! (i - 4095) else replicate 8192 0 ! i) [4094..<4099])"
    using ramdisk_write_read [of ?d 4095 "[1, 2, 3]" 4094 5] unfolding b by (auto simp: ramdisk_ok_def)
  show ?thesis using d' unfolding r by auto
qed

end
