(* ===== verification/Fat32.thy ===== *)
theory Fat32
  imports Blk
begin

text \<open>
  The FAT32 file system (\<open>libkernel/src/fs/filesystems/fat32\<close>): the BIOS parameter block (\<open>bpb.rs\<close>), the
  allocation table and its cluster chains (\<open>fat.rs\<close>), the file system (\<open>mod.rs\<close>) and reading a file
  along its chain (\<open>reader.rs\<close>, \<open>file.rs\<close>). Sector and cluster numbers are \<open>u32\<close> and wrap. A chain is an
  iterator that may never end; \<open>chain_take n\<close> is its first \<open>n\<close> items.
\<close>

section \<open>The parameter block\<close>

type_synonym u16 = "16 word"
type_synonym sector = u32
type_synonym cluster = u32

definition cluster_from_high_low :: "u16 \<Rightarrow> u16 \<Rightarrow> cluster" where
  "cluster_from_high_low clust_high clust_low = push_bit 16 (ucast clust_high) OR ucast clust_low"

definition cluster_is_valid :: "cluster \<Rightarrow> bool" where
  "cluster_is_valid c \<longleftrightarrow> c \<ge> 2"

definition sectors_until :: "sector \<Rightarrow> sector \<Rightarrow> sector list" where
  "sectors_until a b = map of_nat [unat a..<unat b]"

text \<open>\<open>from_le_bytes\<close>.\<close>

fun le_nat :: "u8 list \<Rightarrow> nat" where
  "le_nat [] = 0"
| "le_nat (b # bs) = unat b + 256 * le_nat bs"

record bios_parameter_block =
  bytes_per_sector :: u16
  sectors_per_cluster :: u8
  reserved_sector_count :: u16
  num_fats :: u8
  root_entry_count :: u16
  fat_size_16 :: u16
  fat_size_32 :: u32
  root_cluster :: cluster
  fsinfo_sector :: u16

text \<open>The packed structure of 50 bytes at the start of the device. Its fields that no code reads are left out.\<close>

definition field :: "u8 list \<Rightarrow> nat \<Rightarrow> nat \<Rightarrow> nat" where
  "field bytes pos n = le_nat (take n (drop pos bytes))"

definition parse_bpb :: "u8 list \<Rightarrow> bios_parameter_block" where
  "parse_bpb bytes = \<lparr>
     bytes_per_sector = of_nat (field bytes 11 2),
     sectors_per_cluster = of_nat (field bytes 13 1),
     reserved_sector_count = of_nat (field bytes 14 2),
     num_fats = of_nat (field bytes 16 1),
     root_entry_count = of_nat (field bytes 17 2),
     fat_size_16 = of_nat (field bytes 22 2),
     fat_size_32 = of_nat (field bytes 36 4),
     root_cluster = of_nat (field bytes 44 4),
     fsinfo_sector = of_nat (field bytes 48 2)\<rparr>"

definition new_bpb :: "'d blk_ops \<Rightarrow> 'd \<Rightarrow> bios_parameter_block outcome" where
  "new_bpb B d =
     and_then (bb_read_at B 0 50 d) (\<lambda>bytes.
     let bpb = parse_bpb bytes in
     if fat_size_16 bpb \<noteq> 0 \<or> root_entry_count bpb \<noteq> 0 then Err (Fs InvalidFs)
     else if fat_size_32 bpb = 0 then Err (Fs InvalidFs)
     else if num_fats bpb = 0 then Err (Fs InvalidFs)
     else if bytes_per_sector bpb \<notin> {512, 1024, 2048, 4096} then Err (Fs InvalidFs)
     else if \<not> is_power_of_two (bytes_per_sector bpb) then Err (Fs InvalidFs)
     else if \<not> is_power_of_two (sectors_per_cluster bpb) then Err (Fs InvalidFs)
     else if \<not> cluster_is_valid (root_cluster bpb) then Err (Fs InvalidFs)
     else Ok bpb)"

definition sector_offset :: "bios_parameter_block \<Rightarrow> sector \<Rightarrow> u64" where
  "sector_offset bpb sec = ucast sec * ucast (bytes_per_sector bpb)"

definition fat_region_start :: "bios_parameter_block \<Rightarrow> sector" where
  "fat_region_start bpb = ucast (reserved_sector_count bpb)"

definition fat_len :: "bios_parameter_block \<Rightarrow> sector" where
  "fat_len bpb = fat_size_32 bpb"

definition fat_region :: "bios_parameter_block \<Rightarrow> usize \<Rightarrow> (sector \<times> sector) option" where
  "fat_region bpb fat_number =
     (if fat_number \<ge> ucast (num_fats bpb) then None
      else let start = fat_region_start bpb + fat_len bpb * ucast fat_number
           in Some (start, start + fat_len bpb))"

definition data_region_start :: "bios_parameter_block \<Rightarrow> sector" where
  "data_region_start bpb = fat_region_start bpb + fat_len bpb * ucast (num_fats bpb)"

definition sector_size :: "bios_parameter_block \<Rightarrow> nat" where
  "sector_size bpb = unat (bytes_per_sector bpb)"

definition cluster_to_sectors :: "bios_parameter_block \<Rightarrow> cluster \<Rightarrow> sector list outcome" where
  "cluster_to_sectors bpb c =
     (if c < 2 then Err (Fs InvalidFs)
      else let root_sector = data_region_start bpb + (c - 2) * ucast (sectors_per_cluster bpb)
           in Ok (sectors_until root_sector (root_sector + ucast (sectors_per_cluster bpb))))"

section \<open>The allocation table\<close>

datatype fat_entry = Eoc | NextCluster cluster | Bad | Reserved | Free

definition fat_entry_from :: "u32 \<Rightarrow> fat_entry" where
  "fat_entry_from v =
     (let n = v AND 0x0fffffff in
      if n = 0 then Free else if n = 1 then Reserved
      else if n \<le> 0xFFFFFF6 then NextCluster n
      else if n = 0xFFFFFF7 then Bad else Eoc)"

text \<open>\<open>chunks_exact(4)\<close>, which drops an incomplete chunk at the end.\<close>

fun chunks4 :: "u8 list \<Rightarrow> u8 list list" where
  "chunks4 (a # b # c # d # bs) = [a, b, c, d] # chunks4 bs"
| "chunks4 _ = []"

primrec read_fat_sectors ::
  "'d blk_ops \<Rightarrow> bios_parameter_block \<Rightarrow> 'd \<Rightarrow> sector list \<Rightarrow> fat_entry list \<Rightarrow> fat_entry list outcome" where
  "read_fat_sectors B bpb d [] fat = Ok fat"
| "read_fat_sectors B bpb d (sec # secs) fat =
     and_then (bb_read_at B (sector_offset bpb sec) (sector_size bpb) d) (\<lambda>buf.
       read_fat_sectors B bpb d secs (fat @ map (\<lambda>c. fat_entry_from (of_nat (le_nat c))) (chunks4 buf)))"

text \<open>When the end of the region wraps below its start, the capacity asked for the vector overflows.\<close>

definition read_fat :: "'d blk_ops \<Rightarrow> bios_parameter_block \<Rightarrow> 'd \<Rightarrow> usize \<Rightarrow> fat_entry list outcome" where
  "read_fat B bpb d fat_number =
     (case fat_region bpb fat_number of
        None \<Rightarrow> Err (Fs InvalidFs)
      | Some (start, e) \<Rightarrow>
          if sector_offset bpb e < sector_offset bpb start then Panic
          else read_fat_sectors B bpb d (sectors_until start e) [])"

text \<open>\<open>ClusterChainIterator::next\<close>: the item and what comes next.\<close>

definition chain_next :: "fat_entry list \<Rightarrow> cluster option \<Rightarrow> (cluster outcome \<times> cluster option) option" where
  "chain_next fat current_or_next =
     (case current_or_next of
        None \<Rightarrow> None
      | Some c \<Rightarrow>
          if unat c < length fat then
            (case fat ! unat c of
               Eoc \<Rightarrow> Some (Ok c, None)
             | NextCluster next \<Rightarrow> Some (Ok c, Some next)
             | _ \<Rightarrow> Some (Err (Io MetadataCorruption), None))
          else Some (Err (Io IoOutOfBounds), None))"

primrec chain_take :: "nat \<Rightarrow> fat_entry list \<Rightarrow> cluster option \<Rightarrow> cluster outcome list" where
  "chain_take 0 fat cur = []"
| "chain_take (Suc n) fat cur =
     (case chain_next fat cur of None \<Rightarrow> [] | Some (r, cur') \<Rightarrow> r # chain_take n fat cur')"

section \<open>The file system\<close>

record fat32_filesystem =
  fs_bpb :: bios_parameter_block
  fs_fat :: "fat_entry list"
  fs_id :: u64

primrec fats_agree ::
  "'d blk_ops \<Rightarrow> bios_parameter_block \<Rightarrow> 'd \<Rightarrow> fat_entry list \<Rightarrow> nat list \<Rightarrow> unit outcome" where
  "fats_agree B bpb d fat [] = Ok ()"
| "fats_agree B bpb d fat (n # ns) =
     and_then (read_fat B bpb d (of_nat n)) (\<lambda>other_fat.
       if other_fat \<noteq> fat then Err (Fs InvalidFs) else fats_agree B bpb d fat ns)"

definition new_fat32 :: "'d blk_ops \<Rightarrow> 'd \<Rightarrow> u64 \<Rightarrow> fat32_filesystem outcome" where
  "new_fat32 B d i =
     and_then (new_bpb B d) (\<lambda>bpb.
     and_then (read_fat B bpb d 0) (\<lambda>fat.
     and_then (fats_agree B bpb d fat [1..<unat (num_fats bpb)]) (\<lambda>_.
     Ok \<lparr>fs_bpb = bpb, fs_fat = fat, fs_id = i\<rparr>)))"

text \<open>\<open>read_sector\<close>; the bytes written to the buffer are the result.\<close>

definition read_sector ::
  "'d blk_ops \<Rightarrow> fat32_filesystem \<Rightarrow> 'd \<Rightarrow> sector \<Rightarrow> nat \<Rightarrow> nat \<Rightarrow> u8 list outcome" where
  "read_sector B fs d sec offset len =
     (let bytes_left_in_sec = sector_size (fs_bpb fs) - offset; read_sz = min len bytes_left_in_sec
      in bb_read_at B (sector_offset (fs_bpb fs) sec + of_nat offset) read_sz d)"

definition fs_sectors_per_cluster :: "fat32_filesystem \<Rightarrow> nat" where
  "fs_sectors_per_cluster fs = unat (sectors_per_cluster (fs_bpb fs))"

definition bytes_per_cluster :: "fat32_filesystem \<Rightarrow> nat" where
  "bytes_per_cluster fs = fs_sectors_per_cluster fs * sector_size (fs_bpb fs)"

section \<open>Reading along a chain\<close>

text \<open>
  The buffer is \<open>want\<close> bytes long, \<open>acc\<close> is what was read so far. The loop over the sectors of a
  cluster and the loop over the clusters; both stop when the buffer is full.
\<close>

primrec read_sectors ::
  "'d blk_ops \<Rightarrow> fat32_filesystem \<Rightarrow> 'd \<Rightarrow> nat \<Rightarrow> sector list \<Rightarrow> u8 list \<Rightarrow> u8 list outcome" where
  "read_sectors B fs d want [] acc = Ok acc"
| "read_sectors B fs d want (sec # secs) acc =
     (if length acc \<ge> want then Ok acc
      else and_then (read_sector B fs d sec 0 (want - length acc)) (\<lambda>xs.
             read_sectors B fs d want secs (acc @ xs)))"

primrec read_clusters ::
  "'d blk_ops \<Rightarrow> fat32_filesystem \<Rightarrow> 'd \<Rightarrow> nat \<Rightarrow> cluster outcome list \<Rightarrow> u8 list \<Rightarrow> u8 list outcome" where
  "read_clusters B fs d want [] acc = Ok acc"
| "read_clusters B fs d want (r # rs) acc =
     (if length acc \<ge> want then Ok acc
      else and_then r (\<lambda>c.
           and_then (cluster_to_sectors (fs_bpb fs) c) (\<lambda>secs.
           and_then (read_sectors B fs d want secs acc) (\<lambda>acc'.
             read_clusters B fs d want rs acc'))))"

record fat32_reader =
  rd_root :: cluster
  max_sz :: u64

definition reader_read_at ::
  "'d blk_ops \<Rightarrow> fat32_filesystem \<Rightarrow> 'd \<Rightarrow> fat32_reader \<Rightarrow> u64 \<Rightarrow> nat \<Rightarrow> u8 list outcome" where
  "reader_read_at B fs d rdr offset len =
     (if offset \<ge> max_sz rdr then Ok []
      else
        let bytes_to_read = min len (unat (max_sz rdr - offset)) in
        if bytes_to_read = 0 then Ok []
        else
          let bpc = bytes_per_cluster fs; ss = sector_size (fs_bpb fs);
              max_clusters = (unat (max_sz rdr) + bpc - 1) div bpc;
              start_cluster_idx = unat offset div bpc;
              offset_in_first_cluster = unat offset mod bpc;
              start_sector_idx_in_cluster = offset_in_first_cluster div ss;
              offset_in_first_sector = offset_in_first_cluster mod ss;
              chain = chain_take max_clusters (fs_fat fs) (Some (rd_root rdr))
          in and_then
               (if start_cluster_idx < length chain then
                  and_then (chain ! start_cluster_idx) (\<lambda>c.
                  and_then (cluster_to_sectors (fs_bpb fs) c) (\<lambda>secs.
                    if start_sector_idx_in_cluster < length secs then
                      and_then (read_sector B fs d (secs ! start_sector_idx_in_cluster)
                                  offset_in_first_sector bytes_to_read) (\<lambda>xs.
                        read_sectors B fs d bytes_to_read (drop (Suc start_sector_idx_in_cluster) secs) xs)
                    else Ok []))
                else Ok []) (\<lambda>acc.
             read_clusters B fs d bytes_to_read (drop (Suc start_cluster_idx) chain) acc))"

section \<open>What a file holds\<close>

text \<open>
  The layout of a FAT32 volume, over natural numbers: the reserved sectors, the tables, then the
  clusters, of which the first has number 2.
\<close>

definition cluster_sector :: "bios_parameter_block \<Rightarrow> cluster \<Rightarrow> nat" where
  "cluster_sector bpb c = unat (reserved_sector_count bpb) + unat (num_fats bpb) * unat (fat_size_32 bpb) +
     (unat c - 2) * unat (sectors_per_cluster bpb)"

definition cluster_bytes :: "bios_parameter_block \<Rightarrow> u8 list \<Rightarrow> cluster \<Rightarrow> u8 list" where
  "cluster_bytes bpb bytes c =
     take (unat (sectors_per_cluster bpb) * unat (bytes_per_sector bpb))
       (drop (cluster_sector bpb c * unat (bytes_per_sector bpb)) bytes)"

text \<open>A cluster that lies on a device of \<open>n\<close> bytes and whose sector numbers are 32-bit numbers.\<close>

definition on_device :: "bios_parameter_block \<Rightarrow> nat \<Rightarrow> cluster \<Rightarrow> bool" where
  "on_device bpb n c \<longleftrightarrow> 2 \<le> unat c \<and> cluster_sector bpb c + unat (sectors_per_cluster bpb) < 2 ^ 32 \<and>
     (cluster_sector bpb c + unat (sectors_per_cluster bpb)) * unat (bytes_per_sector bpb) \<le> n"

text \<open>The clusters of a file: each entry of the table names the next one, the last is the end of the chain.\<close>

fun is_chain :: "fat_entry list \<Rightarrow> cluster list \<Rightarrow> bool" where
  "is_chain fat [] \<longleftrightarrow> False"
| "is_chain fat [c] \<longleftrightarrow> unat c < length fat \<and> fat ! unat c = Eoc"
| "is_chain fat (c # c' # cs) \<longleftrightarrow> unat c < length fat \<and> fat ! unat c = NextCluster c' \<and> is_chain fat (c' # cs)"

definition file_bytes :: "bios_parameter_block \<Rightarrow> u8 list \<Rightarrow> cluster list \<Rightarrow> nat \<Rightarrow> u8 list" where
  "file_bytes bpb bytes cs sz = take sz (concat (map (cluster_bytes bpb bytes) cs))"

lemma chain_take_chain:
  "is_chain fat cs \<Longrightarrow> chain_take n fat (Some (hd cs)) = map Ok (take n cs)"
proof (induction fat cs arbitrary: n rule: is_chain.induct)
  case (2 fat c)
  have "chain_take k fat None = []" for k by (cases k) (simp_all add: chain_next_def)
  then show ?case using 2 by (cases n) (simp_all add: chain_next_def)
next
  case (3 fat c c' cs)
  then show ?case by (cases n) (simp_all add: chain_next_def)
qed simp

section \<open>Sectors of a cluster\<close>

text \<open>The sectors the code computes with wrapping arithmetic are those of the layout.\<close>

definition sectors_of :: "fat32_filesystem \<Rightarrow> cluster \<Rightarrow> sector list" where
  "sectors_of fs c = map of_nat
     [cluster_sector (fs_bpb fs) c..<cluster_sector (fs_bpb fs) c + unat (sectors_per_cluster (fs_bpb fs))]"

definition sector_bytes :: "fat32_filesystem \<Rightarrow> u8 list \<Rightarrow> sector \<Rightarrow> u8 list" where
  "sector_bytes fs bytes s = take (sector_size (fs_bpb fs)) (drop (unat s * sector_size (fs_bpb fs)) bytes)"

lemma cluster_to_sectors_layout:
  assumes "2 \<le> unat c" "cluster_sector (fs_bpb fs) c + unat (sectors_per_cluster (fs_bpb fs)) < 2 ^ 32"
  shows "cluster_to_sectors (fs_bpb fs) c = Ok (sectors_of fs c)"
proof -
  let ?b = "fs_bpb fs"
  let ?root = "data_region_start ?b + (c - 2) * ucast (sectors_per_cluster ?b)"
  have c: "\<not> c < 2" "unat (c - 2) = unat c - 2"
    using assms(1) by (simp_all add: word_less_nat_alt unat_sub word_le_nat_alt)
  have "?root = of_nat (cluster_sector ?b c)"
    using c(2) by (simp add: cluster_sector_def data_region_start_def fat_region_start_def fat_len_def
        word_unat_eq_iff unat_word_ariths unat_of_nat unsigned_ucast_eq mod_simps mult.commute)
  then have "unat ?root = cluster_sector ?b c"
    "unat (?root + ucast (sectors_per_cluster ?b)) = cluster_sector ?b c + unat (sectors_per_cluster ?b)"
    using assms(2) by (simp_all add: unat_of_nat unat_word_ariths unsigned_ucast_eq take_bit_nat_eq_self)
  then show ?thesis using c(1) by (simp add: cluster_to_sectors_def sectors_until_def sectors_of_def)
qed

lemma concat_blocks: "concat (map (\<lambda>i. take n (drop (i * n) xs)) [a..<a + k]) = take (k * n) (drop (a * n) xs)"
proof (induction k)
  case (Suc k)
  have "take (k * n) ys @ take n (drop (k * n) ys) = take (Suc k * n) ys" for ys :: "'a list"
    using take_add [of "k * n" n ys] by (simp add: add.commute)
  from this [of "drop (a * n) xs"] show ?case using Suc by (simp add: add.commute algebra_simps)
qed simp

lemma concat_map_concat:
  assumes "\<And>c. c \<in> set cs \<Longrightarrow> concat (map f (g c)) = h c"
  shows "concat (map f (concat (map g cs))) = concat (map h cs)"
  using assms by (induction cs) simp_all

lemma sectors_of_bytes:
  assumes "cluster_sector (fs_bpb fs) c + unat (sectors_per_cluster (fs_bpb fs)) < 2 ^ 32"
  shows "concat (map (sector_bytes fs bytes) (sectors_of fs c)) = cluster_bytes (fs_bpb fs) bytes c"
proof -
  let ?a = "cluster_sector (fs_bpb fs) c" and ?n = "unat (sectors_per_cluster (fs_bpb fs))"
    and ?ss = "sector_size (fs_bpb fs)"
  have "map (sector_bytes fs bytes) (sectors_of fs c) = map (\<lambda>i. take ?ss (drop (i * ?ss) bytes)) [?a..<?a + ?n]"
    using assms by (simp add: sectors_of_def sector_bytes_def unat_of_nat)
  then show ?thesis by (simp add: concat_blocks cluster_bytes_def sector_size_def)
qed

lemma on_device_sectors:
  assumes "on_device (fs_bpb fs) n c"
  shows "cluster_to_sectors (fs_bpb fs) c = Ok (sectors_of fs c)"
    "length (sectors_of fs c) = fs_sectors_per_cluster fs"
    "s \<in> set (sectors_of fs c) \<Longrightarrow> (unat s + 1) * sector_size (fs_bpb fs) \<le> n"
    "length bytes = n \<Longrightarrow> length (cluster_bytes (fs_bpb fs) bytes c) = bytes_per_cluster fs"
    "concat (map (sector_bytes fs bytes) (sectors_of fs c)) = cluster_bytes (fs_bpb fs) bytes c"
proof -
  let ?a = "cluster_sector (fs_bpb fs) c" and ?n = "unat (sectors_per_cluster (fs_bpb fs))"
    and ?ss = "unat (bytes_per_sector (fs_bpb fs))"
  have le: "(?a + ?n) * ?ss \<le> n" using assms by (simp add: on_device_def)
  show "cluster_to_sectors (fs_bpb fs) c = Ok (sectors_of fs c)"
    using assms cluster_to_sectors_layout by (simp add: on_device_def)
  show "length (sectors_of fs c) = fs_sectors_per_cluster fs" by (simp add: sectors_of_def fs_sectors_per_cluster_def)
  show "(unat s + 1) * sector_size (fs_bpb fs) \<le> n" if s: "s \<in> set (sectors_of fs c)"
  proof -
    obtain i where "s = of_nat i" "i < ?a + ?n" using s by (auto simp: sectors_of_def)
    then have "unat s + 1 \<le> ?a + ?n" using assms by (simp add: on_device_def unat_of_nat)
    then have "(unat s + 1) * ?ss \<le> (?a + ?n) * ?ss" by (rule mult_le_mono1)
    then show ?thesis using le by (simp add: sector_size_def)
  qed
  show "length (cluster_bytes (fs_bpb fs) bytes c) = bytes_per_cluster fs" if "length bytes = n"
    using le that by (simp add: cluster_bytes_def bytes_per_cluster_def fs_sectors_per_cluster_def sector_size_def
        add_mult_distrib)
  show "concat (map (sector_bytes fs bytes) (sectors_of fs c)) = cluster_bytes (fs_bpb fs) bytes c"
    using assms by (simp add: on_device_def sectors_of_bytes)
qed

lemma drop_concat_chunks:
  assumes "\<And>x. x \<in> set xss \<Longrightarrow> length x = n" and "i < length xss" and "j \<le> n"
  shows "drop (i * n + j) (concat xss) = drop j (xss ! i) @ concat (drop (Suc i) xss)"
  using assms
proof (induction xss arbitrary: i)
  case (Cons x xss)
  show ?case
  proof (cases i)
    case 0 then show ?thesis using Cons.prems by simp
  next
    case (Suc k)
    then show ?thesis using Cons.IH [of k] Cons.prems by (simp add: add.assoc)
  qed
qed simp

lemma nth_concat_chunks:
  assumes "\<And>x. x \<in> set xss \<Longrightarrow> length x = n" and "i < length xss" and "k < n"
  shows "i * n + k < length (concat xss)" and "concat xss ! (i * n + k) = xss ! i ! k"
    and "drop (Suc (i * n + k)) (concat xss) = drop (Suc k) (xss ! i) @ concat (drop (Suc i) xss)"
proof -
  have e: "drop (i * n + k) (concat xss) = xss ! i ! k # drop (Suc k) (xss ! i) @ concat (drop (Suc i) xss)"
    using drop_concat_chunks [OF assms(1,2), of k] assms by (simp add: Cons_nth_drop_Suc)
  then show l: "i * n + k < length (concat xss)" by (metis drop_all list.distinct(1) not_le_imp_less)
  show "concat xss ! (i * n + k) = xss ! i ! k"
    "drop (Suc (i * n + k)) (concat xss) = drop (Suc k) (xss ! i) @ concat (drop (Suc i) xss)"
    using e Cons_nth_drop_Suc [OF l] by (metis list.inject)+
qed

lemma read_sectors_full: "want \<le> length acc \<Longrightarrow> read_sectors B fs d want secs acc = Ok acc"
  by (cases secs) simp_all

lemma read_sectors_append:
  "read_sectors B fs d want (xs @ ys) =
   (\<lambda>acc. and_then (read_sectors B fs d want xs acc) (read_sectors B fs d want ys))"
proof
  fix acc
  show "read_sectors B fs d want (xs @ ys) acc =
    and_then (read_sectors B fs d want xs acc) (read_sectors B fs d want ys)"
    by (induction xs arbitrary: acc) (auto simp: and_then_assoc read_sectors_full)
qed

text \<open>On a valid chain the two loops read the sectors of the chain one after the other.\<close>

lemma read_clusters_sectors:
  assumes "\<And>c. c \<in> set cs \<Longrightarrow> cluster_to_sectors (fs_bpb fs) c = Ok (sectors_of fs c)"
  shows "read_clusters B fs d want (map Ok cs) acc = read_sectors B fs d want (concat (map (sectors_of fs) cs)) acc"
  using assms
proof (induction cs arbitrary: acc)
  case (Cons c cs)
  have "read_clusters B fs d want (map Ok cs) = read_sectors B fs d want (concat (map (sectors_of fs) cs))"
    by (rule ext) (use Cons in auto)
  then show ?case
    using Cons.prems by (cases "want \<le> length acc") (simp_all add: read_sectors_append read_sectors_full)
qed simp

lemma unat_sector_offset: "unat (sector_offset b s) = unat s * unat (bytes_per_sector b)"
proof -
  have "unat s < 2 ^ 32" "unat (bytes_per_sector b) < 2 ^ 16" using unsigned_less [of s] unsigned_less [of "bytes_per_sector b"] by simp_all
  moreover from this have "unat s * unat (bytes_per_sector b) < 2 ^ 32 * 2 ^ 16" by (intro mult_strict_mono) simp_all
  ultimately show ?thesis by (simp add: sector_offset_def unat_word_ariths unsigned_ucast_eq take_bit_nat_eq_self)
qed

context block_device
begin

lemma read_sector_bytes:
  assumes d: "ok d" and s: "(unat s + 1) * sector_size (fs_bpb fs) \<le> length (disk d)" and j: "j < sector_size (fs_bpb fs)"
  shows "read_sector B fs d s j len = Ok (take len (drop j (sector_bytes fs (disk d) s)))"
proof -
  let ?ss = "sector_size (fs_bpb fs)"
  have D: "length (disk d) < 2 ^ 63" using size_bound [OF d] .
  have k: "unat (of_nat j :: u64) = j" using j s D by (intro unat_of_nat_u64) simp
  have "unat (sector_offset (fs_bpb fs) s) + j < 2 ^ 64"
    using s j D by (simp add: unat_sector_offset sector_size_def)
  then have u: "unat (sector_offset (fs_bpb fs) s + of_nat j) = unat s * ?ss + j"
    using k by (simp add: unat_add_usize unat_sector_offset sector_size_def)
  have "unat (sector_offset (fs_bpb fs) s + of_nat j) + min len (?ss - j) \<le> length (disk d)"
    unfolding u using s j by simp
  from read_at_bytes [OF d this] show ?thesis
    unfolding read_sector_def Let_def u by (simp add: sector_bytes_def drop_take add.commute min.commute)
qed

lemma read_sectors_bytes:
  assumes "ok d" and "\<And>s. s \<in> set secs \<Longrightarrow> (unat s + 1) * sector_size (fs_bpb fs) \<le> length (disk d)"
    and "length acc \<le> want" and "0 < sector_size (fs_bpb fs)"
  shows "read_sectors B fs d want secs acc = Ok (take want (acc @ concat (map (sector_bytes fs (disk d)) secs)))"
  using assms(2,3)
proof (induction secs arbitrary: acc)
  case (Cons s secs)
  show ?case
  proof (cases "length acc = want")
    case False
    let ?sb = "sector_bytes fs (disk d) s"
    have r: "read_sector B fs d s 0 (want - length acc) = Ok (take (want - length acc) ?sb)"
      using read_sector_bytes [OF assms(1) _ assms(4)] Cons.prems by simp
    have "length (acc @ take (want - length acc) ?sb) \<le> want" using Cons.prems by simp
    from Cons.IH [OF _ this] have "read_sectors B fs d want secs (acc @ take (want - length acc) ?sb) =
        Ok (take want ((acc @ take (want - length acc) ?sb) @ concat (map (sector_bytes fs (disk d)) secs)))"
      using Cons.prems(1) by simp
    moreover have "take want ((acc @ take (want - length acc) ?sb) @ zs) = take want (acc @ ?sb @ zs)" for zs
      using Cons.prems(2) by (cases "length ?sb \<le> want - length acc") simp_all
    ultimately show ?thesis using r False Cons.prems(2) by simp
  qed simp
qed simp

text \<open>Reading from sector \<open>k\<close> of a list of sectors, at offset \<open>j\<close> in it.\<close>

lemma read_from_sector:
  assumes d: "ok d" and secs: "\<And>s. s \<in> set secs \<Longrightarrow> (unat s + 1) * sector_size (fs_bpb fs) \<le> length (disk d)"
    and k: "k < length secs" and j: "j < sector_size (fs_bpb fs)"
  shows "and_then (read_sector B fs d (secs ! k) j want) (read_sectors B fs d want (drop (Suc k) secs)) =
    Ok (take want (drop (k * sector_size (fs_bpb fs) + j) (concat (map (sector_bytes fs (disk d)) secs))))"
proof -
  let ?sb = "sector_bytes fs (disk d)" and ?ss = "sector_size (fs_bpb fs)"
  have len: "length (?sb s) = ?ss" if "s \<in> set secs" for s
    using secs [OF that] by (simp add: sector_bytes_def)
  have c: "drop (k * ?ss + j) (concat (map ?sb secs)) = drop j (?sb (secs ! k)) @ concat (map ?sb (drop (Suc k) secs))"
    using drop_concat_chunks [of "map ?sb secs" ?ss k j] len k j by (auto simp: drop_map)
  have r: "read_sector B fs d (secs ! k) j want = Ok (take want (drop j (?sb (secs ! k))))"
    using read_sector_bytes [OF d secs j] k by simp
  have "read_sectors B fs d want (drop (Suc k) secs) (take want (drop j (?sb (secs ! k)))) =
      Ok (take want (take want (drop j (?sb (secs ! k))) @ concat (map ?sb (drop (Suc k) secs))))"
    using secs j by (intro read_sectors_bytes [OF d]) (auto dest: in_set_dropD)
  also have "take want (take want ys @ zs) = take want (ys @ zs)" for ys zs :: "u8 list"
    by (cases "length ys \<le> want") simp_all
  finally show ?thesis using r c by simp
qed

lemma reader_bytes:
  assumes d: "ok d" and ss: "0 < sector_size (fs_bpb fs)" and spc: "0 < fs_sectors_per_cluster fs"
    and ch: "chain_take ((unat (max_sz rdr) + bytes_per_cluster fs - 1) div bytes_per_cluster fs) (fs_fat fs) (Some (rd_root rdr)) = map Ok cs"
    and cov: "unat (max_sz rdr) \<le> length cs * bytes_per_cluster fs"
    and cs: "\<And>c. c \<in> set cs \<Longrightarrow> on_device (fs_bpb fs) (length (disk d)) c"
  shows "reader_read_at B fs d rdr off len =
    Ok (take len (drop (unat off) (file_bytes (fs_bpb fs) (disk d) cs (unat (max_sz rdr)))))"
proof (cases "off \<ge> max_sz rdr \<or> len = 0")
  case True
  then show ?thesis by (auto simp: reader_read_at_def file_bytes_def word_le_nat_alt)
next
  case False
  let ?sz = "unat (max_sz rdr)" and ?ss = "sector_size (fs_bpb fs)" and ?n = "fs_sectors_per_cluster fs"
    and ?bpc = "bytes_per_cluster fs" and ?all = "concat (map (sectors_of fs) cs)" and ?sb = "sector_bytes fs (disk d)"
  have lt: "unat off < ?sz" and u: "unat (max_sz rdr - off) = ?sz - unat off"
    using False by (auto simp: word_le_nat_alt not_le unat_sub_usize)
  define want where "want = min len (?sz - unat off)"
  have w: "want \<noteq> 0" using False lt by (simp add: want_def)
  define i where "i = unat off div ?bpc"
  define k where "k = unat off mod ?bpc div ?ss"
  define j where "j = unat off mod ?bpc mod ?ss"
  have j: "j < ?ss" using ss by (simp add: j_def)
  have bpc: "0 < ?bpc" using ss spc by (simp add: bytes_per_cluster_def)
  have k: "k < ?n"
    using mod_less_divisor [OF bpc, of "unat off"] unfolding k_def
    by (simp add: bytes_per_cluster_def less_mult_imp_div_less)
  have i: "i < length cs" unfolding i_def using lt cov by (intro less_mult_imp_div_less) simp
  have off: "unat off = (i * ?n + k) * ?ss + j"
    unfolding i_def k_def j_def
    using div_mult_mod_eq [of "unat off" ?bpc] div_mult_mod_eq [of "unat off mod ?bpc" ?ss]
    by (simp add: bytes_per_cluster_def algebra_simps)
  have sec: "cluster_to_sectors (fs_bpb fs) c = Ok (sectors_of fs c)" "length (sectors_of fs c) = ?n"
    "\<And>s. s \<in> set (sectors_of fs c) \<Longrightarrow> (unat s + 1) * ?ss \<le> length (disk d)" if "c \<in> set cs" for c
    using on_device_sectors(1-3) [OF cs [OF that]] by auto
  have ci: "cs ! i \<in> set cs" using i by simp
  have all: "i * ?n + k < length ?all" "?all ! (i * ?n + k) = sectors_of fs (cs ! i) ! k"
    "drop (Suc (i * ?n + k)) ?all =
       drop (Suc k) (sectors_of fs (cs ! i)) @ concat (map (sectors_of fs) (drop (Suc i) cs))"
    using nth_concat_chunks [of "map (sectors_of fs) cs" ?n i k] sec(2) i k by (auto simp: drop_map)
  have rest: "read_clusters B fs d want (map Ok (drop (Suc i) cs)) =
      read_sectors B fs d want (concat (map (sectors_of fs) (drop (Suc i) cs)))"
    by (rule ext, rule read_clusters_sectors) (use sec(1) in \<open>auto dest: in_set_dropD\<close>)
  have "reader_read_at B fs d rdr off len =
      and_then (read_sector B fs d (?all ! (i * ?n + k)) j want) (read_sectors B fs d want (drop (Suc (i * ?n + k)) ?all))"
    using False w lt i k sec(1,2) [OF ci]
    unfolding all(2,3) reader_read_at_def ch Let_def u
    by (simp add: want_def [symmetric] i_def [symmetric] k_def [symmetric] j_def [symmetric] rest
        read_sectors_append and_then_assoc drop_map cong: if_cong)
  also have "\<dots> = Ok (take want (drop (unat off) (concat (map ?sb ?all))))"
    unfolding off by (rule read_from_sector [OF d _ all(1) j]) (use sec(3) in auto)
  also have "concat (map ?sb ?all) = concat (map (cluster_bytes (fs_bpb fs) (disk d)) cs)"
    using on_device_sectors(5) [OF cs] by (intro concat_map_concat)
  finally show ?thesis by (simp add: file_bytes_def want_def drop_take min.commute)
qed

end

lemma file_bytes_take:
  assumes "\<And>c. c \<in> set cs \<Longrightarrow> length (cluster_bytes bpb bytes c) = k" and "sz \<le> n * k"
  shows "file_bytes bpb bytes (take n cs) sz = file_bytes bpb bytes cs sz"
proof (cases "n \<le> length cs")
  case True
  have "length (concat (map (cluster_bytes bpb bytes) (take n cs))) = n * k"
  proof -
    have "map (length \<circ> cluster_bytes bpb bytes) (take n cs) = replicate n k"
      using assms(1) True by (auto simp: list_eq_iff_nth_eq)
    then show ?thesis by (simp add: length_concat sum_list_replicate)
  qed
  moreover have "concat (map (cluster_bytes bpb bytes) cs) =
      concat (map (cluster_bytes bpb bytes) (take n cs)) @ concat (map (cluster_bytes bpb bytes) (drop n cs))"
    by (metis append_take_drop_id concat_append map_append)
  ultimately show ?thesis using assms(2) by (simp add: file_bytes_def)
qed simp

text \<open>C8.  Reading a FAT32 file returns its bytes. The volume is laid out as the format says (reserved
  sectors, tables, then the clusters from number 2 on), on any block device. When the table holds a chain
  for the file that is long enough for its size, with clusters that lie on the device and sector numbers that fit
  32 bits, a read at any offset and of any length returns that part of the clusters of the chain, one
  after the other and cut off at the file's size: partial first sectors, the crossing of sectors and clusters,
  and the end of the file included.\<close>

theorem fat32_read_at:
  assumes "block_device B ok disk" and "ok d"
    and "0 < bytes_per_sector (fs_bpb fs)" and "0 < sectors_per_cluster (fs_bpb fs)"
    and "is_chain (fs_fat fs) cs" and "hd cs = rd_root rdr"
    and "unat (max_sz rdr) \<le> length cs * bytes_per_cluster fs"
    and "list_all (on_device (fs_bpb fs) (length (disk d))) cs"
  shows "reader_read_at B fs d rdr off len =
    Ok (take len (drop (unat off) (file_bytes (fs_bpb fs) (disk d) cs (unat (max_sz rdr)))))"
proof -
  let ?k = "bytes_per_cluster fs" and ?sz = "unat (max_sz rdr)"
  define n where "n = (?sz + ?k - 1) div ?k"
  have pos: "0 < sector_size (fs_bpb fs)" "0 < fs_sectors_per_cluster fs"
    using assms(3,4) by (simp_all add: sector_size_def fs_sectors_per_cluster_def word_less_nat_alt)
  then have k: "0 < ?k" by (simp add: bytes_per_cluster_def)
  have on: "on_device (fs_bpb fs) (length (disk d)) c" if "c \<in> set cs" for c
    using assms(8) that by (simp add: list_all_iff)
  have "?sz + ?k - 1 < (n + 1) * ?k" unfolding n_def using k by (metis div_less_iff_less_mult less_add_one)
  then have sz: "?sz \<le> n * ?k" using k by simp
  then have cov: "?sz \<le> length (take n cs) * ?k" using assms(7) by (simp add: min_def)
  have "reader_read_at B fs d rdr off len =
      Ok (take len (drop (unat off) (file_bytes (fs_bpb fs) (disk d) (take n cs) ?sz)))"
    using chain_take_chain [OF assms(5), of n] assms(6) on
    by (intro block_device.reader_bytes [OF assms(1,2) pos _ cov]) (auto simp: n_def dest: in_set_takeD)
  also have "file_bytes (fs_bpb fs) (disk d) (take n cs) ?sz = file_bytes (fs_bpb fs) (disk d) cs ?sz"
    using on_device_sectors(4) [OF on] sz by (intro file_bytes_take) auto
  finally show ?thesis .
qed

text \<open>A file of 600 bytes in clusters 2 and 3 of a small volume on a ramdisk whose bytes count up.\<close>

definition demo_disk :: ramdisk where
  "demo_disk = (\<lparr>rd_base = 0, num_blocks = 1\<rparr>, \<lambda>a. ucast a)"

definition demo_fs :: fat32_filesystem where
  "demo_fs = \<lparr>fs_bpb = \<lparr>bytes_per_sector = 512, sectors_per_cluster = 1, reserved_sector_count = 1, num_fats = 1,
     root_entry_count = 0, fat_size_16 = 0, fat_size_32 = 1, root_cluster = 2, fsinfo_sector = 0\<rparr>,
     fs_fat = [Free, Reserved, NextCluster 3, Eoc], fs_id = 10\<rparr>"

lemma take_drop_map_upt: "a + n \<le> m \<Longrightarrow> take n (drop a (map f [l..<l + m])) = map f [l + a..<l + a + n]"
  by (simp add: take_map drop_map)

lemma demo_fs_simps:
  "bytes_per_sector (fs_bpb demo_fs) = 512" "sectors_per_cluster (fs_bpb demo_fs) = 1" "bytes_per_cluster demo_fs = 512"
  "is_chain (fs_fat demo_fs) [2, 3]" "cluster_sector (fs_bpb demo_fs) 2 = 2" "cluster_sector (fs_bpb demo_fs) 3 = 3"
  by (simp_all add: demo_fs_def sector_size_def fs_sectors_per_cluster_def bytes_per_cluster_def cluster_sector_def)

lemma demo_disk_bytes: "ramdisk_bytes demo_disk = map (\<lambda>i. of_nat i) [0..<0 + 4096]"
proof -
  have "ramdisk_bytes (\<lparr>rd_base = 0, num_blocks = n\<rparr>, \<lambda>a. ucast a) = map (\<lambda>i. of_nat i) [0..<0 + unat n * 4096]" for n
    by (auto simp: ramdisk_bytes_def intro!: bit_word_eqI) (auto simp: bit_simps)
  from this [of 1] show ?thesis unfolding demo_disk_def by simp
qed

lemma demo_file_bytes:
  "take 4 (drop 510 (file_bytes (fs_bpb demo_fs) (ramdisk_bytes demo_disk) [2, 3] 600)) = [254, 255, 0, 1]"
proof -
  let ?f = "\<lambda>i. of_nat i :: u8"
  have s: "cluster_bytes (fs_bpb demo_fs) (map ?f [0..<0 + 4096]) 2 = map ?f [1024..<1024 + 512]"
    "cluster_bytes (fs_bpb demo_fs) (map ?f [0..<0 + 4096]) 3 = map ?f [1536..<1536 + 512]"
    using take_drop_map_upt [of 1024 512 4096 ?f 0] take_drop_map_upt [of 1536 512 4096 ?f 0]
    unfolding cluster_bytes_def demo_fs_simps by simp_all
  have c: "map ?f [1024..<1024 + 512] @ map ?f [1536..<1536 + 512] = map ?f [1024..<1024 + 1024]"
    using upt_add_eq_append [of 1024 "1024 + 512" 512] by simp
  have "file_bytes (fs_bpb demo_fs) (map ?f [0..<0 + 4096]) [2, 3] 600 = take 600 (drop 0 (map ?f [1024..<1024 + 1024]))"
    unfolding file_bytes_def c [symmetric] list.map concat.simps demo_fs_simps append_Nil append_Nil2 append_Cons s drop_0 ..
  also have "\<dots> = map ?f [1024..<1024 + 600]" using take_drop_map_upt [of 0 600 1024 ?f 1024] by simp
  finally show ?thesis
    using take_drop_map_upt [of 510 4 600 ?f 1024] unfolding demo_disk_bytes by simp
qed

lemma fat32_read_at_witness:
  "ramdisk_ok demo_disk \<and>
   reader_read_at ramdisk_ops demo_fs demo_disk \<lparr>rd_root = 2, max_sz = 600\<rparr> 510 4 = Ok [254, 255, 0, 1]"
proof -
  have d: "ramdisk_ok demo_disk" by (simp add: demo_disk_def ramdisk_ok_def)
  have l: "length (ramdisk_bytes demo_disk) = 4096" unfolding demo_disk_bytes length_map length_upt by simp
  have "list_all (on_device (fs_bpb demo_fs) (length (ramdisk_bytes demo_disk))) [2, 3]"
    unfolding l by (simp add: on_device_def demo_fs_simps)
  then show ?thesis
    using fat32_read_at [OF ramdisk_dev.block_device_axioms d _ _ demo_fs_simps(4), of "\<lparr>rd_root = 2, max_sz = 600\<rparr>" 510 4]
      demo_file_bytes d by (simp add: demo_fs_simps)
qed

end
