(* ===== verification/Vfs.thy ===== *)
theory Vfs
  imports Path BTree FdTable "HOL-Library.Product_Lexorder"
begin

text \<open>
  The virtual file system: file attributes and the permission check (\<open>libkernel/src/fs/attr.rs\<close>), the
  mount table, path resolution and \<open>open\<close> (\<open>src/fs/mod.rs\<close>), and the system calls \<open>openat\<close>,
  \<open>faccessat2\<close>, \<open>chdir\<close> and \<open>getcwd\<close> (\<open>src/fs/syscalls\<close>). The trait \<open>Inode\<close>, which every file system
  implements, is the record \<open>inode_ops\<close>; \<open>'n\<close> is an inode and \<open>'d\<close> the state of the file systems. Paths
  copied from user memory are arguments.
\<close>

section \<open>Inodes and attributes\<close>

type_synonym inode_id = "u64 \<times> u64"

datatype file_type = File | Directory | Symlink | BlockDevice "u64 \<times> u64" | CharDevice "u64 \<times> u64" | Fifo | Socket

definition X_OK :: u32 where "X_OK = 1"
definition W_OK :: u32 where "W_OK = 2"
definition R_OK :: u32 where "R_OK = 4"

definition S_IRUSR :: "16 word" where "S_IRUSR = 0x100"
definition S_IWUSR :: "16 word" where "S_IWUSR = 0x80"
definition S_IXUSR :: "16 word" where "S_IXUSR = 0x40"
definition S_IXGRP :: "16 word" where "S_IXGRP = 0x8"
definition S_IXOTH :: "16 word" where "S_IXOTH = 0x1"

text \<open>\<open>from_bits_truncate\<close> keeps the bits of the twelve flags.\<close>

definition perm_truncate :: "16 word \<Rightarrow> 16 word" where
  "perm_truncate b = b AND 0xFFF"

text \<open>Times are durations in seconds and nanoseconds.\<close>

record file_attr =
  fa_id :: inode_id
  fa_size :: u64
  fa_block_size :: u32
  fa_blocks :: u64
  fa_atime :: "u64 \<times> u32"
  fa_mtime :: "u64 \<times> u32"
  fa_ctime :: "u64 \<times> u32"
  fa_type :: file_type
  fa_mode :: "16 word"
  fa_nlinks :: u32
  fa_uid :: u32
  fa_gid :: u32

definition default_file_attr :: file_attr where
  "default_file_attr = \<lparr>
     fa_id = (- 1, - 1), fa_size = 0, fa_block_size = 0, fa_blocks = 0,
     fa_atime = (0, 0), fa_mtime = (0, 0), fa_ctime = (0, 0), fa_type = File, fa_mode = 0,
     fa_nlinks = 1, fa_uid = 0, fa_gid = 0\<rparr>"

definition has_flags :: "'a::len word \<Rightarrow> 'a word \<Rightarrow> bool" where
  "has_flags flags f \<longleftrightarrow> flags AND f = f"

definition check_access :: "file_attr \<Rightarrow> u32 \<Rightarrow> u32 \<Rightarrow> u32 \<Rightarrow> unit outcome" where
  "check_access attr uid gid requested_mode =
     (if uid = 0 \<and> (has_flags requested_mode X_OK \<longrightarrow> fa_mode attr AND (S_IXUSR OR S_IXGRP OR S_IXOTH) \<noteq> 0)
      then Ok ()
      else
        let perms_to_check =
              (if fa_uid attr = uid then fa_mode attr
               else if fa_gid attr = gid then perm_truncate (push_bit 3 (fa_mode attr))
               else perm_truncate (push_bit 6 (fa_mode attr)))
        in if has_flags requested_mode R_OK \<and> \<not> has_flags perms_to_check S_IRUSR then Err NotPermitted
           else if has_flags requested_mode W_OK \<and> \<not> has_flags perms_to_check S_IWUSR then Err NotPermitted
           else if has_flags requested_mode X_OK \<and> \<not> has_flags perms_to_check S_IXUSR then Err NotPermitted
           else Ok ())"

record ('n, 'd) inode_ops =
  i_id :: "'n \<Rightarrow> inode_id"
  i_lookup :: "'d \<Rightarrow> 'n \<Rightarrow> path \<Rightarrow> 'n outcome"
  i_getattr :: "'d \<Rightarrow> 'n \<Rightarrow> file_attr outcome"
  i_truncate :: "'n \<Rightarrow> u64 \<Rightarrow> 'd \<Rightarrow> unit outcome \<times> 'd"

section \<open>Mounts\<close>

record ('n, 'f) mount =
  m_fs :: 'f
  m_root :: 'n

record ('n, 'f) vfs =
  mounts :: "(inode_id, ('n, 'f) mount) btree"
  filesystems :: "(u64, 'f) btree"
  v_root :: "'n option"
  next_fs_id :: u64

definition FS_ID_START :: u64 where "FS_ID_START = 10"

definition new_vfs :: "('n, 'f) vfs" where
  "new_vfs = \<lparr>mounts = [], filesystems = [], v_root = None, next_fs_id = FS_ID_START\<rparr>"

text \<open>The trait \<open>Filesystem\<close>, and the drivers that construct file systems by name.\<close>

record ('n, 'f, 'k) fs_ops =
  f_id :: "'f \<Rightarrow> u64"
  f_root :: "'f \<Rightarrow> 'n outcome"
  f_sync :: "'f \<Rightarrow> unit outcome"
  drivers :: "path \<Rightarrow> (u64 \<Rightarrow> 'k option \<Rightarrow> 'f outcome) option"

definition add_mount :: "('n, 'f, 'k) fs_ops \<Rightarrow> inode_id \<Rightarrow> ('n, 'f) mount \<Rightarrow> ('n, 'f) vfs \<Rightarrow> ('n, 'f) vfs" where
  "add_mount F mount_point_id m v =
     v\<lparr>filesystems := bt_insert (f_id F (m_fs m)) (m_fs m) (filesystems v),
       mounts := bt_insert mount_point_id m (mounts v)\<rparr>"

definition get_mount_root :: "('n, 'f) vfs \<Rightarrow> inode_id \<Rightarrow> 'n option" where
  "get_mount_root v i = map_option m_root (bt_get (mounts v) i)"

definition create_fs_instance ::
  "('n, 'f, 'k) fs_ops \<Rightarrow> path \<Rightarrow> 'k option \<Rightarrow> ('n, 'f) vfs \<Rightarrow> 'f outcome \<times> ('n, 'f) vfs" where
  "create_fs_instance F driver_name blkdev v =
     st_then (ok_or (drivers F driver_name) (Fs DriverNotFound), v) (\<lambda>construct v.
       (construct (next_fs_id v) blkdev, v\<lparr>next_fs_id := next_fs_id v + 1\<rparr>))"

definition mount_root ::
  "('n, 'd) inode_ops \<Rightarrow> ('n, 'f, 'k) fs_ops \<Rightarrow> path \<Rightarrow> 'k option \<Rightarrow> ('n, 'f) vfs \<Rightarrow> unit outcome \<times> ('n, 'f) vfs" where
  "mount_root I F driver_name blkdev v =
     st_then (create_fs_instance F driver_name blkdev v) (\<lambda>fs v.
     st_then (f_root F fs, v) (\<lambda>root_inode v.
       (Ok (), (add_mount F (i_id I root_inode) \<lparr>m_fs = fs, m_root = root_inode\<rparr> v)\<lparr>v_root := Some root_inode\<rparr>)))"

definition vfs_mount ::
  "('n, 'd) inode_ops \<Rightarrow> ('n, 'f, 'k) fs_ops \<Rightarrow> 'd \<Rightarrow> 'n \<Rightarrow> path \<Rightarrow> 'k option \<Rightarrow> ('n, 'f) vfs \<Rightarrow>
   unit outcome \<times> ('n, 'f) vfs" where
  "vfs_mount I F d mount_point driver_name blkdev v =
     st_then (i_getattr I d mount_point, v) (\<lambda>attr v.
     if fa_type attr \<noteq> Directory then (Err (Fs NotADirectory), v)
     else
       st_then (create_fs_instance F driver_name blkdev v) (\<lambda>fs v.
       st_then (f_root F fs, v) (\<lambda>root_inode v.
         (Ok (), add_mount F (i_id I mount_point) \<lparr>m_fs = fs, m_root = root_inode\<rparr> v))))"

text \<open>\<open>sync_all\<close> calls \<open>sync\<close> on every file system and ignores the results.\<close>

definition sync_all :: "('n, 'f, 'k) fs_ops \<Rightarrow> ('n, 'f) vfs \<Rightarrow> unit outcome list \<times> unit outcome" where
  "sync_all F v = (map (\<lambda>e. f_sync F (snd e)) (filesystems v), Ok ())"

section \<open>Resolving a path\<close>

definition cross :: "('n, 'd) inode_ops \<Rightarrow> ('n, 'f) vfs \<Rightarrow> 'n \<Rightarrow> 'n" where
  "cross I v i = (case get_mount_root v (i_id I i) of Some r \<Rightarrow> r | None \<Rightarrow> i)"

primrec walk_path ::
  "('n, 'd) inode_ops \<Rightarrow> ('n, 'f) vfs \<Rightarrow> 'd \<Rightarrow> path list \<Rightarrow> 'n \<Rightarrow> 'n outcome" where
  "walk_path I v d [] cur = Ok cur"
| "walk_path I v d (component # cs) cur =
     and_then (i_lookup I d (cross I v cur) component) (walk_path I v d cs)"

definition resolve_path ::
  "('n, 'd) inode_ops \<Rightarrow> ('n, 'f) vfs \<Rightarrow> 'd \<Rightarrow> path \<Rightarrow> 'n \<Rightarrow> 'n outcome" where
  "resolve_path I v d p root =
     and_then (if is_absolute p then ok_or (v_root v) (Fs NotFound) else Ok root) (\<lambda>start.
     and_then (walk_path I v d (components p) start) (\<lambda>i. Ok (cross I v i)))"

definition root_inode :: "('n, 'f) vfs \<Rightarrow> 'n outcome" where
  "root_inode v = (case v_root v of Some r \<Rightarrow> Ok r | None \<Rightarrow> Panic)"

section \<open>Opening\<close>

definition O_WRONLY :: u32 where "O_WRONLY = 1"
definition O_RDWR :: u32 where "O_RDWR = 2"
definition O_CREAT :: u32 where "O_CREAT = 0x40"
definition O_EXCL :: u32 where "O_EXCL = 0x80"
definition O_TRUNC :: u32 where "O_TRUNC = 0x200"
definition O_DIRECTORY :: u32 where "O_DIRECTORY = 0x10000"
definition ALL_OPEN_FLAGS :: u32 where "ALL_OPEN_FLAGS = 0x90EC3"

datatype 'n open_file = RegOpen 'n u32 | DirOpen 'n u32 | CharOpen "u64 \<times> u64" u32

text \<open>\<open>char_open\<close> finds the driver and the device of a character device and opens it.\<close>

definition vfs_open ::
  "('n, 'd) inode_ops \<Rightarrow> ('n, 'f) vfs \<Rightarrow> (u64 \<times> u64 \<Rightarrow> u32 \<Rightarrow> 'n open_file outcome) \<Rightarrow> path \<Rightarrow> u32 \<Rightarrow> 'n \<Rightarrow> 'd \<Rightarrow>
   'n open_file outcome \<times> 'd" where
  "vfs_open I v char_open p flags root d =
     st_then
       (case resolve_path I v d p root of
          Ok inode \<Rightarrow>
            if has_flags flags (O_CREAT OR O_EXCL) then (Err (Fs AlreadyExists), d) else (Ok inode, d)
        | Err (Fs NotFound) \<Rightarrow>
            if has_flags flags O_CREAT then
              (and_then (path_parent p) (\<lambda>pp.
               and_then (ok_or pp (Fs InvalidInput)) (\<lambda>parent_path.
               and_then (ok_or (file_name p) (Fs InvalidInput)) (\<lambda>_.
               and_then (resolve_path I v d parent_path root) (\<lambda>parent_inode.
               and_then (i_getattr I d parent_inode) (\<lambda>attr.
               if fa_type attr \<noteq> Directory then Err (Fs NotADirectory) else Panic))))), d)
            else (Err (Fs NotFound), d)
        | Err e \<Rightarrow> (Err e, d)
        | Panic \<Rightarrow> (Panic, d)
        | Diverge \<Rightarrow> (Diverge, d)) (\<lambda>target_inode d.
     st_then (i_getattr I d target_inode, d) (\<lambda>attr d.
     let writes = has_flags flags O_WRONLY \<or> has_flags flags O_RDWR in
     if has_flags flags O_DIRECTORY \<and> fa_type attr \<noteq> Directory then (Err (Fs NotADirectory), d)
     else if fa_type attr = Directory \<and> writes then (Err (Fs IsADirectory), d)
     else
       st_then (if has_flags flags O_TRUNC \<and> fa_type attr = File \<and> writes
                then i_truncate I target_inode 0 d else (Ok (), d)) (\<lambda>_ d.
       case fa_type attr of
         File \<Rightarrow> (Ok (RegOpen target_inode flags), d)
       | Directory \<Rightarrow> (Ok (DirOpen target_inode flags), d)
       | CharDevice dev \<Rightarrow> (char_open dev flags, d)
       | _ \<Rightarrow> (Panic, d))))"

section \<open>System calls\<close>

text \<open>\<open>UserCStr::copy_from_user\<close>: the bytes up to the terminator, at most \<open>len\<close> of them. A name that is not
  UTF-8 makes \<open>to_str().unwrap()\<close> panic; \<open>is_utf8\<close> is the test of the standard library.\<close>

definition user_cstr :: "(u8 list \<Rightarrow> bool) \<Rightarrow> nat \<Rightarrow> u8 list outcome \<Rightarrow> path outcome" where
  "user_cstr is_utf8 len copied =
     and_then copied (\<lambda>bytes.
       if length bytes = len then Err BufferFull
       else if is_utf8 bytes then Ok bytes else Panic)"

record 'n task_fs =
  cwd :: "'n \<times> path"
  t_uid :: u32
  t_euid :: u32
  t_gid :: u32
  t_egid :: u32

definition resolve_at_start_node ::
  "('n, 'd) inode_ops \<Rightarrow> ('n, 'f) vfs \<Rightarrow> 'd \<Rightarrow> ('o \<Rightarrow> 'n option) \<Rightarrow> 'n task_fs \<Rightarrow> 'o file_descriptor_table \<Rightarrow>
   fd \<Rightarrow> path \<Rightarrow> 'n outcome" where
  "resolve_at_start_node I v d inode_of task t dirfd p =
     (if is_absolute p then root_inode v
      else if is_atcwd dirfd then Ok (fst (cwd task))
      else and_then (ok_or (get_fd t dirfd) BadFd) (\<lambda>f.
           and_then (ok_or (inode_of f) NotSupported) (\<lambda>inode.
           and_then (i_getattr I d inode) (\<lambda>attr.
           if fa_type attr \<noteq> Directory then Err (Fs NotADirectory) else Ok inode))))"

definition sys_openat ::
  "('n, 'd) inode_ops \<Rightarrow> ('n, 'f) vfs \<Rightarrow> (u64 \<times> u64 \<Rightarrow> u32 \<Rightarrow> 'n open_file outcome) \<Rightarrow> ('n open_file \<Rightarrow> 'n option) \<Rightarrow>
   'n task_fs \<Rightarrow> fd \<Rightarrow> path outcome \<Rightarrow> u32 \<Rightarrow> 'n open_file file_descriptor_table \<times> 'd \<Rightarrow>
   usize outcome \<times> 'n open_file file_descriptor_table \<times> 'd" where
  "sys_openat I v char_open inode_of task dirfd user_path flags s =
     st_then (user_path, s) (\<lambda>p (t, d).
     st_then (resolve_at_start_node I v d inode_of task t dirfd p, (t, d)) (\<lambda>start_node (t, d).
     (case vfs_open I v char_open p (flags AND ALL_OPEN_FLAGS) start_node d of
        (r, d1) \<Rightarrow>
          st_then (r, (t, d1)) (\<lambda>f (t, d).
            (case insert_fd t f of
               (r, t1) \<Rightarrow> (and_then r (\<lambda>new_fd. Ok (as_usize new_fd)), (t1, d)))))))"

definition AT_EACCESS :: u32 where "AT_EACCESS = 0x200"

definition sys_faccessat2 ::
  "('n, 'd) inode_ops \<Rightarrow> ('n, 'f) vfs \<Rightarrow> 'd \<Rightarrow> ('o \<Rightarrow> 'n option) \<Rightarrow> 'n task_fs \<Rightarrow> 'o file_descriptor_table \<Rightarrow> fd \<Rightarrow>
   path outcome \<Rightarrow> u32 \<Rightarrow> u32 \<Rightarrow> usize outcome" where
  "sys_faccessat2 I v d inode_of task t dirfd user_path mode flags =
     and_then user_path (\<lambda>p.
     and_then (resolve_at_start_node I v d inode_of task t dirfd p) (\<lambda>start_node.
     and_then (resolve_path I v d p start_node) (\<lambda>node.
     if mode = 0 then Ok 0
     else
       and_then (i_getattr I d node) (\<lambda>attrs.
       let (uid, gid) = (if has_flags flags AT_EACCESS then (t_euid task, t_egid task) else (t_uid task, t_gid task))
       in and_then (check_access attrs uid gid mode) (\<lambda>_. Ok 0)))))"

definition sys_chdir ::
  "('n, 'd) inode_ops \<Rightarrow> ('n, 'f) vfs \<Rightarrow> 'd \<Rightarrow> path outcome \<Rightarrow> 'n task_fs \<Rightarrow> usize outcome \<times> 'n task_fs" where
  "sys_chdir I v d user_path task =
     st_then (user_path, task) (\<lambda>p task.
     let new_path = path_join (snd (cwd task)) p in
     st_then (resolve_path I v d p (fst (cwd task)), task) (\<lambda>node task.
       (Ok 0, task\<lparr>cwd := (node, new_path)\<rparr>)))"

text \<open>\<open>getcwd\<close>: a path with a zero byte inside is refused by \<open>CString\<close>; the terminator is copied too.\<close>

definition sys_getcwd :: "(usize \<Rightarrow> u8 list \<Rightarrow> unit outcome) \<Rightarrow> 'n task_fs \<Rightarrow> usize \<Rightarrow> usize \<Rightarrow> usize outcome" where
  "sys_getcwd copy_to_user task buf len =
     (let p = snd (cwd task) in
      if 0 \<in> set p then Err InvalidValue
      else let slice = p @ [0]
           in if length slice > unat len then Err TooLarge
              else and_then (copy_to_user buf slice) (\<lambda>_. Ok buf))"

end
