(* ===== verification/VfsProps.thy ===== *)
theory VfsProps
  imports Vfs
begin

text \<open>
  Properties of the virtual file system: the permission check against the rule it implements, and the
  resolution of joined paths, on which the consistency of the working directory rests.
\<close>

section \<open>Permissions\<close>

text \<open>The bits of the mode that apply to a caller: owner, group or others.\<close>

definition class_shift :: "file_attr \<Rightarrow> u32 \<Rightarrow> u32 \<Rightarrow> nat" where
  "class_shift attr uid gid = (if fa_uid attr = uid then 6 else if fa_gid attr = gid then 3 else 0)"

definition class_bits :: "file_attr \<Rightarrow> u32 \<Rightarrow> u32 \<Rightarrow> u32" where
  "class_bits attr uid gid = ucast (drop_bit (class_shift attr uid gid) (fa_mode attr))"

definition some_exec :: "file_attr \<Rightarrow> bool" where
  "some_exec attr \<longleftrightarrow> bit (fa_mode attr) 0 \<or> bit (fa_mode attr) 3 \<or> bit (fa_mode attr) 6"

lemma has_flags_bit: "n < LENGTH('a) \<Longrightarrow> has_flags (w :: 'a::len word) (2 ^ n) \<longleftrightarrow> bit w n"
  unfolding has_flags_def bit_eq_iff [of "w AND 2 ^ n"] by (auto simp: bit_simps)

lemma flag_bits:
  "has_flags (m :: u32) X_OK \<longleftrightarrow> bit m 0" "has_flags (m :: u32) W_OK \<longleftrightarrow> bit m 1" "has_flags (m :: u32) R_OK \<longleftrightarrow> bit m 2"
  "has_flags (p :: 16 word) S_IXUSR \<longleftrightarrow> bit p 6" "has_flags p S_IWUSR \<longleftrightarrow> bit p 7" "has_flags p S_IRUSR \<longleftrightarrow> bit p 8"
  using has_flags_bit [of 0 m] has_flags_bit [of 1 m] has_flags_bit [of 2 m]
    has_flags_bit [of 6 p] has_flags_bit [of 7 p] has_flags_bit [of 8 p]
  by (simp_all add: X_OK_def W_OK_def R_OK_def S_IXUSR_def S_IWUSR_def S_IRUSR_def)

lemma exec_mask: "w AND (S_IXUSR OR S_IXGRP OR S_IXOTH) \<noteq> 0 \<longleftrightarrow> bit w 0 \<or> bit w 3 \<or> bit (w :: 16 word) 6"
proof -
  have m: "S_IXUSR OR S_IXGRP OR S_IXOTH = 2 ^ 0 OR 2 ^ 3 OR 2 ^ 6"
    by (simp add: S_IXUSR_def S_IXGRP_def S_IXOTH_def)
  show ?thesis
    unfolding m bit.conj_disj_distrib or_eq_0_iff and_exp_eq_0_iff_not_bit by simp
qed

lemma requested_bits: "bit ((m AND 7) AND NOT (c :: u32)) n \<longleftrightarrow> n < 3 \<and> bit m n \<and> \<not> bit c n"
proof -
  have "(7 :: u32) = mask 3" by (simp add: mask_numeral)
  then show ?thesis unfolding \<open>7 = mask 3\<close> by (auto simp: bit_simps)
qed

lemma requested_subset:
  "(m AND 7) AND NOT c = 0 \<longleftrightarrow> (bit m 0 \<longrightarrow> bit c 0) \<and> (bit m 1 \<longrightarrow> bit c 1) \<and> (bit m 2 \<longrightarrow> bit (c :: u32) 2)"
proof -
  have lt: "n < 3 \<longleftrightarrow> n = 0 \<or> n = 1 \<or> n = 2" for n :: nat by arith
  have "(m AND 7) AND NOT c = 0 \<longleftrightarrow> (\<forall>n. \<not> bit ((m AND 7) AND NOT c) n)"
    by (metis bit_0_eq bit_eqI bot_apply bot_bool_def)
  then show ?thesis unfolding requested_bits lt by blast
qed

lemma perms_to_check_bits:
  fixes attr uid gid
  defines "c \<equiv> class_bits attr uid gid"
  defines "perms \<equiv> (if fa_uid attr = uid then fa_mode attr
     else if fa_gid attr = gid then perm_truncate (push_bit 3 (fa_mode attr))
     else perm_truncate (push_bit 6 (fa_mode attr)))"
  shows "bit perms 6 \<longleftrightarrow> bit c 0" "bit perms 7 \<longleftrightarrow> bit c 1" "bit perms 8 \<longleftrightarrow> bit c 2"
  by (simp_all add: c_def perms_def class_bits_def class_shift_def perm_truncate_def bit_simps numeral_2_eq_2)

text \<open>C9.  The permission check grants exactly what the file mode allows. The caller is matched against
  the owner, then the group, then others, and every requested bit must be set in the one class that
  applies. The superuser passes, except that executing needs an execute bit in some class.\<close>

theorem check_access_correct:
  "check_access attr uid gid m =
     (if (uid = 0 \<and> (if bit m 0 then some_exec attr else True)) \<or> (m AND 7) AND NOT (class_bits attr uid gid) = 0
      then Ok () else Err NotPermitted)"
  unfolding requested_subset check_access_def flag_bits Let_def perms_to_check_bits exec_mask some_exec_def
  by auto

section \<open>Joined paths\<close>

lemma walk_path_append:
  "walk_path I v d (xs @ ys) = (\<lambda>cur. and_then (walk_path I v d xs cur) (walk_path I v d ys))"
proof (induction xs)
  case (Cons x xs)
  show ?case by (rule ext) (simp add: Cons.IH and_then_assoc)
qed simp

text \<open>No mount hides the root of another: crossing a mount point once is enough.\<close>

definition flat_mounts :: "('n, 'd) inode_ops \<Rightarrow> ('n, 'f) vfs \<Rightarrow> bool" where
  "flat_mounts I v \<longleftrightarrow> (\<forall>i. cross I v (cross I v i) = cross I v i)"

lemma walk_path_cross:
  "flat_mounts I v \<Longrightarrow>
   and_then (walk_path I v d cs (cross I v i)) (\<lambda>j. Ok (cross I v j)) =
   and_then (walk_path I v d cs i) (\<lambda>j. Ok (cross I v j))"
  by (cases cs) (simp_all add: flat_mounts_def)

lemma is_absolute_push: "is_absolute (path_push p q) \<longleftrightarrow> is_absolute q \<or> is_absolute p"
  by (auto simp: path_push_def is_absolute_def split: list.splits)

lemma resolve_push:
  assumes "flat_mounts I v" and "\<not> is_absolute q"
  shows "resolve_path I v d (path_push p q) r = and_then (resolve_path I v d p r) (resolve_path I v d q)"
proof -
  let ?s = "if is_absolute p then ok_or (v_root v) (Fs NotFound) else Ok r"
  have "resolve_path I v d (path_push p q) r =
      and_then ?s (\<lambda>s. and_then (walk_path I v d (components p) s) (\<lambda>i.
        and_then (walk_path I v d (components q) i) (\<lambda>j. Ok (cross I v j))))"
    using assms(2) by (simp add: resolve_path_def is_absolute_push components_push walk_path_append and_then_assoc)
  also have "\<dots> = and_then ?s (\<lambda>s. and_then (walk_path I v d (components p) s) (\<lambda>i.
        and_then (walk_path I v d (components q) (cross I v i)) (\<lambda>j. Ok (cross I v j))))"
    using walk_path_cross [OF assms(1)] by simp
  also have "\<dots> = and_then (resolve_path I v d p r) (resolve_path I v d q)"
    using assms(2) by (simp add: resolve_path_def and_then_assoc)
  finally show ?thesis .
qed

text \<open>C17.  Resolving a joined path is resolving its parts one after the other, starting the second at
  the inode the first leads to, in every mount layout where no file system is mounted on the root
  of another. An absolute second part replaces the first.\<close>

theorem resolve_path_push:
  assumes "flat_mounts I v"
  shows "resolve_path I v d (path_push p q) r =
    (if is_absolute q then resolve_path I v d q r
     else and_then (resolve_path I v d p r) (resolve_path I v d q))"
  using resolve_push [OF assms] by (auto simp: path_push_def)

text \<open>A root with a directory \<open>a\<close> on which a second file system with a file \<open>b\<close> is mounted.\<close>

definition demo_inodes :: "(nat, unit) inode_ops" where
  "demo_inodes = \<lparr>
     i_id = (\<lambda>n. if n = 0 then (1, 0) else if n = 1 then (1, 1) else if n = 2 then (2, 0) else (2, 1)),
     i_lookup = (\<lambda>_ n c. if n = 0 \<and> c = [97] then Ok 1 else if n = 2 \<and> c = [98] then Ok 3 else Err (Fs NotFound)),
     i_getattr = (\<lambda>_ n. Ok (default_file_attr\<lparr>fa_type := (if n = 3 then File else Directory)\<rparr>)),
     i_truncate = (\<lambda>_ _ d. (Err NotSupported, d))\<rparr>"

definition demo_vfs :: "(nat, nat) vfs" where
  "demo_vfs = \<lparr>mounts = [((1, 0), \<lparr>m_fs = 1, m_root = 0\<rparr>), ((1, 1), \<lparr>m_fs = 2, m_root = 2\<rparr>)],
     filesystems = [(1, 1), (2, 2)], v_root = Some 0, next_fs_id = 12\<rparr>"

lemma demo_cross: "cross demo_inodes demo_vfs i = (if i = 1 then 2 else i)"
  by (auto simp: cross_def get_mount_root_def bt_get_def demo_inodes_def demo_vfs_def)

lemma demo_flat: "flat_mounts demo_inodes demo_vfs"
  by (simp add: flat_mounts_def demo_cross)

lemma demo_components:
  "components [47, 97] = [[97]]" "components [97] = [[97]]" "components [98] = [[98]]" "components [slash] = []"
  by (simp_all add: components_split named_def)

lemma demo_lookup:
  "i_lookup demo_inodes () 0 [97] = Ok 1" "i_lookup demo_inodes () 2 [98] = Ok 3"
  by (simp_all add: demo_inodes_def)

lemma demo_root: "v_root demo_vfs = Some 0"
  by (simp add: demo_vfs_def)

lemma resolve_path_push_witness:
  "flat_mounts demo_inodes demo_vfs \<and>
   resolve_path demo_inodes demo_vfs () (path_push [47, 97] [98]) 0 = Ok 3"
proof -
  have "resolve_path demo_inodes demo_vfs () [47, 97] 0 = Ok 2" "resolve_path demo_inodes demo_vfs () [98] 2 = Ok 3"
    by (simp_all add: resolve_path_def is_absolute_def demo_components demo_cross demo_lookup demo_root)
  then show ?thesis
    using resolve_path_push [OF demo_flat, of "()" "[47, 97]" "[98]" 0] demo_flat by (simp add: is_absolute_def)
qed

section \<open>The working directory\<close>





text \<open>Mounting the root file system leaves its root uncovered.\<close>

lemma mount_root_cross:
  assumes "mount_root I F driver_name blkdev v = (Ok (), v')"
  shows "\<exists>r. root_inode v' = Ok r \<and> cross I v' r = r"
  using assms
  by (auto simp: mount_root_def st_then_def root_inode_def cross_def get_mount_root_def add_mount_def bt_get_insert
      split: prod.splits outcome.splits)



section \<open>Mounting over a mount\<close>

text \<open>
  A mount on the root of a mounted file system has no effect. The path of the mount point resolves to
  the root of the file system mounted there, so a second mount on that path is recorded for this
  root; resolution crosses a single mount and still ends at the first root.
\<close>

lemma vfs_mount_ok:
  assumes "vfs_mount I F d n name blk v = (Ok (), v')"
  shows "\<exists>m. v' = add_mount F (i_id I n) m (v\<lparr>next_fs_id := next_fs_id v + 1\<rparr>)"
  using assms unfolding vfs_mount_def create_fs_instance_def
  by (auto simp: st_then_eq_Ok split: if_splits)

lemma stacked_mount_hidden:
  assumes "cross I v x = r1" and "i_id I x \<noteq> i_id I r1"
    and "vfs_mount I F d r1 name blk v = (Ok (), v')"
  shows "cross I v' x = r1"
  using vfs_mount_ok [OF assms(3)] assms(1,2)
  by (auto simp: cross_def get_mount_root_def add_mount_def bt_get_insert)

text \<open>Opening a missing file for creation panics as soon as its parent is a directory.\<close>

lemma open_create_panics:
  assumes "resolve_path I v d p r = Err (Fs NotFound)" and "has_flags flags O_CREAT"
    and "path_parent p = Ok (Some q)" and "resolve_path I v d q r = Ok n"
    and "i_getattr I d n = Ok attr" and "fa_type attr = Directory"
  shows "vfs_open I v char_open p flags r d = (Panic, d)"
proof -
  have "file_name p \<noteq> None" using assms(3) by (auto simp: path_parent_def file_name_def Let_def split: if_splits)
  then show ?thesis using assms by (auto simp: vfs_open_def)
qed

end
