(* ===== verification/Spec2Isabelle.thy ===== *)
theory Spec2Isabelle
  imports Prelude Address Region Smalloc FrameAlloc FrameAllocProps VMArea BTree MemoryMap MemoryMapProps
    PgDescriptor PageTable PageTableProps PageWalkProps AddressSpaceProps MemoryMapArm64 FdTable Esr Fault FaultProps
    WakerSet KBuf KBufProps Pipe PipeProps Tty Path Blk Fat32 Vfs VfsProps
begin

text \<open>
  A verification of the memory management and of the file and stream layers of the kernel: the crate
  \<open>libkernel\<close>, which holds the parts that do not depend on hardware, and the parts of the kernel crate
  \<open>src\<close> that are built on them.

  \<^bold>\<open>The program.\<close> At boot a small allocator hands out physical memory from region lists until the buddy
  allocator takes over. Processes own a map of virtual memory areas, which is realised by arm64 page
  tables whose pages come from the buddy allocator; a page fault consults the map and fills in the
  table. Files are reached through a descriptor table, a virtual file system that resolves paths across
  mounts, and a FAT32 driver over a block device. Pipes and terminals move bytes through asynchronous ring
  buffers whose readers and writers sleep in waker sets.

  \<^bold>\<open>Conventions.\<close> A value of \<open>usize\<close>, \<open>u64\<close> or an address is a \<open>64 word\<close>, whose operations wrap as they do in
  the release profile; \<open>debug_assert\<close> is compiled out there and is not modelled. Fallible code returns the
  type \<open>outcome\<close>, with the source's \<open>Ok\<close> and \<open>Err\<close>, \<open>Panic\<close> for every failed index, \<open>unwrap\<close>, \<open>assert\<close> or
  \<open>todo\<close>, and \<open>Diverge\<close> for code that does not return. Code that changes a state takes and returns
  it (\<open>st_then\<close>), on error paths too. A future is one function per poll, with \<open>None\<close> for pending and its
  suspended state as an argument; interleavings are sequences of such steps. Each critical section
  of a lock is one step. A poll of a pipe end or of the terminal takes two locks one after the other; its argument
  \<open>env\<close> is what the rest of the system does between them, and the theorems hold for every \<open>env\<close>. Taking a
  finished future's waker out of its waker set is part of the step that finishes it.

  \<^bold>\<open>Memory.\<close>
  \<^item> \<open>Prelude\<close>, \<open>Address\<close>, \<open>Region\<close>: errors and outcomes, addresses and frames, memory regions
    (\<open>memory/address.rs\<close>, \<open>page.rs\<close>, \<open>region.rs\<close>). Regions are related to the sets of bytes they cover:
    merging is union, punching a hole is difference.
  \<^item> \<open>Smalloc\<close> (\<open>memory/smalloc.rs\<close>): the boot allocator. The lemmas give the set of reserved and of
    allocatable bytes after every operation. \<open>free\<close> and \<open>grow_region_list\<close> call each other; the fuel
    \<open>MAX_GROWTHS\<close> of 66 exceeds the number of times a list can double in 64 bits of memory. The scans
    that may not end are partial functions, and the theorems show that they return.
  \<^item> \<open>FrameAlloc\<close>, \<open>FrameAllocProps\<close> (\<open>memory/page_alloc.rs\<close>): the buddy allocator over the interface
    \<open>frame_list\<close> of its intrusive lists. The free lists and the states of the frames describe one
    partition into aligned blocks; allocation and freeing move exactly one block across it.
  \<^item> \<open>VMArea\<close>, \<open>BTree\<close>, \<open>MemoryMap\<close>, \<open>MemoryMapProps\<close> (\<open>memory/permissions.rs\<close>, \<open>proc_vm\<close>): areas and the
    map of a process, abstracted to a function from addresses to permissions and backing. \<open>mmap\<close>, \<open>munmap\<close>,
    \<open>mprotect\<close> and \<open>brk\<close> change that function on the given range only, keep the areas disjoint, and keep every
    page-table entry inside an area. They are shown over the interface \<open>user_address_space\<close> of the page tables.
  \<^item> \<open>PgDescriptor\<close>, \<open>PageTable\<close> (\<open>arch/arm64/memory\<close>, \<open>address_space.rs\<close>): descriptors over the interface
    \<open>bitfields\<close> of the register crate, and tables in a memory of 64-bit slots. \<open>PageTableProps\<close> shows that
    \<open>map_range\<close> refines an update of the translation, \<open>PageWalkProps\<close> that the recursive walker equals a
    walk page by page, \<open>AddressSpaceProps\<close> the effect of mapping, unmapping and protecting. The interface
    \<open>pt_allocator\<close> is what they need of the source of table pages; the buddy allocator provides it.
    \<open>MemoryMapArm64\<close> shows that these tables provide \<open>user_address_space\<close>, so the theorems on memory maps hold
    over them.
  \<^item> \<open>Esr\<close>, \<open>Fault\<close>, \<open>FaultProps\<close> (\<open>exceptions/esr.rs\<close>, \<open>memory/fault.rs\<close>, \<open>mmap.rs\<close>): from the raw syndrome
    of an abort through the area lookup to the new translation, and the system calls on memory.

  \<^bold>\<open>Files and streams.\<close>
  \<^item> \<open>FdTable\<close> (\<open>process/fd_table\<close>): the descriptor table; every operation keeps its search hint below the
    lowest free descriptor, so the lowest one is handed out.
  \<^item> \<open>WakerSet\<close> (\<open>sync/waker_set.rs\<close>, \<open>condvar.rs\<close>), \<open>KBuf\<close> and \<open>KBufProps\<close> (\<open>memory/kbuf.rs\<close>): waiting and
    ring buffers over the interface \<open>ring_buffer\<close>. The relation \<open>kb_run\<close> interleaves all operations on any
    number of buffers; elements leave in the order in which they entered.
  \<^item> \<open>Pipe\<close>, \<open>PipeProps\<close> (\<open>kernel/kpipe.rs\<close>, \<open>fs/pipe.rs\<close>): both ends of a pipe, poll by poll.
  \<^item> \<open>Tty\<close> (\<open>console/tty\<close>): the line discipline refines an abstract line editor.
  \<^item> \<open>Path\<close> (\<open>fs/path.rs\<close>, \<open>pathbuf.rs\<close>): the component iterator equals splitting at slashes.
  \<^item> \<open>Blk\<close>, \<open>Fat32\<close> (\<open>fs/blk\<close>, \<open>filesystems/fat32\<close>): a ramdisk and byte access over the interface
    \<open>block_device\<close>; reading a file gives the bytes of its cluster chain, at the places the layout of the format
    gives them. \<open>chain_take\<close> follows at most as many
    clusters as the file size allows, which is the bound the code sets against cycles.
  \<^item> \<open>Vfs\<close>, \<open>VfsProps\<close> (\<open>fs/mod.rs\<close>, \<open>fs/attr.rs\<close>, \<open>fs/syscalls\<close>): mounts, path resolution, permission check,
    open and the working directory.

  \<^bold>\<open>Interfaces.\<close> Code outside the sources is a record of operations with a locale for its documented
  behaviour: \<open>frame_list\<close> (interpreted on lists), \<open>bitfields\<close> (on shifts and masks), \<open>ring_buffer\<close> (on a ring
  with a read index and a count), \<open>block_device\<close> (on the model of the ramdisk). Between components,
  \<open>pt_allocator\<close> is interpreted on the buddy allocator and \<open>user_address_space\<close> on the arm64 page tables. Inodes,
  file-system drivers and copies to user memory are arguments.

  \<^bold>\<open>Not modelled.\<close> The riscv64 port, boot code, device drivers and interrupt controllers, which act on
  registers; the scheduler and the executor of futures; locks; process creation, exec and signals, which
  work on global tables of reference-counted objects and on register frames; FAT32 directories with
  long names; regular and directory files above the inode interface. The modelled code does not depend on
  them except through the arguments above.
\<close>

end
